(* ===== verification/Prelude.thy ===== *)
theory Prelude
  imports Main "HOL-Library.Word" "HOL-Library.Char_ord" "HOL-Library.List_Lexorder"
    "HOL-Library.Sublist"
begin

text \<open>
  Shared vocabulary of the development: relational tables as lists of rows, the pieces of
  the Rust standard library the modelled code uses (strings, saturating arithmetic), the
  generic notion of reachability with its invariant rule, and the lemma collections the
  component theories feed to the simplifier.
\<close>

named_theorems tbl \<open>rewriting of table updates, deletions and counts\<close>
named_theorems str \<open>facts on dotted names and strings\<close>

section \<open>Results and strings\<close>

text \<open>A dotted name, an agent id, any Rust \<^verbatim>\<open>&str\<close>: the bytes of its UTF-8 encoding.\<close>

type_synonym name = string

text \<open>Fallible code returns a sum, \<open>Inl\<close> the error. \<open>bindR\<close> is Rust's \<^verbatim>\<open>?\<close> operator and
  \<open>traverse\<close> collects an iterator of results, stopping at the first error.\<close>

fun bindR :: "'e + 'a \<Rightarrow> ('a \<Rightarrow> 'e + 'b) \<Rightarrow> 'e + 'b" where
  "bindR (Inl e) f = Inl e"
| "bindR (Inr x) f = f x"

fun traverse :: "('a \<Rightarrow> 'e + 'b) \<Rightarrow> 'a list \<Rightarrow> 'e + 'b list" where
  "traverse f [] = Inr []"
| "traverse f (x # xs) = bindR (f x) (\<lambda>y. bindR (traverse f xs) (\<lambda>ys. Inr (y # ys)))"

lemma bindR_Inr_iff [simp]: "bindR r f = Inr y \<longleftrightarrow> (\<exists>x. r = Inr x \<and> f x = Inr y)"
  by (cases r) auto

lemma traverse_all: "(\<And>x. x \<in> set xs \<Longrightarrow> f x = Inr (g x)) \<Longrightarrow> traverse f xs = Inr (map g xs)"
  by (induction xs) auto

lemma traverse_map: "traverse f (map g xs) = traverse (\<lambda>x. f (g x)) xs"
  by (induction xs) auto

lemma traverse_append:
  "traverse f (xs @ ys) = bindR (traverse f xs) (\<lambda>us. bindR (traverse f ys) (\<lambda>vs. Inr (us @ vs)))"
proof (induction xs)
  case Nil
  show ?case by (cases "traverse f ys") auto
next
  case (Cons x xs)
  show ?case
    by (cases "f x"; cases "traverse f xs"; cases "traverse f ys") (auto simp: Cons)
qed

definition starts_with :: "string \<Rightarrow> string \<Rightarrow> bool" where
  "starts_with s p \<longleftrightarrow> take (length p) s = p"

lemma starts_with_iff [str]: "starts_with s p \<longleftrightarrow> (\<exists>t. s = p @ t)"
  unfolding starts_with_def by (metis append_eq_conv_conj append_take_drop_id)

text \<open>
  \<^verbatim>\<open>char::is_whitespace\<close> and \<^verbatim>\<open>char::is_control\<close>, on UTF-8 bytes: does the byte
  string begin with the encoding of a Unicode white-space or control character?
  (White space: U+0009..D, 20, 85, A0, 1680, 2000..200A, 2028, 2029, 202F, 205F, 3000;
  control: U+0000..1F, 7F..9F.)
\<close>

fun ws_or_control_head :: "nat list \<Rightarrow> bool" where
  "ws_or_control_head [] = False"
| "ws_or_control_head (a # bs) =
     (a \<le> 32 \<or> a = 127
      \<or> (case bs of
           [] \<Rightarrow> False
         | b # cs \<Rightarrow>
             (a = 194 \<and> 128 \<le> b \<and> b \<le> 160)
             \<or> (case cs of
                  [] \<Rightarrow> False
                | c # _ \<Rightarrow>
                    (a = 225 \<and> b = 154 \<and> c = 128)
                    \<or> (a = 226 \<and> b = 128 \<and> (128 \<le> c \<and> c \<le> 138 \<or> c = 168 \<or> c = 169 \<or> c = 175))
                    \<or> (a = 226 \<and> b = 129 \<and> c = 159)
                    \<or> (a = 227 \<and> b = 128 \<and> c = 128))))"

fun any_ws_or_control :: "nat list \<Rightarrow> bool" where
  "any_ws_or_control [] = False"
| "any_ws_or_control (a # bs) = (ws_or_control_head (a # bs) \<or> any_ws_or_control bs)"

definition has_ws_or_control :: "string \<Rightarrow> bool" where
  "has_ws_or_control s = any_ws_or_control (map of_char s)"

text \<open>Decimal rendering of an unsigned integer, as \<^verbatim>\<open>format!("{}")\<close> prints it.\<close>

fun show_nat :: "nat \<Rightarrow> string" where
  "show_nat n = (if n < 10 then [char_of (48 + n)] else show_nat (n div 10) @ [char_of (48 + n mod 10)])"

declare show_nat.simps [simp del]

section \<open>Unsigned machine arithmetic\<close>

definition sat_add :: "nat \<Rightarrow> nat \<Rightarrow> nat \<Rightarrow> nat" where
  "sat_add w a b = min (2 ^ w - 1) (a + b)"

definition sat_mul :: "nat \<Rightarrow> nat \<Rightarrow> nat \<Rightarrow> nat" where
  "sat_mul w a b = min (2 ^ w - 1) (a * b)"

lemma sat_add_less [simp]: "sat_add w a b < 2 ^ w"
  unfolding sat_add_def by (rule le_less_trans [OF min.cobounded1]) simp

lemma sat_mul_less [simp]: "sat_mul w a b < 2 ^ w"
  unfolding sat_mul_def by (rule le_less_trans [OF min.cobounded1]) simp

lemma sat_add_exact: "a + b < 2 ^ w \<Longrightarrow> sat_add w a b = a + b"
  by (simp add: sat_add_def)

section \<open>Tables\<close>

text \<open>
  A SQLite table is the list of its rows. \<open>UPDATE t SET f WHERE P\<close> rewrites every row that
  satisfies \<open>P\<close>, \<open>DELETE FROM t WHERE P\<close> drops those rows, and \<open>rows_affected\<close> counts them.
\<close>

definition upd_where :: "('r \<Rightarrow> bool) \<Rightarrow> ('r \<Rightarrow> 'r) \<Rightarrow> 'r list \<Rightarrow> 'r list" where
  "upd_where P f t = map (\<lambda>r. if P r then f r else r) t"

definition del_where :: "('r \<Rightarrow> bool) \<Rightarrow> 'r list \<Rightarrow> 'r list" where
  "del_where P t = filter (\<lambda>r. \<not> P r) t"

definition rows_affected :: "('r \<Rightarrow> bool) \<Rightarrow> 'r list \<Rightarrow> nat" where
  "rows_affected P t = length (filter P t)"

lemma set_upd_where [tbl]: "set (upd_where P f t) = (\<lambda>r. if P r then f r else r) ` set t"
  by (simp add: upd_where_def)

lemma set_del_where [tbl]: "set (del_where P t) = {r \<in> set t. \<not> P r}"
  by (simp add: del_where_def)

lemma upd_where_none: "(\<And>r. r \<in> set t \<Longrightarrow> \<not> P r) \<Longrightarrow> upd_where P f t = t"
  unfolding upd_where_def by (rule map_idI) simp

lemma del_where_none: "(\<And>r. r \<in> set t \<Longrightarrow> \<not> P r) \<Longrightarrow> del_where P t = t"
  by (simp add: del_where_def filter_id_conv)

lemma map_upd_where_key [tbl]:
  "(\<And>r. k (f r) = k r) \<Longrightarrow> map k (upd_where P f t) = map k t"
  by (simp add: upd_where_def comp_def)

lemma rows_affected_zero [tbl]: "rows_affected P t = 0 \<longleftrightarrow> (\<forall>r \<in> set t. \<not> P r)"
  by (auto simp: rows_affected_def filter_empty_conv)

lemma rows_affected_append [tbl]:
  "rows_affected P (s @ t) = rows_affected P s + rows_affected P t"
  by (simp add: rows_affected_def)

lemma rows_affected_Cons [tbl]:
  "rows_affected P (r # t) = (if P r then 1 else 0) + rows_affected P t"
  by (simp add: rows_affected_def)

lemma rows_affected_Nil [tbl]: "rows_affected P [] = 0"
  by (simp add: rows_affected_def)

lemma rows_affected_del_where:
  "rows_affected P (del_where Q t) = rows_affected (\<lambda>r. P r \<and> \<not> Q r) t"
  by (induction t) (auto simp: rows_affected_def del_where_def)

text \<open>Rows of a table with a key column that is a primary key are determined by the key.\<close>

lemma keyed_unique:
  assumes "distinct (map k t)" "r \<in> set t" "s \<in> set t" "k r = k s"
  shows "r = s"
  using assms by (metis inj_onD distinct_map)

lemma rows_affected_key:
  assumes "distinct (map k t)"
  shows "rows_affected (\<lambda>r. k r = a \<and> P r) t = (if \<exists>r \<in> set t. k r = a \<and> P r then 1 else 0)"
  using assms by (induction t) (auto simp: rows_affected_def filter_empty_conv image_iff)

section \<open>Reachable states\<close>

text \<open>
  Several components are transition systems; \<open>reach I R\<close> is the set of states a system
  with initial states \<open>I\<close> and steps \<open>R\<close> can get into.
\<close>

inductive reach :: "('s \<Rightarrow> bool) \<Rightarrow> ('s \<Rightarrow> 's \<Rightarrow> bool) \<Rightarrow> 's \<Rightarrow> bool" for I R where
  reach_init: "I s \<Longrightarrow> reach I R s"
| reach_step: "reach I R s \<Longrightarrow> R s t \<Longrightarrow> reach I R t"

locale inductive_invariant =
  fixes I :: "'s \<Rightarrow> bool"
    and R :: "'s \<Rightarrow> 's \<Rightarrow> bool"
    and inv :: "'s \<Rightarrow> bool"
  assumes initially: "I s \<Longrightarrow> inv s"
    and preserved: "inv s \<Longrightarrow> R s t \<Longrightarrow> inv t"
begin

lemma always: "reach I R s \<Longrightarrow> inv s"
  by (induction rule: reach.induct) (auto intro: initially preserved)

lemma always_steps: "R\<^sup>*\<^sup>* s t \<Longrightarrow> inv s \<Longrightarrow> inv t"
  by (induction rule: rtranclp_induct) (auto intro: preserved)

end

section \<open>Functional refinement\<close>

text \<open>
  A component with commands \<open>'k\<close> and outputs \<open>'o\<close> refines a specification when related states give
  the same output and stay related. \<open>'e\<close> is whatever both are run under. The locale is the contract;
  its client lemma carries it to whole runs.
\<close>

primrec run_cmds_from :: "('k \<Rightarrow> 's \<Rightarrow> 'o \<times> 's) \<Rightarrow> 'k list \<Rightarrow> 's \<Rightarrow> 'o list \<times> 's" where
  "run_cmds_from step [] s = ([], s)"
| "run_cmds_from step (k # ks) s =
     (let (out, s') = step k s; (outs, s'') = run_cmds_from step ks s' in (out # outs, s''))"

lemma run_cmds_snoc: "snd (run_cmds_from step (ks @ [k]) s) = snd (step k (snd (run_cmds_from step ks s)))"
  by (induction ks arbitrary: s) (simp_all add: case_prod_beta Let_def)

locale simulation =
  fixes cstep :: "'e \<Rightarrow> 'k \<Rightarrow> 'c \<Rightarrow> 'o \<times> 'c"
    and astep :: "'e \<Rightarrow> 'k \<Rightarrow> 'a \<Rightarrow> 'o \<times> 'a"
    and rel :: "'e \<Rightarrow> 'c \<Rightarrow> 'a \<Rightarrow> bool"
    and ok :: "'e \<Rightarrow> 'k \<Rightarrow> bool"
  assumes simulates: "rel e c a \<Longrightarrow> ok e k \<Longrightarrow>
    fst (cstep e k c) = fst (astep e k a) \<and> rel e (snd (cstep e k c)) (snd (astep e k a))"
begin

lemma run_simulates:
  assumes "rel e c a" "list_all (ok e) ks"
  shows "fst (run_cmds_from (cstep e) ks c) = fst (run_cmds_from (astep e) ks a)
    \<and> rel e (snd (run_cmds_from (cstep e) ks c)) (snd (run_cmds_from (astep e) ks a))"
  using assms
proof (induction ks arbitrary: c a)
  case (Cons k ks)
  then have "fst (cstep e k c) = fst (astep e k a)" "rel e (snd (cstep e k c)) (snd (astep e k a))"
    using simulates by auto
  with Cons.IH [OF this(2)] Cons.prems(2) show ?case by (simp add: case_prod_beta Let_def)
qed simp

end

end
