(* ===== verification/Grants.thy ===== *)
theory Grants
  imports Prelude
begin

text \<open>
  The grants domain model of the content store, \<^verbatim>\<open>services/fq-store/src/grants.rs\<close>:
  principals, verbs, scopes, grant events, and the reference model \<^verbatim>\<open>GrantModel\<close> that
  answers \<^verbatim>\<open>can(principal, verb, resource)\<close>. The lemmas relate scope containment to the
  set of names it denotes, the forward liveness pass to the inductive reading of "its
  authority chain still stands", and every decision to an operator grant at the root.
\<close>

section \<open>Vocabulary\<close>

datatype principal = PAgent string

datatype grantor = Operator | GAgent string

datatype verb = VRead | VWrite | VDelete | VList | VGrant

definition verb_ALL :: "verb list" where
  "verb_ALL = [VRead, VWrite, VDelete, VList, VGrant]"

fun verb_as_str :: "verb \<Rightarrow> string" where
  "verb_as_str VRead = ''read''"
| "verb_as_str VWrite = ''write''"
| "verb_as_str VDelete = ''delete''"
| "verb_as_str VList = ''list''"
| "verb_as_str VGrant = ''grant''"

definition verb_from_token :: "string \<Rightarrow> verb option" where
  "verb_from_token s = find (\<lambda>v. verb_as_str v = s) verb_ALL"

datatype scope = Name string | Namespace string

fun scope_kind :: "scope \<Rightarrow> string" where
  "scope_kind (Name _) = ''name''"
| "scope_kind (Namespace _) = ''namespace''"

fun scope_value :: "scope \<Rightarrow> string" where
  "scope_value (Name v) = v"
| "scope_value (Namespace v) = v"

definition from_kind_value :: "string \<Rightarrow> string \<Rightarrow> scope option" where
  "from_kind_value k v =
     (if k = ''name'' then Some (Name v)
      else if k = ''namespace'' then Some (Namespace v)
      else None)"

definition namespace_covers :: "name \<Rightarrow> name \<Rightarrow> bool" where
  "namespace_covers ns n \<longleftrightarrow>
     n = ns \<or> (length n > length ns \<and> starts_with n ns \<and> n ! length ns = CHR ''.'')"

fun covers :: "scope \<Rightarrow> name \<Rightarrow> bool" where
  "covers (Name n) r = (n = r)"
| "covers (Namespace ns) r = namespace_covers ns r"

fun covers_scope :: "scope \<Rightarrow> scope \<Rightarrow> bool" where
  "covers_scope s (Name n) = covers s n"
| "covers_scope (Name _) (Namespace _) = False"
| "covers_scope (Namespace ns) (Namespace other) = namespace_covers ns other"

fun own_namespace :: "principal \<Rightarrow> name" where
  "own_namespace (PAgent i) = ''system.agents.'' @ i"

definition owns :: "principal \<Rightarrow> name \<Rightarrow> bool" where
  "owns p r = namespace_covers (own_namespace p) r"

fun has_valid_id :: "principal \<Rightarrow> bool" where
  "has_valid_id (PAgent i) =
     (i \<noteq> [] \<and> CHR ''.'' \<notin> set i \<and> CHR ''*'' \<notin> set i \<and> CHR ''>'' \<notin> set i
      \<and> \<not> has_ws_or_control i)"

definition supports :: "verb set \<Rightarrow> scope \<Rightarrow> verb set \<Rightarrow> scope \<Rightarrow> bool" where
  "supports sup_verbs sup_scope vs sc \<longleftrightarrow>
     VGrant \<in> sup_verbs \<and> vs \<subseteq> sup_verbs \<and> covers_scope sup_scope sc"

type_synonym grant_id = nat

datatype grant_event =
    Granted grant_id grantor principal "verb set" scope
  | Revoked grant_id

fun wire_kind :: "grant_event \<Rightarrow> string" where
  "wire_kind (Granted _ Operator _ _ _) = ''granted''"
| "wire_kind (Granted _ (GAgent _) _ _ _) = ''delegated''"
| "wire_kind (Revoked _) = ''revoked''"

section \<open>The reference model\<close>

record grant_row =
  gr_grantor :: grantor
  gr_grantee :: principal
  gr_verbs :: "verb set"
  gr_scope :: scope

text \<open>The \<^verbatim>\<open>HashMap\<close> of grants is an association list with one entry per id.\<close>

record grant_model =
  gm_grants :: "(grant_id \<times> grant_row) list"
  gm_revoked :: "grant_id set"

definition gm_new :: grant_model where
  "gm_new = \<lparr>gm_grants = [], gm_revoked = {}\<rparr>"

fun gm_apply :: "grant_event \<Rightarrow> grant_model \<Rightarrow> grant_model" where
  "gm_apply (Granted i gtor gtee vs sc) m =
     (case map_of (gm_grants m) i of
        Some _ \<Rightarrow> m
      | None \<Rightarrow> m\<lparr>gm_grants := gm_grants m @
           [(i, \<lparr>gr_grantor = gtor, gr_grantee = gtee, gr_verbs = vs, gr_scope = sc\<rparr>)]\<rparr>)"
| "gm_apply (Revoked i) m = m\<lparr>gm_revoked := insert i (gm_revoked m)\<rparr>"

definition gm_replay :: "grant_event list \<Rightarrow> grant_model" where
  "gm_replay es = fold gm_apply es gm_new"

text \<open>One iteration of the forward pass: may \<open>i\<close> join the ids already found live?\<close>

definition grant_ok :: "(grant_id \<times> grant_row) list \<Rightarrow> grant_id set \<Rightarrow> grant_id \<Rightarrow> grant_row \<Rightarrow> bool" where
  "grant_ok gs live i g =
     (case gr_grantor g of
        Operator \<Rightarrow> True
      | GAgent a \<Rightarrow>
          list_ex (\<lambda>(j, sg). j < i \<and> j \<in> live \<and> gr_grantee sg = PAgent a
                     \<and> supports (gr_verbs sg) (gr_scope sg) (gr_verbs g) (gr_scope g)) gs)"

fun live_pass :: "grant_model \<Rightarrow> grant_id list \<Rightarrow> grant_id set \<Rightarrow> grant_id set" where
  "live_pass m [] live = live"
| "live_pass m (i # is) live =
     (case map_of (gm_grants m) i of
        None \<Rightarrow> live_pass m is live
      | Some g \<Rightarrow>
          if i \<in> gm_revoked m then live_pass m is live
          else if grant_ok (gm_grants m) live i g then live_pass m is (insert i live)
          else live_pass m is live)"

definition live_ids :: "grant_model \<Rightarrow> grant_id set" where
  "live_ids m = live_pass m (sort (map fst (gm_grants m))) {}"

definition gm_is_live :: "grant_model \<Rightarrow> grant_id \<Rightarrow> bool" where
  "gm_is_live m i = (i \<in> live_ids m)"

definition gm_can :: "grant_model \<Rightarrow> principal \<Rightarrow> verb \<Rightarrow> name \<Rightarrow> bool" where
  "gm_can m p v r =
     (if owns p r then True
      else (let live = live_ids m in
        list_ex (\<lambda>(i, g). i \<in> live \<and> gr_grantee g = p \<and> v \<in> gr_verbs g \<and> covers (gr_scope g) r)
          (gm_grants m)))"

section \<open>Names, namespaces and scopes\<close>

lemma verb_from_token_as_str [simp]: "verb_from_token (verb_as_str v) = Some v"
  by (cases v) (simp_all add: verb_from_token_def verb_ALL_def)

lemma from_kind_value_scope [simp]: "from_kind_value (scope_kind s) (scope_value s) = Some s"
  by (cases s) (simp_all add: from_kind_value_def)

lemma namespace_covers_iff [str]:
  "namespace_covers ns n \<longleftrightarrow> n = ns \<or> (\<exists>t. n = ns @ CHR ''.'' # t)"
proof
  assume "namespace_covers ns n"
  then consider "n = ns" | "length n > length ns" "starts_with n ns" "n ! length ns = CHR ''.''"
    by (auto simp: namespace_covers_def)
  then show "n = ns \<or> (\<exists>t. n = ns @ CHR ''.'' # t)"
  proof cases
    case 2
    then obtain t where "n = ns @ t" "t \<noteq> []" "hd t = CHR ''.''"
      by (auto simp: starts_with_iff nth_append hd_conv_nth)
    then show ?thesis by (metis list.collapse)
  qed simp
qed (auto simp: namespace_covers_def starts_with_iff)

lemma namespace_covers_refl [simp]: "namespace_covers ns ns"
  by (simp add: namespace_covers_def)

lemma namespace_covers_trans:
  "namespace_covers a b \<Longrightarrow> namespace_covers b c \<Longrightarrow> namespace_covers a c"
  by (auto simp: namespace_covers_iff)

text \<open>The dot-separated segments of a name, the specification of "segment-aware".\<close>

fun segments :: "name \<Rightarrow> name list" where
  "segments [] = [[]]"
| "segments (c # s) =
     (if c = CHR ''.'' then [] # segments s
      else case segments s of [] \<Rightarrow> [[c]] | w # ws \<Rightarrow> (c # w) # ws)"

lemma segments_nonempty [simp]: "segments s \<noteq> []"
  by (cases s) (auto split: list.splits)

lemma segments_prefix_iff:
  "prefix (segments ns) (segments n) \<longleftrightarrow> n = ns \<or> (\<exists>t. n = ns @ CHR ''.'' # t)"
proof (induction ns arbitrary: n)
  case Nil
  show ?case
    by (cases n) (auto split: list.splits simp: prefix_def)
next
  case (Cons c ns)
  obtain w ws where ns: "segments ns = w # ws" by (meson neq_Nil_conv segments_nonempty)
  show ?case
  proof (cases n)
    case Nil
    with ns show ?thesis by (auto simp: prefix_def)
  next
    case (Cons d m)
    obtain v vs where m: "segments m = v # vs" by (meson neq_Nil_conv segments_nonempty)
    have "prefix (segments (c # ns)) (segments (d # m)) \<longleftrightarrow> c = d \<and> prefix (segments ns) (segments m)"
      using ns m by (auto simp: prefix_def)
    with Cons.IH [of m] show ?thesis by (auto simp: Cons)
  qed
qed

text \<open>Every name a scope covers, the set it denotes.\<close>

lemma scope_has_two_names:
  "covers (Namespace ns) ns \<and> covers (Namespace ns) (ns @ ''.x'')"
  by (simp add: namespace_covers_iff)

lemma covers_scope_sound: "covers_scope s t \<Longrightarrow> covers t r \<Longrightarrow> covers s r"
  by (induction s t rule: covers_scope.induct) (auto intro: namespace_covers_trans)

lemma covers_scope_complete: "(\<And>r. covers t r \<Longrightarrow> covers s r) \<Longrightarrow> covers_scope s t"
proof (cases t)
  case (Namespace ns)
  assume all: "\<And>r. covers t r \<Longrightarrow> covers s r"
  show ?thesis
  proof (cases s)
    case (Name n)
    with all [of ns] all [of "ns @ ''.x''"] Namespace show ?thesis
      by (auto simp: namespace_covers_iff)
  next
    case (Namespace ms)
    with all [of ns] \<open>t = Namespace ns\<close> show ?thesis by simp
  qed
qed simp

lemma covers_scope_trans: "covers_scope s t \<Longrightarrow> covers_scope t u \<Longrightarrow> covers_scope s u"
  by (rule covers_scope_complete) (blast dest: covers_scope_sound)

lemma own_namespace_covers_inj:
  assumes "CHR ''.'' \<notin> set i" "CHR ''.'' \<notin> set j"
    and "owns (PAgent i) r" "owns (PAgent j) r"
  shows "i = j"
proof -
  let ?nodot = "takeWhile (\<lambda>c. c \<noteq> CHR ''.'')"
  have part: "?nodot (drop (length ''system.agents.'') r) = k"
    if "CHR ''.'' \<notin> set k" "owns (PAgent k) r" for k
    using that by (auto simp: owns_def namespace_covers_iff takeWhile_tail takeWhile_eq_all_conv)
  from part [OF assms(1,3)] part [OF assms(2,4)] show ?thesis by simp
qed

section \<open>Liveness is the existence of an unbroken chain\<close>

definition gm_wf :: "grant_model \<Rightarrow> bool" where
  "gm_wf m \<longleftrightarrow> distinct (map fst (gm_grants m))"

lemma gm_apply_wf: "gm_wf m \<Longrightarrow> gm_wf (gm_apply e m)"
  by (cases e) (auto simp: gm_wf_def map_of_eq_None_iff split: option.splits)

lemma gm_fold_wf: "gm_wf m \<Longrightarrow> gm_wf (fold gm_apply es m)"
  by (induction es arbitrary: m) (auto intro: gm_apply_wf)

lemma gm_replay_wf [simp]: "gm_wf (gm_replay es)"
  unfolding gm_replay_def by (rule gm_fold_wf) (simp add: gm_wf_def gm_new_def)

inductive live_grant :: "grant_model \<Rightarrow> grant_id \<Rightarrow> bool" for m where
  live_root:
    "map_of (gm_grants m) i = Some g \<Longrightarrow> i \<notin> gm_revoked m \<Longrightarrow> gr_grantor g = Operator
     \<Longrightarrow> live_grant m i"
| live_delegated:
    "map_of (gm_grants m) i = Some g \<Longrightarrow> i \<notin> gm_revoked m \<Longrightarrow> gr_grantor g = GAgent a
     \<Longrightarrow> live_grant m j \<Longrightarrow> j < i \<Longrightarrow> map_of (gm_grants m) j = Some sg
     \<Longrightarrow> gr_grantee sg = PAgent a
     \<Longrightarrow> supports (gr_verbs sg) (gr_scope sg) (gr_verbs g) (gr_scope g)
     \<Longrightarrow> live_grant m i"

lemma live_grant_known: "live_grant m i \<Longrightarrow> i \<in> fst ` set (gm_grants m) \<and> i \<notin> gm_revoked m"
  by (induction rule: live_grant.induct) (auto dest: map_of_SomeD simp: image_iff intro: rev_bexI)

lemma grant_ok_iff:
  assumes "gm_wf m"
  shows "grant_ok (gm_grants m) live i g \<longleftrightarrow>
    gr_grantor g = Operator \<or>
    (\<exists>a j sg. gr_grantor g = GAgent a \<and> j < i \<and> j \<in> live \<and> map_of (gm_grants m) j = Some sg
       \<and> gr_grantee sg = PAgent a
       \<and> supports (gr_verbs sg) (gr_scope sg) (gr_verbs g) (gr_scope g))"
  using assms
  by (cases "gr_grantor g") (auto simp: grant_ok_def gm_wf_def list_ex_iff)

lemma grant_ok_cong:
  "(\<And>j. j < i \<Longrightarrow> j \<in> A \<longleftrightarrow> j \<in> B) \<Longrightarrow> grant_ok gs A i g = grant_ok gs B i g"
  by (cases "gr_grantor g") (auto simp: grant_ok_def list_ex_iff)

lemma live_grant_unfold:
  assumes "gm_wf m" "map_of (gm_grants m) i = Some g"
  shows "live_grant m i \<longleftrightarrow>
    i \<notin> gm_revoked m \<and> grant_ok (gm_grants m) {j. live_grant m j} i g"
proof
  assume "live_grant m i"
  then show "i \<notin> gm_revoked m \<and> grant_ok (gm_grants m) {j. live_grant m j} i g"
    by (cases rule: live_grant.cases) (use assms in \<open>auto simp: grant_ok_iff\<close>)
next
  assume "i \<notin> gm_revoked m \<and> grant_ok (gm_grants m) {j. live_grant m j} i g"
  then show "live_grant m i"
    using assms(2) unfolding grant_ok_iff [OF assms(1)]
    by (auto intro: live_root live_delegated)
qed

lemma live_pass_exact:
  assumes "gm_wf m" "sorted_wrt (<) is" "set is \<subseteq> fst ` set (gm_grants m)"
    and "\<And>j. j \<in> live \<Longrightarrow> live_grant m j"
    and "\<And>j. live_grant m j \<Longrightarrow> j \<notin> set is \<Longrightarrow> j \<in> live"
  shows "live_pass m is live = {j. live_grant m j}"
  using assms(2-)
proof (induction "is" arbitrary: live)
  case Nil
  then show ?case by auto
next
  case (Cons i "is")
  from Cons.prems(2) obtain g where g: "map_of (gm_grants m) i = Some g"
    by (force simp: map_of_eq_None_iff)
  have "grant_ok (gm_grants m) live i g = grant_ok (gm_grants m) {j. live_grant m j} i g"
  proof (rule grant_ok_cong)
    fix j assume "j < i"
    with Cons.prems(1) have "j \<notin> set (i # is)" by auto
    with Cons.prems(3,4) show "j \<in> live \<longleftrightarrow> j \<in> {j. live_grant m j}" by auto
  qed
  with live_grant_unfold [OF assms(1) g]
  have ok: "live_grant m i \<longleftrightarrow> i \<notin> gm_revoked m \<and> grant_ok (gm_grants m) live i g" by simp
  from Cons.prems(1) have s: "sorted_wrt (<) is" and i: "i \<notin> set is" by auto
  from Cons.prems(2) have k: "set is \<subseteq> fst ` set (gm_grants m)" by simp
  show ?case
  proof (cases "live_grant m i")
    case True
    with Cons.prems(3,4) have "live_pass m is (insert i live) = {j. live_grant m j}"
      by (intro Cons.IH [OF s k]) auto
    with True ok g show ?thesis by simp
  next
    case False
    with Cons.prems(3,4) have "live_pass m is live = {j. live_grant m j}"
      by (intro Cons.IH [OF s k]) auto
    with False ok g show ?thesis by auto
  qed
qed

lemma live_ids_eq: "gm_wf m \<Longrightarrow> live_ids m = {i. live_grant m i}"
  unfolding live_ids_def
  by (rule live_pass_exact)
     (auto simp: gm_wf_def strict_sorted_iff dest: live_grant_known)

lemma gm_can_iff:
  assumes "gm_wf m"
  shows "gm_can m p v r \<longleftrightarrow> owns p r \<or>
    (\<exists>i g. live_grant m i \<and> map_of (gm_grants m) i = Some g \<and> gr_grantee g = p
       \<and> v \<in> gr_verbs g \<and> covers (gr_scope g) r)"
  using assms by (auto simp: gm_can_def live_ids_eq list_ex_iff gm_wf_def)

text \<open>
  An authority chain: the grant, then the grant that supported issuing it, and so on down
  to an operator grant; nothing on it is revoked and ids strictly decrease.
\<close>

fun chain_ok :: "grant_model \<Rightarrow> grant_id list \<Rightarrow> bool" where
  "chain_ok m [] = False"
| "chain_ok m [i] =
     (case map_of (gm_grants m) i of
        None \<Rightarrow> False
      | Some g \<Rightarrow> i \<notin> gm_revoked m \<and> gr_grantor g = Operator)"
| "chain_ok m (i # j # is) =
     (case (map_of (gm_grants m) i, map_of (gm_grants m) j) of
        (Some g, Some sg) \<Rightarrow>
          i \<notin> gm_revoked m \<and> j < i \<and> (\<exists>a. gr_grantor g = GAgent a \<and> gr_grantee sg = PAgent a)
          \<and> supports (gr_verbs sg) (gr_scope sg) (gr_verbs g) (gr_scope g)
          \<and> chain_ok m (j # is)
      | _ \<Rightarrow> False)"

lemma chain_live: "chain_ok m (i # is) \<Longrightarrow> live_grant m i"
proof (induction "is" arbitrary: i)
  case Nil
  then show ?case by (auto split: option.splits intro: live_root)
next
  case (Cons j "is")
  from Cons.prems obtain g sg a where
    "map_of (gm_grants m) i = Some g" "map_of (gm_grants m) j = Some sg" "i \<notin> gm_revoked m"
    "j < i" "gr_grantor g = GAgent a" "gr_grantee sg = PAgent a"
    "supports (gr_verbs sg) (gr_scope sg) (gr_verbs g) (gr_scope g)" "chain_ok m (j # is)"
    by (auto split: option.splits)
  with Cons.IH [of j] show ?case by (blast intro: live_delegated)
qed

lemma live_chain: "live_grant m i \<Longrightarrow> \<exists>is. chain_ok m (i # is)"
proof (induction rule: live_grant.induct)
  case (live_root i g)
  then have "chain_ok m [i]" by simp
  then show ?case by blast
next
  case (live_delegated i g a j sg)
  then obtain js where "chain_ok m (j # js)" by blast
  with live_delegated have "chain_ok m (i # j # js)" by simp
  then show ?case by blast
qed

lemma live_grant_rooted:
  assumes "live_grant m i" "map_of (gm_grants m) i = Some g"
  shows "\<exists>k root. map_of (gm_grants m) k = Some root \<and> k \<notin> gm_revoked m \<and> k \<le> i
    \<and> gr_grantor root = Operator \<and> gr_verbs g \<subseteq> gr_verbs root
    \<and> covers_scope (gr_scope root) (gr_scope g)"
  using assms
proof (induction arbitrary: g rule: live_grant.induct)
  case (live_root i g')
  then show ?case
    by (intro exI [of _ i] exI [of _ g]) (auto intro: covers_scope_complete)
next
  case (live_delegated i g' a j sg)
  then obtain k root where "map_of (gm_grants m) k = Some root" "k \<notin> gm_revoked m" "k \<le> j"
    "gr_grantor root = Operator" "gr_verbs sg \<subseteq> gr_verbs root"
    "covers_scope (gr_scope root) (gr_scope sg)"
    by blast
  with live_delegated show ?case
    by (intro exI [of _ k] exI [of _ root]) (auto simp: supports_def intro: covers_scope_trans)
qed

section \<open>Replay\<close>

lemma replay_grants:
  "map_of (gm_grants (fold gm_apply es m)) i = Some g \<Longrightarrow>
   map_of (gm_grants m) i = Some g \<or>
   Granted i (gr_grantor g) (gr_grantee g) (gr_verbs g) (gr_scope g) \<in> set es"
proof (induction es arbitrary: m)
  case (Cons e es)
  then have "map_of (gm_grants (gm_apply e m)) i = Some g \<or>
    Granted i (gr_grantor g) (gr_grantee g) (gr_verbs g) (gr_scope g) \<in> set es" by simp
  then show ?case
    by (cases e) (auto split: option.splits if_splits simp: map_add_def)
qed simp

lemma replay_revoked:
  "gm_revoked (fold gm_apply es m) = gm_revoked m \<union> {i. Revoked i \<in> set es}"
proof (induction es arbitrary: m)
  case (Cons e es)
  show ?case
  proof (cases e)
    case (Granted i gtor gtee vs sc)
    have "gm_revoked (gm_apply e m) = gm_revoked m"
      by (simp add: Granted split: option.splits)
    with Cons.IH show ?thesis by (auto simp: Granted)
  next
    case (Revoked j)
    then show ?thesis by (auto simp: Cons.IH)
  qed
qed simp

text \<open>A revocation commutes with every other event, so the position of one never matters.\<close>

lemma gm_apply_revoked_commute:
  "gm_apply e (gm_apply (Revoked i) m) = gm_apply (Revoked i) (gm_apply e m)"
  by (cases e) (auto split: option.splits simp: insert_commute)

lemma gm_fold_revoked_commute:
  "fold gm_apply es (gm_apply (Revoked i) m) = gm_apply (Revoked i) (fold gm_apply es m)"
  by (induction es arbitrary: m) (simp_all add: gm_apply_revoked_commute del: gm_apply.simps)

lemma live_grant_revoke:
  "live_grant (m\<lparr>gm_revoked := insert i (gm_revoked m)\<rparr>) j \<Longrightarrow> live_grant m j"
  by (induction rule: live_grant.induct) (auto intro: live_grant.intros)

text \<open>A delegation nothing live supports changes no decision.\<close>

lemma live_grant_unsupported:
  assumes "gm_wf m" "i \<notin> fst ` set (gm_grants m)" "\<not> grant_ok (gm_grants m) (live_ids m) i g"
  shows "live_grant (m\<lparr>gm_grants := gm_grants m @ [(i, g)]\<rparr>) = live_grant m"
proof (intro ext iffI)
  let ?m = "m\<lparr>gm_grants := gm_grants m @ [(i, g)]\<rparr>"
  from assms(2) have none: "map_of (gm_grants m) i = None" by (simp add: map_of_eq_None_iff)
  then have old: "map_of (gm_grants ?m) j = Some h \<longleftrightarrow>
      map_of (gm_grants m) j = Some h \<or> (j = i \<and> h = g)" for j h
    by (auto simp: map_add_def split: option.splits)
  have keep: "map_of (gm_grants ?m) j = Some h" if "map_of (gm_grants m) j = Some h" for j h
    using that old by blast
  have bad: "gr_grantor g \<noteq> Operator"
    "\<And>a j sg. gr_grantor g = GAgent a \<Longrightarrow> j < i \<Longrightarrow> live_grant m j \<Longrightarrow>
       map_of (gm_grants m) j = Some sg \<Longrightarrow> gr_grantee sg = PAgent a \<Longrightarrow>
       \<not> supports (gr_verbs sg) (gr_scope sg) (gr_verbs g) (gr_scope g)"
    using assms(3) by (auto simp: grant_ok_iff [OF assms(1)] live_ids_eq [OF assms(1)])
  fix j
  show "live_grant m j" if "live_grant ?m j"
    using that
  proof (induction rule: live_grant.induct)
    case (live_root j h)
    from live_root(1) [unfolded old] live_root(2,3) bad(1) show ?case
      by (auto intro: live_grant.live_root)
  next
    case (live_delegated j h a k sg)
    from live_grant_known [OF live_delegated.IH] assms(2) have "k \<noteq> i" by auto
    with live_delegated(1,6) [unfolded old] live_delegated bad(2) [of a k sg] show ?case
      by (auto intro: live_grant.live_delegated)
  qed
  show "live_grant ?m j" if "live_grant m j"
    using that
  proof (induction rule: live_grant.induct)
    case (live_root j h)
    show ?case by (rule live_grant.live_root [OF keep [OF live_root(1)]]) (use live_root in simp_all)
  next
    case (live_delegated j h a k sg)
    show ?case
      by (rule live_grant.live_delegated [OF keep [OF live_delegated(1)] _ _ _ _
            keep [OF live_delegated(6)]]) (use live_delegated in simp_all)
  qed
qed

section \<open>Properties\<close>

text \<open>C8. Over any replayed log, a grant is live exactly when an unbroken authority chain
  starts at it: strictly earlier, unrevoked grants, each supporting the next, down to a grant
  the operator issued. The single forward pass of \<^verbatim>\<open>live_ids\<close> therefore computes the chain
  rule without walking chains.\<close>

theorem live_iff_chain:
  "gm_is_live (gm_replay es) i \<longleftrightarrow> (\<exists>is. chain_ok (gm_replay es) (i # is))"
  by (auto simp: gm_is_live_def live_ids_eq dest: live_chain chain_live)

text \<open>C11. Default-deny: whatever a replayed log allows outside the principal's own scope
  is covered by an unrevoked grant the operator issued, conferring that very verb over a
  scope that contains the resource.\<close>

theorem can_rooted_in_operator_grant:
  assumes "gm_can (gm_replay es) p v r" "\<not> owns p r"
  shows "\<exists>k q vs sc. Granted k Operator q vs sc \<in> set es \<and> Revoked k \<notin> set es
    \<and> v \<in> vs \<and> covers sc r"
proof -
  from assms obtain i g where live: "live_grant (gm_replay es) i"
    and g: "map_of (gm_grants (gm_replay es)) i = Some g"
    and v: "v \<in> gr_verbs g" and c: "covers (gr_scope g) r"
    by (auto simp: gm_can_iff)
  from live_grant_rooted [OF live g] obtain k root where
    root: "map_of (gm_grants (gm_replay es)) k = Some root" "k \<notin> gm_revoked (gm_replay es)"
      "gr_grantor root = Operator" "gr_verbs g \<subseteq> gr_verbs root"
      "covers_scope (gr_scope root) (gr_scope g)"
    by blast
  from root(1,3) have "Granted k Operator (gr_grantee root) (gr_verbs root) (gr_scope root) \<in> set es"
    unfolding gm_replay_def by (auto dest!: replay_grants simp: gm_new_def)
  moreover from root(2) have "Revoked k \<notin> set es"
    by (simp add: gm_replay_def replay_revoked)
  moreover from v root(4) have "v \<in> gr_verbs root" by blast
  moreover from root(5) c have "covers (gr_scope root) r" by (rule covers_scope_sound)
  ultimately show ?thesis by blast
qed

theorem can_rooted_in_operator_grant_witness:
  "\<exists>k q vs sc.
     Granted k Operator q vs sc \<in>
       set [Granted 1 Operator (PAgent ''a'') {VRead, VGrant} (Namespace ''docs''),
            Granted 2 (GAgent ''a'') (PAgent ''b'') {VRead} (Name ''docs.x'')]
     \<and> Revoked k \<notin>
       set [Granted 1 Operator (PAgent ''a'') {VRead, VGrant} (Namespace ''docs''),
            Granted 2 (GAgent ''a'') (PAgent ''b'') {VRead} (Name ''docs.x'')]
     \<and> VRead \<in> vs \<and> covers sc ''docs.x''"
  by (rule can_rooted_in_operator_grant [where p = "PAgent ''b''"])
     (simp_all add: gm_replay_def gm_new_def gm_can_def live_ids_def grant_ok_def supports_def
        owns_def namespace_covers_def starts_with_def)

text \<open>C12. Revocation wins, wherever it stands in the log: the revoked grant is dead and no
  decision the log allows with the revocation is denied without it, so a revocation only
  ever removes authority.\<close>

theorem revocation_wins:
  "\<not> gm_is_live (gm_replay (es @ Revoked i # fs)) i
   \<and> (gm_can (gm_replay (es @ Revoked i # fs)) p v r \<longrightarrow> gm_can (gm_replay (es @ fs)) p v r)"
proof -
  have split: "gm_replay (es @ Revoked i # fs) = gm_apply (Revoked i) (gm_replay (es @ fs))"
    by (simp add: gm_replay_def gm_fold_revoked_commute del: gm_apply.simps)
  let ?m = "gm_replay (es @ fs)"
  have wf: "gm_wf (gm_apply (Revoked i) ?m)" by (rule gm_apply_wf) simp
  then have dead: "\<not> gm_is_live (gm_apply (Revoked i) ?m) i"
    by (auto simp: gm_is_live_def live_ids_eq dest!: live_grant_known)
  have "gm_can ?m p v r" if "gm_can (gm_apply (Revoked i) ?m) p v r"
    using that unfolding gm_can_iff [OF wf] gm_can_iff [OF gm_replay_wf]
    by (auto dest: live_grant_revoke)
  with dead split show ?thesis by (simp del: gm_apply.simps)
qed

theorem revocation_wins_witness:
  "\<not> gm_is_live (gm_replay ([Granted 1 Operator (PAgent ''a'') {VRead} (Name ''n''),
        Granted 2 Operator (PAgent ''a'') {VRead} (Name ''n'')] @ Revoked 1 # [])) 1
   \<and> gm_can (gm_replay ([Granted 1 Operator (PAgent ''a'') {VRead} (Name ''n''),
        Granted 2 Operator (PAgent ''a'') {VRead} (Name ''n'')] @ [])) (PAgent ''a'') VRead ''n''"
proof -
  let ?es = "[Granted 1 Operator (PAgent ''a'') {VRead} (Name ''n''),
        Granted 2 Operator (PAgent ''a'') {VRead} (Name ''n'')]"
  have "gm_can (gm_replay (?es @ Revoked 1 # [])) (PAgent ''a'') VRead ''n''"
    by (simp add: gm_replay_def gm_new_def gm_can_def live_ids_def grant_ok_def)
  with revocation_wins [of ?es 1 "[]" "PAgent ''a''" VRead "''n''"] show ?thesis by blast
qed

text \<open>C13. A delegation by an agent that holds no live supporting grant is inert: applying
  it changes no authorization decision of the model, for anyone.\<close>

theorem unsupported_delegation_inert:
  assumes "gm_wf m" "i \<notin> fst ` set (gm_grants m)"
    and "\<not> grant_ok (gm_grants m) (live_ids m) i
            \<lparr>gr_grantor = GAgent a, gr_grantee = q, gr_verbs = vs, gr_scope = sc\<rparr>"
  shows "gm_can (gm_apply (Granted i (GAgent a) q vs sc) m) p v r = gm_can m p v r"
proof -
  let ?g = "\<lparr>gr_grantor = GAgent a, gr_grantee = q, gr_verbs = vs, gr_scope = sc\<rparr>"
  let ?m = "m\<lparr>gm_grants := gm_grants m @ [(i, ?g)]\<rparr>"
  from assms(2) have app: "gm_apply (Granted i (GAgent a) q vs sc) m = ?m"
    by (simp add: map_of_eq_None_iff [THEN iffD2])
  from gm_apply_wf [OF assms(1)] have wf: "gm_wf ?m" unfolding app [symmetric] .
  have live: "live_grant ?m = live_grant m" by (rule live_grant_unsupported [OF assms])
  have "map_of (gm_grants ?m) j = map_of (gm_grants m) j" if "live_grant m j" for j
    using live_grant_known [OF that] assms(2) by (auto simp: map_add_def split: option.splits)
  then show ?thesis
    unfolding app gm_can_iff [OF wf] gm_can_iff [OF assms(1)] live by metis
qed

theorem unsupported_delegation_inert_witness:
  "gm_can (gm_apply (Granted 1 (GAgent ''a'') (PAgent ''b'') {VRead} (Name ''n'')) gm_new)
     (PAgent ''b'') VRead ''n''
   = gm_can gm_new (PAgent ''b'') VRead ''n''"
  by (rule unsupported_delegation_inert)
     (simp_all add: gm_wf_def gm_new_def grant_ok_def)

text \<open>C14. Scope containment is exact: \<^verbatim>\<open>covers_scope\<close> accepts a delegated scope precisely
  when every name it covers is covered by the delegator's scope.\<close>

theorem covers_scope_exact: "covers_scope s t \<longleftrightarrow> (\<forall>r. covers t r \<longrightarrow> covers s r)"
  by (auto intro: covers_scope_complete dest: covers_scope_sound)

theorem covers_scope_exact_witness:
  "covers_scope (Namespace ''docs'') (Namespace ''docs.a'')
   \<and> covers (Namespace ''docs.a'') ''docs.a.x'' \<and> covers (Namespace ''docs'') ''docs.a.x''"
proof -
  have c: "covers_scope (Namespace ''docs'') (Namespace ''docs.a'')"
    by (simp add: namespace_covers_def starts_with_def)
  have x: "covers (Namespace ''docs.a'') ''docs.a.x''"
    by (simp add: namespace_covers_def starts_with_def)
  from c x covers_scope_exact [of "Namespace ''docs''" "Namespace ''docs.a''"] show ?thesis by blast
qed

text \<open>C15. Namespace matching is segment-aware: a namespace covers a name exactly when the
  dot-separated segments of the namespace are a prefix of those of the name.\<close>

theorem namespace_covers_segments: "namespace_covers ns n \<longleftrightarrow> prefix (segments ns) (segments n)"
  by (simp add: namespace_covers_iff segments_prefix_iff)

text \<open>C16. Own scopes do not overlap: two principals with ids the gate accepts own a common
  resource only if they are the same principal. (The dot-free rule is what this needs.)\<close>

theorem own_scopes_disjoint:
  assumes "has_valid_id p" "has_valid_id q" "owns p r" "owns q r"
  shows "p = q"
proof (cases p; cases q)
  fix i j assume "p = PAgent i" "q = PAgent j"
  with assms own_namespace_covers_inj [of i j r] show ?thesis by auto
qed

theorem own_scopes_disjoint_witness:
  "has_valid_id (PAgent ''al'') \<and> owns (PAgent ''al'') ''system.agents.al.x''
   \<and> PAgent ''al'' = PAgent ''al''"
proof -
  have v: "has_valid_id (PAgent ''al'')"
    by (simp add: has_ws_or_control_def)
  have o: "owns (PAgent ''al'') ''system.agents.al.x''"
    by (simp add: owns_def namespace_covers_def starts_with_def)
  from v o own_scopes_disjoint [OF v v o o] show ?thesis by blast
qed

end
