(* ===== verification/Store_Types.thy ===== *)
theory Store_Types
  imports Prelude
begin

text \<open>
  The types every module of the content store shares: content ids
  (\<^verbatim>\<open>services/fq-store/src/cid.rs\<close>), store errors (\<^verbatim>\<open>error.rs\<close>) and chunks (\<^verbatim>\<open>lib.rs\<close>).
  The BLAKE3 hash that computes a \<^verbatim>\<open>Cid\<close> from bytes is a parameter (\<open>cid_of\<close>) wherever it
  is used. The free text of error messages is not modelled: an error keeps its variant and
  the typed value that identifies what it is about.
\<close>

type_synonym byte = "8 word"
type_synonym bytes = "byte list"

datatype cid = Cid bytes

fun as_bytes :: "cid \<Rightarrow> bytes" where
  "as_bytes (Cid b) = b"

text \<open>Content ids are ordered by their bytes (\<^verbatim>\<open>sort_by_key(|c| *c.as_bytes())\<close>).\<close>

instantiation cid :: linorder
begin

definition less_eq_cid :: "cid \<Rightarrow> cid \<Rightarrow> bool" where
  "less_eq_cid a b \<longleftrightarrow> as_bytes a \<le> as_bytes b"

definition less_cid :: "cid \<Rightarrow> cid \<Rightarrow> bool" where
  "less_cid a b \<longleftrightarrow> as_bytes a < as_bytes b"

instance
proof
  fix a b c :: cid
  show "a < b \<longleftrightarrow> a \<le> b \<and> \<not> b \<le> a"
    by (auto simp: less_eq_cid_def less_cid_def)
  show "a \<le> a" by (simp add: less_eq_cid_def)
  show "a \<le> b \<Longrightarrow> b \<le> c \<Longrightarrow> a \<le> c"
    unfolding less_eq_cid_def by (rule order_trans)
  show "a \<le> b \<Longrightarrow> b \<le> a \<Longrightarrow> a = b"
    by (cases a; cases b) (auto simp: less_eq_cid_def)
  show "a \<le> b \<or> b \<le> a"
    by (simp add: less_eq_cid_def linear)
qed

end

datatype store_error =
    NotFound cid
  | Io
  | Corrupt
  | Index
  | Conflict
  | Unsupported
  | Remote
  | Bus
  | Token
  | Denied
  | NameNotFound name

type_synonym 'a result = "store_error + 'a"

text \<open>A content-defined block of an object: its id and the byte span it occupies.\<close>

record chunk =
  ck_hash :: cid
  ck_offset :: nat
  ck_len :: nat

end
