(* ===== verification/Grant_Log.thy ===== *)
theory Grant_Log
  imports Grants Store_Types
begin

text \<open>
  The durable grant-event log and its projection,
  \<^verbatim>\<open>services/fq-store/src/grant_log.rs\<close>. The database is a record of its tables
  (\<^verbatim>\<open>grant_events\<close>, \<^verbatim>\<open>projected_grants\<close>, \<^verbatim>\<open>projected_revocations\<close>,
  \<^verbatim>\<open>projection_cursor\<close>); every method of \<^verbatim>\<open>SqliteGrantLog\<close> is one transaction on it.
  The JSON text of a verb set is produced and parsed by serde, a parameter of the model.
  The lemmas show that the projection equals a replay of the log at every commit point.
\<close>

section \<open>Tables\<close>

record verbs_codec =
  vc_enc :: "verb set \<Rightarrow> string"
  vc_dec :: "string \<Rightarrow> verb set option"

text \<open>What the log relies on serde for: decoding an encoded verb set gives it back.\<close>

definition codec_ok :: "verbs_codec \<Rightarrow> bool" where
  "codec_ok c \<longleftrightarrow> (\<forall>vs. vc_dec c (vc_enc c vs) = Some vs)"

record event_row =
  er_seq :: nat
  er_kind :: string
  er_target_id :: "nat option"
  er_grantor_agent :: "string option"
  er_grantee_agent :: "string option"
  er_verbs :: "string option"
  er_scope_kind :: "string option"
  er_scope_value :: "string option"
  er_occurred_at :: int
  er_published :: bool

record projected_row =
  pr_id :: nat
  pr_grantor_agent :: "string option"
  pr_grantee_agent :: string
  pr_verbs :: string
  pr_scope_kind :: string
  pr_scope_value :: string
  pr_live :: bool

text \<open>\<open>gl_next_seq\<close> is SQLite's \<^verbatim>\<open>AUTOINCREMENT\<close> counter: monotone, never reused.\<close>

record grant_log =
  gl_events :: "event_row list"
  gl_next_seq :: nat
  gl_projected :: "projected_row list"
  gl_revocations :: "nat list"
  gl_cursor :: nat

definition gl_empty :: grant_log where
  "gl_empty = \<lparr>gl_events = [], gl_next_seq = 1, gl_projected = [], gl_revocations = [], gl_cursor = 0\<rparr>"

section \<open>Decoding rows\<close>

definition encode_verbs :: "verbs_codec \<Rightarrow> verb set \<Rightarrow> string" where
  "encode_verbs c vs = vc_enc c vs"

definition decode_verbs :: "verbs_codec \<Rightarrow> string \<Rightarrow> verb set result" where
  "decode_verbs c json = (case vc_dec c json of None \<Rightarrow> Inl Corrupt | Some vs \<Rightarrow> Inr vs)"

definition decode_scope :: "string \<Rightarrow> string \<Rightarrow> scope result" where
  "decode_scope k v = (case from_kind_value k v of None \<Rightarrow> Inl Corrupt | Some s \<Rightarrow> Inr s)"

definition ok_or :: "'a option \<Rightarrow> store_error \<Rightarrow> 'a result" where
  "ok_or x e = (case x of None \<Rightarrow> Inl e | Some v \<Rightarrow> Inr v)"

definition into_event :: "verbs_codec \<Rightarrow> event_row \<Rightarrow> grant_event result" where
  "into_event c r =
     (if er_kind r = ''granted'' then
        bindR (ok_or (er_grantee_agent r) Corrupt) (\<lambda>gtee.
        bindR (bindR (ok_or (er_verbs r) Corrupt) (decode_verbs c)) (\<lambda>vs.
        bindR (ok_or (er_scope_value r) Corrupt) (\<lambda>val.
        bindR (decode_scope (case er_scope_kind r of None \<Rightarrow> '''' | Some k \<Rightarrow> k) val) (\<lambda>sc.
        Inr (Granted (er_seq r)
               (case er_grantor_agent r of Some a \<Rightarrow> GAgent a | None \<Rightarrow> Operator)
               (PAgent gtee) vs sc)))))
      else if er_kind r = ''revoked'' then
        bindR (ok_or (er_target_id r) Corrupt) (\<lambda>t. Inr (Revoked t))
      else Inl Corrupt)"

section \<open>The projection\<close>

record decoded =
  d_id :: nat
  d_grantor_agent :: "string option"
  d_grantee_agent :: string
  d_verbs :: "verb set"
  d_scope :: scope
  d_was_live :: bool
  d_live :: bool

definition decode_row :: "verbs_codec \<Rightarrow> projected_row \<Rightarrow> decoded result" where
  "decode_row c r =
     bindR (decode_verbs c (pr_verbs r)) (\<lambda>vs.
     bindR (decode_scope (pr_scope_kind r) (pr_scope_value r)) (\<lambda>sc.
     Inr \<lparr>d_id = pr_id r, d_grantor_agent = pr_grantor_agent r, d_grantee_agent = pr_grantee_agent r,
          d_verbs = vs, d_scope = sc, d_was_live = pr_live r, d_live = False\<rparr>))"

definition row_live :: "nat set \<Rightarrow> decoded list \<Rightarrow> decoded \<Rightarrow> bool" where
  "row_live revoked earlier g \<longleftrightarrow>
     d_id g \<notin> revoked \<and>
     (case d_grantor_agent g of
        None \<Rightarrow> True
      | Some delegator \<Rightarrow>
          list_ex (\<lambda>s. d_live s \<and> d_grantee_agent s = delegator
                     \<and> supports (d_verbs s) (d_scope s) (d_verbs g) (d_scope g)) earlier)"

fun liveness_loop :: "nat set \<Rightarrow> decoded list \<Rightarrow> decoded list \<Rightarrow> decoded list" where
  "liveness_loop revoked earlier [] = earlier"
| "liveness_loop revoked earlier (g # gs) =
     liveness_loop revoked (earlier @ [g\<lparr>d_live := row_live revoked earlier g\<rparr>]) gs"

fun write_live :: "decoded list \<Rightarrow> projected_row list \<Rightarrow> projected_row list" where
  "write_live [] t = t"
| "write_live (g # gs) t =
     write_live gs
       (if d_live g \<noteq> d_was_live g
        then upd_where (\<lambda>r. pr_id r = d_id g) (\<lambda>r. r\<lparr>pr_live := d_live g\<rparr>) t
        else t)"

definition recompute_liveness :: "verbs_codec \<Rightarrow> grant_log \<Rightarrow> grant_log result" where
  "recompute_liveness c db =
     bindR (traverse (decode_row c) (sort_key pr_id (gl_projected db))) (\<lambda>grants.
     Inr (db\<lparr>gl_projected :=
       write_live (liveness_loop (set (gl_revocations db)) [] grants) (gl_projected db)\<rparr>))"

definition set_cursor :: "nat \<Rightarrow> grant_log \<Rightarrow> grant_log" where
  "set_cursor seq db = (if gl_cursor db < seq then db\<lparr>gl_cursor := seq\<rparr> else db)"

text \<open>\<^verbatim>\<open>INSERT OR IGNORE\<close> on the two projection tables, whose key is the grant id.\<close>

definition insert_projected :: "projected_row \<Rightarrow> projected_row list \<Rightarrow> projected_row list" where
  "insert_projected r t = (if pr_id r \<in> pr_id ` set t then t else t @ [r])"

definition insert_revocation :: "nat \<Rightarrow> nat list \<Rightarrow> nat list" where
  "insert_revocation i t = (if i \<in> set t then t else t @ [i])"

section \<open>Appends\<close>

definition append_granted ::
  "verbs_codec \<Rightarrow> int \<Rightarrow> grantor \<Rightarrow> principal \<Rightarrow> verb set \<Rightarrow> scope \<Rightarrow> grant_log \<Rightarrow> (grant_id \<times> grant_log) result"
where
  "append_granted c now gtor gtee vs sc db =
     (let grantor_agent = (case gtor of Operator \<Rightarrow> None | GAgent i \<Rightarrow> Some i);
          grantee_agent = (case gtee of PAgent i \<Rightarrow> i);
          verbs_json = encode_verbs c vs;
          seq = gl_next_seq db;
          ev = \<lparr>er_seq = seq, er_kind = ''granted'', er_target_id = None,
                er_grantor_agent = grantor_agent, er_grantee_agent = Some grantee_agent,
                er_verbs = Some verbs_json, er_scope_kind = Some (scope_kind sc),
                er_scope_value = Some (scope_value sc), er_occurred_at = now, er_published = False\<rparr>;
          row = \<lparr>pr_id = seq, pr_grantor_agent = grantor_agent, pr_grantee_agent = grantee_agent,
                pr_verbs = verbs_json, pr_scope_kind = scope_kind sc, pr_scope_value = scope_value sc,
                pr_live = False\<rparr>
      in bindR (recompute_liveness c
                  (db\<lparr>gl_events := gl_events db @ [ev], gl_next_seq := Suc seq,
                      gl_projected := insert_projected row (gl_projected db)\<rparr>))
           (\<lambda>db'. Inr (seq, set_cursor seq db')))"

definition append_revoked :: "verbs_codec \<Rightarrow> int \<Rightarrow> grant_id \<Rightarrow> grant_log \<Rightarrow> grant_log result" where
  "append_revoked c now target db =
     (let seq = gl_next_seq db;
          ev = \<lparr>er_seq = seq, er_kind = ''revoked'', er_target_id = Some target,
                er_grantor_agent = None, er_grantee_agent = None, er_verbs = None,
                er_scope_kind = None, er_scope_value = None, er_occurred_at = now, er_published = False\<rparr>
      in bindR (recompute_liveness c
                  (db\<lparr>gl_events := gl_events db @ [ev], gl_next_seq := Suc seq,
                      gl_revocations := insert_revocation target (gl_revocations db)\<rparr>))
           (\<lambda>db'. Inr (set_cursor seq db')))"

section \<open>Queries\<close>

definition log_replay :: "verbs_codec \<Rightarrow> grant_log \<Rightarrow> grant_event list result" where
  "log_replay c db = traverse (into_event c) (sort_key er_seq (gl_events db))"

record live_grant_row =
  lg_id :: grant_id
  lg_verbs :: "verb set"
  lg_scope :: scope

definition live_grants_for :: "verbs_codec \<Rightarrow> grant_log \<Rightarrow> principal \<Rightarrow> live_grant_row list result" where
  "live_grants_for c db p =
     (case p of PAgent agent \<Rightarrow>
        traverse (\<lambda>r. bindR (decode_verbs c (pr_verbs r)) (\<lambda>vs.
                      bindR (decode_scope (pr_scope_kind r) (pr_scope_value r)) (\<lambda>sc.
                      Inr \<lparr>lg_id = pr_id r, lg_verbs = vs, lg_scope = sc\<rparr>)))
          (sort_key pr_id (filter (\<lambda>r. pr_grantee_agent r = agent \<and> pr_live r) (gl_projected db))))"

definition log_can :: "verbs_codec \<Rightarrow> grant_log \<Rightarrow> principal \<Rightarrow> verb \<Rightarrow> name \<Rightarrow> bool result" where
  "log_can c db p v r =
     (if owns p r then Inr True
      else bindR (live_grants_for c db p) (\<lambda>gs.
        Inr (list_ex (\<lambda>g. v \<in> lg_verbs g \<and> covers (lg_scope g) r) gs)))"

section \<open>Rebuild and catch-up\<close>

definition apply_events_after :: "verbs_codec \<Rightarrow> nat \<Rightarrow> grant_log \<Rightarrow> grant_log result" where
  "apply_events_after c after db =
     (if gl_events db = [] then Inr db
      else (let max_seq = Max (er_seq ` set (gl_events db)) in
        if max_seq \<le> after then Inr db
        else
          (let fresh = filter (\<lambda>r. er_seq r > after) (gl_events db);
               new_rows = map (\<lambda>r. \<lparr>pr_id = er_seq r, pr_grantor_agent = er_grantor_agent r,
                              pr_grantee_agent = the (er_grantee_agent r), pr_verbs = the (er_verbs r),
                              pr_scope_kind = the (er_scope_kind r), pr_scope_value = the (er_scope_value r),
                              pr_live = False\<rparr>)
                            (filter (\<lambda>r. er_kind r = ''granted'' \<and> er_grantee_agent r \<noteq> None
                               \<and> er_verbs r \<noteq> None \<and> er_scope_kind r \<noteq> None \<and> er_scope_value r \<noteq> None) fresh);
               targets = List.map_filter er_target_id (filter (\<lambda>r. er_kind r = ''revoked'') fresh)
           in bindR (recompute_liveness c
                (db\<lparr>gl_projected := fold insert_projected new_rows (gl_projected db),
                    gl_revocations := fold insert_revocation targets (gl_revocations db)\<rparr>))
              (\<lambda>db'. Inr (set_cursor max_seq db')))))"

definition rebuild_projection :: "verbs_codec \<Rightarrow> grant_log \<Rightarrow> grant_log result" where
  "rebuild_projection c db =
     apply_events_after c 0 (db\<lparr>gl_projected := [], gl_revocations := [], gl_cursor := 0\<rparr>)"

definition catch_up :: "verbs_codec \<Rightarrow> grant_log \<Rightarrow> grant_log result" where
  "catch_up c db = apply_events_after c (gl_cursor db) db"

section \<open>The projection is the model's state\<close>

definition agent_of :: "grantor \<Rightarrow> string option" where
  "agent_of g = (case g of Operator \<Rightarrow> None | GAgent i \<Rightarrow> Some i)"

definition id_of :: "principal \<Rightarrow> string" where
  "id_of p = (case p of PAgent i \<Rightarrow> i)"

definition proj_row :: "verbs_codec \<Rightarrow> grant_id \<Rightarrow> grant_row \<Rightarrow> bool \<Rightarrow> projected_row" where
  "proj_row c i g live =
     \<lparr>pr_id = i, pr_grantor_agent = agent_of (gr_grantor g), pr_grantee_agent = id_of (gr_grantee g),
      pr_verbs = vc_enc c (gr_verbs g), pr_scope_kind = scope_kind (gr_scope g),
      pr_scope_value = scope_value (gr_scope g), pr_live = live\<rparr>"

definition dec_row :: "grant_id \<Rightarrow> grant_row \<Rightarrow> bool \<Rightarrow> bool \<Rightarrow> decoded" where
  "dec_row i g was live =
     \<lparr>d_id = i, d_grantor_agent = agent_of (gr_grantor g), d_grantee_agent = id_of (gr_grantee g),
      d_verbs = gr_verbs g, d_scope = gr_scope g, d_was_live = was, d_live = live\<rparr>"

text \<open>The projection tables a model calls for.\<close>

definition project :: "verbs_codec \<Rightarrow> grant_model \<Rightarrow> (grant_id \<Rightarrow> bool) \<Rightarrow> projected_row list" where
  "project c m f = map (\<lambda>(i, g). proj_row c i g (f i)) (gm_grants m)"

definition ids_sorted :: "grant_model \<Rightarrow> bool" where
  "ids_sorted m \<longleftrightarrow> sorted_wrt (<) (map fst (gm_grants m))"

lemma ids_sorted_wf: "ids_sorted m \<Longrightarrow> gm_wf m"
  by (simp add: ids_sorted_def gm_wf_def strict_sorted_iff)

lemma proj_row_id [simp]: "pr_id (proj_row c i g l) = i"
  by (simp add: proj_row_def)

lemma dec_row_sel [simp]:
  "d_id (dec_row i g w l) = i" "d_live (dec_row i g w l) = l" "d_was_live (dec_row i g w l) = w"
  "(dec_row i g w l)\<lparr>d_live := l'\<rparr> = dec_row i g w l'"
  by (simp_all add: dec_row_def)

lemma decode_proj_row: "codec_ok c \<Longrightarrow> decode_row c (proj_row c i g l) = Inr (dec_row i g l False)"
  by (simp add: decode_row_def proj_row_def dec_row_def decode_verbs_def decode_scope_def codec_ok_def)

lemma map_pr_id_project: "map pr_id (project c m f) = map fst (gm_grants m)"
  by (auto simp: project_def)

lemma sort_project: "ids_sorted m \<Longrightarrow> sort_key pr_id (project c m f) = project c m f"
  by (rule sort_key_id_if_sorted)
     (simp add: map_pr_id_project ids_sorted_def strict_sorted_iff)

lemma decode_project:
  "codec_ok c \<Longrightarrow> traverse (decode_row c) (project c m f) =
     Inr (map (\<lambda>(i, g). dec_row i g (f i) False) (gm_grants m))"
  unfolding project_def traverse_map by (rule traverse_all) (auto simp: decode_proj_row)

lemma row_live_exact:
  assumes m: "ids_sorted m" and split: "gm_grants m = pre @ (i, g) # post"
  shows "row_live (gm_revoked m) (map (\<lambda>(j, h). dec_row j h (f j) (live_grant m j)) pre) (dec_row i g w l)
    \<longleftrightarrow> live_grant m i"
proof -
  from m have wf: "gm_wf m" by (rule ids_sorted_wf)
  have g: "map_of (gm_grants m) i = Some g"
    by (rule map_of_is_SomeI) (use wf split in \<open>simp_all add: gm_wf_def\<close>)
  have pre: "(j, h) \<in> set pre \<longleftrightarrow> map_of (gm_grants m) j = Some h \<and> j < i" for j h
    using m wf unfolding ids_sorted_def gm_wf_def
    by (auto simp: split sorted_wrt_append) fastforce
  have agent: "id_of q = a \<longleftrightarrow> q = PAgent a" for q a
    by (cases q) (simp add: id_of_def)
  have ex: "list_ex (\<lambda>s. d_live s \<and> d_grantee_agent s = a
        \<and> supports (d_verbs s) (d_scope s) (gr_verbs g) (gr_scope g))
      (map (\<lambda>(j, h). dec_row j h (f j) (live_grant m j)) pre)
    \<longleftrightarrow> (\<exists>j h. (j, h) \<in> set pre \<and> live_grant m j \<and> gr_grantee h = PAgent a
        \<and> supports (gr_verbs h) (gr_scope h) (gr_verbs g) (gr_scope g))" for a
    unfolding list_ex_iff agent [symmetric] by (force simp: dec_row_def)
  have row: "row_live R e (dec_row i g w l) \<longleftrightarrow> i \<notin> R \<and>
      (case gr_grantor g of Operator \<Rightarrow> True
       | GAgent a \<Rightarrow> list_ex (\<lambda>s. d_live s \<and> d_grantee_agent s = a
           \<and> supports (d_verbs s) (d_scope s) (gr_verbs g) (gr_scope g)) e)" for R e
    by (auto simp: row_live_def dec_row_def agent_of_def split: grantor.splits)
  show ?thesis
    unfolding live_grant_unfold [OF wf g] grant_ok_iff [OF wf] row
    by (cases "gr_grantor g") (auto simp: ex pre)
qed

lemma liveness_loop_exact:
  assumes "ids_sorted m" "gm_grants m = pre @ post"
  shows "liveness_loop (gm_revoked m)
           (map (\<lambda>(j, h). dec_row j h (f j) (live_grant m j)) pre)
           (map (\<lambda>(j, h). dec_row j h (f j) False) post)
         = map (\<lambda>(j, h). dec_row j h (f j) (live_grant m j)) (gm_grants m)"
  using assms(2)
proof (induction post arbitrary: pre)
  case (Cons p post)
  obtain i g where p: "p = (i, g)" by (cases p)
  with Cons.IH [of "pre @ [p]"] Cons.prems row_live_exact [OF assms(1), of pre i g post f]
  show ?case by simp
qed simp

lemma write_live_map:
  assumes "distinct (map d_id gs)"
  shows "write_live gs t =
    map (\<lambda>r. case find (\<lambda>g. d_id g = pr_id r) gs of
               None \<Rightarrow> r
             | Some g \<Rightarrow> if d_live g \<noteq> d_was_live g then r\<lparr>pr_live := d_live g\<rparr> else r) t"
  using assms
proof (induction gs arbitrary: t)
  case (Cons g gs)
  then have g: "find (\<lambda>h. d_id h = d_id g) gs = None"
    by (auto simp: find_None_iff image_iff)
  have "write_live (g # gs) t = write_live gs
     (map (\<lambda>r. if pr_id r = d_id g \<and> d_live g \<noteq> d_was_live g then r\<lparr>pr_live := d_live g\<rparr> else r) t)"
    by (auto simp: upd_where_def intro!: arg_cong [of _ _ "write_live gs"])
  also have "\<dots> = map (\<lambda>r. case find (\<lambda>g. d_id g = pr_id r) (g # gs) of
               None \<Rightarrow> r
             | Some g \<Rightarrow> if d_live g \<noteq> d_was_live g then r\<lparr>pr_live := d_live g\<rparr> else r) t"
    using Cons g by (auto simp: comp_def)
  finally show ?case .
qed simp

lemma find_dec_row:
  assumes "distinct (map fst xs)" "(i, g) \<in> set xs"
  shows "find (\<lambda>d. d_id d = i) (map (\<lambda>(j, h). dec_row j h (F j) (G j)) xs) = Some (dec_row i g (F i) (G i))"
  using assms by (induction xs) (auto simp: image_iff)

lemma write_live_project:
  assumes "ids_sorted m"
  shows "write_live (map (\<lambda>(j, h). dec_row j h (f j) (G j)) (gm_grants m)) (project c m f) = project c m G"
proof -
  have d: "distinct (map fst (gm_grants m))"
    using ids_sorted_wf [OF assms] by (simp add: gm_wf_def)
  then have "distinct (map d_id (map (\<lambda>(j, h). dec_row j h (f j) (G j)) (gm_grants m)))"
    by (simp add: comp_def case_prod_beta')
  from write_live_map [OF this] show ?thesis
    by (auto simp: project_def find_dec_row [OF d] proj_row_def)
qed

lemma recompute_project:
  assumes "codec_ok c" "ids_sorted m"
    and "gl_projected db = project c m f" "set (gl_revocations db) = gm_revoked m"
  shows "recompute_liveness c db = Inr (db\<lparr>gl_projected := project c m (live_grant m)\<rparr>)"
  using liveness_loop_exact [OF assms(2), of "[]" "gm_grants m" f]
  by (simp add: recompute_liveness_def assms sort_project decode_project write_live_project)

text \<open>A row of the log as the appends write it, and the event it stands for.\<close>

fun enc_row :: "verbs_codec \<Rightarrow> event_row \<Rightarrow> grant_event \<Rightarrow> bool" where
  "enc_row c r (Granted i gtor gtee vs sc) \<longleftrightarrow>
     er_kind r = ''granted'' \<and> er_seq r = i \<and> er_grantor_agent r = agent_of gtor
     \<and> er_grantee_agent r = Some (id_of gtee) \<and> er_verbs r = Some (vc_enc c vs)
     \<and> er_scope_kind r = Some (scope_kind sc) \<and> er_scope_value r = Some (scope_value sc)"
| "enc_row c r (Revoked t) \<longleftrightarrow> er_kind r = ''revoked'' \<and> er_target_id r = Some t"

lemma into_event_enc: "codec_ok c \<Longrightarrow> enc_row c r e \<Longrightarrow> into_event c r = Inr e"
proof (cases e)
  case (Granted i gtor gtee vs sc)
  assume "codec_ok c" "enc_row c r e"
  with Granted show ?thesis
    by (cases gtor; cases gtee)
       (simp_all add: into_event_def ok_or_def decode_verbs_def decode_scope_def codec_ok_def
          agent_of_def id_of_def)
qed (simp add: into_event_def ok_or_def)

lemma traverse_enc:
  "codec_ok c \<Longrightarrow> list_all2 (enc_row c) rs es \<Longrightarrow> traverse (into_event c) rs = Inr es"
  by (induction es arbitrary: rs) (auto simp: into_event_enc list_all2_Cons2)

text \<open>
  The state invariant of the database: the log encodes \<open>es\<close>, sequence numbers grow, and the
  projection tables are those of the replayed model.
\<close>

definition events_inv :: "verbs_codec \<Rightarrow> grant_log \<Rightarrow> grant_event list \<Rightarrow> bool" where
  "events_inv c db es \<longleftrightarrow>
     list_all2 (enc_row c) (gl_events db) es
     \<and> sorted_wrt (<) (map er_seq (gl_events db))
     \<and> (\<forall>r \<in> set (gl_events db). 0 < er_seq r \<and> er_seq r < gl_next_seq db)"

definition last_seq :: "grant_log \<Rightarrow> nat" where
  "last_seq db = Max (insert 0 (er_seq ` set (gl_events db)))"

definition log_inv :: "verbs_codec \<Rightarrow> grant_log \<Rightarrow> grant_event list \<Rightarrow> bool" where
  "log_inv c db es \<longleftrightarrow>
     events_inv c db es \<and> 0 < gl_next_seq db
     \<and> gl_projected db = project c (gm_replay es) (live_grant (gm_replay es))
     \<and> set (gl_revocations db) = gm_revoked (gm_replay es)
     \<and> gl_cursor db = last_seq db"

lemma gm_replay_snoc: "gm_replay (es @ [e]) = gm_apply e (gm_replay es)"
  by (simp add: gm_replay_def)

lemma log_inv_empty: "log_inv c gl_empty []"
  by (simp add: log_inv_def events_inv_def gl_empty_def gm_replay_def gm_new_def project_def last_seq_def)

text \<open>The ids of the replayed grants are sequence numbers of the log, in order.\<close>

lemma replay_ids:
  assumes "list_all2 (enc_row c) rs es" "sorted_wrt (<) (map er_seq rs)"
  shows "ids_sorted (gm_replay es) \<and> fst ` set (gm_grants (gm_replay es)) \<subseteq> er_seq ` set rs"
  using assms
proof (induction es arbitrary: rs rule: rev_induct)
  case Nil
  then show ?case by (simp add: gm_replay_def gm_new_def ids_sorted_def)
next
  case (snoc e es)
  from snoc.prems(1) obtain rs' r where rs: "rs = rs' @ [r]"
    and enc: "list_all2 (enc_row c) rs' es" "enc_row c r e"
    by (auto simp: list_all2_append2 list_all2_Cons2)
  from snoc.prems(2) have sorted: "sorted_wrt (<) (map er_seq rs')"
    and less: "\<And>x. x \<in> set rs' \<Longrightarrow> er_seq x < er_seq r"
    by (auto simp: rs sorted_wrt_append)
  from snoc.IH [OF enc(1) sorted]
  have IH: "ids_sorted (gm_replay es)" "fst ` set (gm_grants (gm_replay es)) \<subseteq> er_seq ` set rs'"
    by auto
  show ?case
  proof (cases e)
    case (Granted i gtor gtee vs sc)
    from enc(2) Granted have i: "i = er_seq r" by simp
    from IH(2) less have lt: "\<And>k. k \<in> fst ` set (gm_grants (gm_replay es)) \<Longrightarrow> k < i"
      unfolding i by (fastforce simp: subset_iff image_iff)
    then have "map_of (gm_grants (gm_replay es)) i = None"
      by (auto simp: map_of_eq_None_iff)
    with IH lt show ?thesis
      by (auto simp: gm_replay_snoc Granted rs i ids_sorted_def sorted_wrt_append)
  next
    case (Revoked t)
    with IH show ?thesis by (auto simp: gm_replay_snoc rs ids_sorted_def)
  qed
qed

lemma log_inv_sorted: "log_inv c db es \<Longrightarrow> ids_sorted (gm_replay es)"
  using replay_ids by (auto simp: log_inv_def events_inv_def)

lemma log_inv_replay:
  assumes "codec_ok c" "log_inv c db es"
  shows "log_replay c db = Inr es"
proof -
  from assms have "sort_key er_seq (gl_events db) = gl_events db"
    by (intro sort_key_id_if_sorted) (simp add: log_inv_def events_inv_def strict_sorted_iff)
  with assms show ?thesis by (simp add: log_replay_def log_inv_def events_inv_def traverse_enc)
qed

lemma last_seq_less: "events_inv c db es \<Longrightarrow> 0 < gl_next_seq db \<Longrightarrow> last_seq db < gl_next_seq db"
  by (auto simp: last_seq_def events_inv_def)

lemma set_insert_revocation [simp]: "set (insert_revocation i t) = insert i (set t)"
  by (auto simp: insert_revocation_def)

lemma project_revoke [simp]: "project c (m\<lparr>gm_revoked := R\<rparr>) f = project c m f"
  by (simp add: project_def)

lemma insert_projected_fresh:
  assumes "i \<notin> fst ` set (gm_grants m)"
  shows "insert_projected (proj_row c i g False) (project c m f)
    = project c (m\<lparr>gm_grants := gm_grants m @ [(i, g)]\<rparr>) (\<lambda>j. j \<noteq> i \<and> f j)"
proof -
  have "pr_id ` set (project c m f) = fst ` set (gm_grants m)"
    using map_pr_id_project [of c m f] by (metis list.set_map)
  moreover have "j \<noteq> i" if "(j, x) \<in> set (gm_grants m)" for j x
    using assms that by (auto simp: image_iff)
  ultimately show ?thesis
    using assms by (auto simp: insert_projected_def project_def)
qed

section \<open>Appends keep projection and log together\<close>

text \<open>What both appends do once their event row and projection row are in.\<close>

lemma append_step:
  assumes c: "codec_ok c" and inv: "log_inv c db es"
    and enc: "enc_row c ev e" and seq: "er_seq ev = gl_next_seq db"
    and rows: "gl_projected db1 = project c (gm_replay (es @ [e])) f"
    and revs: "set (gl_revocations db1) = gm_revoked (gm_replay (es @ [e]))"
    and db1: "gl_events db1 = gl_events db @ [ev]" "gl_next_seq db1 = Suc (gl_next_seq db)"
      "gl_cursor db1 = gl_cursor db"
  shows "\<exists>d. recompute_liveness c db1 = Inr d \<and> log_inv c (set_cursor (gl_next_seq db) d) (es @ [e])
    \<and> gl_next_seq (set_cursor (gl_next_seq db) d) = Suc (gl_next_seq db)"
proof -
  let ?n = "gl_next_seq db"
  have ev: "events_inv c db1 (es @ [e])"
    using inv enc seq
    by (auto simp: log_inv_def events_inv_def db1 list_all2_appendI sorted_wrt_append)
  then have sorted: "ids_sorted (gm_replay (es @ [e]))"
    using replay_ids by (auto simp: events_inv_def)
  have rec: "recompute_liveness c db1 =
      Inr (db1\<lparr>gl_projected := project c (gm_replay (es @ [e])) (live_grant (gm_replay (es @ [e])))\<rparr>)"
    by (rule recompute_project [OF c sorted rows revs])
  have "gl_cursor db < ?n"
    using inv last_seq_less by (auto simp: log_inv_def)
  moreover have "last_seq db1 = ?n"
  proof -
    have "er_seq ` set (gl_events db1) = insert ?n (er_seq ` set (gl_events db))"
      by (simp add: db1 seq)
    moreover have "\<forall>r \<in> set (gl_events db). er_seq r < ?n"
      using inv by (simp add: log_inv_def events_inv_def)
    ultimately show ?thesis
      unfolding last_seq_def by (intro Max_eqI) (auto intro: less_imp_le)
  qed
  ultimately show ?thesis
    using ev revs by (auto simp: rec set_cursor_def log_inv_def db1 events_inv_def last_seq_def)
qed

lemma next_seq_fresh: "log_inv c db es \<Longrightarrow> gl_next_seq db \<notin> fst ` set (gm_grants (gm_replay es))"
  using replay_ids [of c "gl_events db" es] by (fastforce simp: log_inv_def events_inv_def)

lemma append_granted_inv:
  assumes c: "codec_ok c" and inv: "log_inv c db es"
  shows "\<exists>db'. append_granted c now gtor gtee vs sc db = Inr (gl_next_seq db, db')
    \<and> log_inv c db' (es @ [Granted (gl_next_seq db) gtor gtee vs sc]) \<and> gl_next_seq db' = Suc (gl_next_seq db)"
proof -
  let ?n = "gl_next_seq db" and ?m = "gm_replay es"
  let ?e = "Granted ?n gtor gtee vs sc"
  let ?g = "\<lparr>gr_grantor = gtor, gr_grantee = gtee, gr_verbs = vs, gr_scope = sc\<rparr>"
  let ?row = "proj_row c ?n ?g False"
  let ?ev = "\<lparr>er_seq = ?n, er_kind = ''granted'', er_target_id = None,
      er_grantor_agent = agent_of gtor, er_grantee_agent = Some (id_of gtee),
      er_verbs = Some (vc_enc c vs), er_scope_kind = Some (scope_kind sc),
      er_scope_value = Some (scope_value sc), er_occurred_at = now, er_published = False\<rparr>"
  let ?db1 = "db\<lparr>gl_events := gl_events db @ [?ev], gl_next_seq := Suc ?n,
      gl_projected := insert_projected ?row (gl_projected db)\<rparr>"
  note fresh = next_seq_fresh [OF inv]
  have m': "gm_replay (es @ [?e]) = ?m\<lparr>gm_grants := gm_grants ?m @ [(?n, ?g)]\<rparr>"
    using fresh by (simp add: gm_replay_snoc map_of_eq_None_iff [symmetric])
  have proj: "gl_projected db = project c ?m (live_grant ?m)"
    using inv by (simp add: log_inv_def)
  have rows: "gl_projected ?db1 = project c (gm_replay (es @ [?e])) (\<lambda>i. i \<noteq> ?n \<and> live_grant ?m i)"
    unfolding m' using insert_projected_fresh [OF fresh] by (simp add: proj)
  have "\<exists>d. recompute_liveness c ?db1 = Inr d \<and> log_inv c (set_cursor ?n d) (es @ [?e])
      \<and> gl_next_seq (set_cursor ?n d) = Suc ?n"
    by (rule append_step [OF c inv _ _ rows, where ev = ?ev]) (use inv in \<open>auto simp: m' log_inv_def\<close>)
  then show ?thesis
    by (auto simp: append_granted_def Let_def encode_verbs_def agent_of_def id_of_def proj_row_def)
qed

lemma append_revoked_inv:
  assumes c: "codec_ok c" and inv: "log_inv c db es"
  shows "\<exists>db'. append_revoked c now t db = Inr db' \<and> log_inv c db' (es @ [Revoked t])
    \<and> gl_next_seq db' = Suc (gl_next_seq db)"
proof -
  let ?n = "gl_next_seq db" and ?m = "gm_replay es"
  let ?ev = "\<lparr>er_seq = ?n, er_kind = ''revoked'', er_target_id = Some t,
      er_grantor_agent = None, er_grantee_agent = None, er_verbs = None,
      er_scope_kind = None, er_scope_value = None, er_occurred_at = now, er_published = False\<rparr>"
  let ?db1 = "db\<lparr>gl_events := gl_events db @ [?ev], gl_next_seq := Suc ?n,
      gl_revocations := insert_revocation t (gl_revocations db)\<rparr>"
  have rows: "gl_projected ?db1 = project c (gm_replay (es @ [Revoked t])) (live_grant ?m)"
    using inv by (simp add: log_inv_def project_def gm_replay_snoc)
  have "\<exists>d. recompute_liveness c ?db1 = Inr d \<and> log_inv c (set_cursor ?n d) (es @ [Revoked t])
      \<and> gl_next_seq (set_cursor ?n d) = Suc ?n"
    by (rule append_step [OF c inv _ _ rows, where ev = ?ev])
       (use inv in \<open>auto simp: log_inv_def gm_replay_snoc insert_revocation_def\<close>)
  then show ?thesis by (auto simp: append_revoked_def Let_def)
qed

section \<open>Queries answer what the model answers\<close>

lemma filter_project:
  "filter (\<lambda>r. pr_grantee_agent r = id_of p \<and> pr_live r) (project c m f)
   = map (\<lambda>(i, g). proj_row c i g True) (filter (\<lambda>(i, g). gr_grantee g = p \<and> f i) (gm_grants m))"
proof -
  have "filter (\<lambda>r. pr_grantee_agent r = id_of p \<and> pr_live r) (map (\<lambda>(i, g). proj_row c i g (f i)) xs)
      = map (\<lambda>(i, g). proj_row c i g True) (filter (\<lambda>(i, g). gr_grantee g = p \<and> f i) xs)" for xs
    by (induction xs) (auto simp: proj_row_def id_of_def split: principal.splits)
  then show ?thesis by (simp add: project_def)
qed

lemma live_grants_project:
  assumes c: "codec_ok c" and inv: "log_inv c db es"
  shows "live_grants_for c db p = Inr (map (\<lambda>(i, g). \<lparr>lg_id = i, lg_verbs = gr_verbs g, lg_scope = gr_scope g\<rparr>)
    (filter (\<lambda>(i, g). gr_grantee g = p \<and> live_grant (gm_replay es) i) (gm_grants (gm_replay es))))"
proof -
  let ?m = "gm_replay es"
  let ?k = "filter (\<lambda>(i, g). gr_grantee g = p \<and> live_grant ?m i) (gm_grants ?m)"
  let ?P = "\<lambda>r. pr_grantee_agent r = id_of p \<and> pr_live r"
  have f: "filter ?P (gl_projected db) = map (\<lambda>(i, g). proj_row c i g True) ?k"
    using inv filter_project [of p c ?m "live_grant ?m"] by (simp add: log_inv_def)
  have "sorted_wrt (<) (map fst ?k)"
    using log_inv_sorted [OF inv] by (simp add: ids_sorted_def sorted_wrt_map sorted_wrt_filter)
  then have "sort_key pr_id (filter ?P (gl_projected db)) = filter ?P (gl_projected db)"
    by (intro sort_key_id_if_sorted) (simp add: f comp_def case_prod_beta proj_row_def strict_sorted_iff)
  moreover have "live_grants_for c db p = traverse (\<lambda>r. bindR (decode_verbs c (pr_verbs r)) (\<lambda>vs.
                      bindR (decode_scope (pr_scope_kind r) (pr_scope_value r)) (\<lambda>sc.
                      Inr \<lparr>lg_id = pr_id r, lg_verbs = vs, lg_scope = sc\<rparr>)))
          (sort_key pr_id (filter ?P (gl_projected db)))"
    by (simp add: live_grants_for_def id_of_def split: principal.splits)
  ultimately show ?thesis
    using c unfolding f
    by (simp add: traverse_map comp_def proj_row_def case_prod_beta decode_verbs_def decode_scope_def codec_ok_def traverse_all)
qed

lemma log_can_exact:
  assumes "codec_ok c" "log_inv c db es"
  shows "log_can c db p v r = Inr (gm_can (gm_replay es) p v r)"
proof -
  have wf: "gm_wf (gm_replay es)"
    using log_inv_sorted [OF assms(2)] by (rule ids_sorted_wf)
  then have "distinct (map fst (gm_grants (gm_replay es)))" by (simp add: gm_wf_def strict_sorted_iff)
  then show ?thesis
    by (fastforce simp: log_can_def live_grants_project [OF assms] gm_can_iff [OF wf] list_ex_iff)
qed

section \<open>Rebuild and catch-up restore the projection\<close>

text \<open>The rows and the revoked ids that \<open>apply_events_after\<close> selects from a stretch of the log.\<close>

definition granted_rows :: "event_row list \<Rightarrow> projected_row list" where
  "granted_rows rs = map (\<lambda>r. \<lparr>pr_id = er_seq r, pr_grantor_agent = er_grantor_agent r,
      pr_grantee_agent = the (er_grantee_agent r), pr_verbs = the (er_verbs r),
      pr_scope_kind = the (er_scope_kind r), pr_scope_value = the (er_scope_value r),
      pr_live = False\<rparr>)
    (filter (\<lambda>r. er_kind r = ''granted'' \<and> er_grantee_agent r \<noteq> None
       \<and> er_verbs r \<noteq> None \<and> er_scope_kind r \<noteq> None \<and> er_scope_value r \<noteq> None) rs)"

definition revoked_targets :: "event_row list \<Rightarrow> nat list" where
  "revoked_targets rs = List.map_filter er_target_id (filter (\<lambda>r. er_kind r = ''revoked'') rs)"

lemma apply_rows_project:
  assumes "list_all2 (enc_row c) (pre @ post) (es @ es')" "length pre = length es"
    "sorted_wrt (<) (map er_seq (pre @ post))"
    "set rv = gm_revoked (gm_replay es)"
  shows "(\<exists>f'. fold insert_projected (granted_rows post) (project c (gm_replay es) f)
                = project c (gm_replay (es @ es')) f')
    \<and> set (fold insert_revocation (revoked_targets post) rv) = gm_revoked (gm_replay (es @ es'))"
  using assms
proof (induction es' arbitrary: post rule: rev_induct)
  case Nil
  then have "post = []" by (auto dest: list_all2_lengthD)
  with Nil show ?case by (auto simp: granted_rows_def revoked_targets_def map_filter_def)
next
  case (snoc e es')
  have len: "length post = Suc (length es')"
    using snoc.prems(1,2) by (auto dest!: list_all2_lengthD)
  then obtain post' r where post: "post = post' @ [r]"
    by (metis length_0_conv nat.distinct(1) rev_exhaust)
  let ?m = "gm_replay (es @ es')"
  have enc: "list_all2 (enc_row c) (pre @ post') (es @ es')" "enc_row c r e"
    using snoc.prems(1) by (auto simp: post append_assoc [symmetric] list_all2_append1 list_all2_Cons1
        simp del: append_assoc)
  have sorted: "sorted_wrt (<) (map er_seq (pre @ post'))"
    and less: "\<And>x. x \<in> set (pre @ post') \<Longrightarrow> er_seq x < er_seq r"
    using snoc.prems(3) by (auto simp: post sorted_wrt_append)
  from snoc.IH [OF enc(1) snoc.prems(2) sorted snoc.prems(4)] obtain f' where
    IH: "fold insert_projected (granted_rows post') (project c (gm_replay es) f) = project c ?m f'"
      "set (fold insert_revocation (revoked_targets post') rv) = gm_revoked ?m" by blast
  have ids: "fst ` set (gm_grants ?m) \<subseteq> er_seq ` set (pre @ post')"
    using replay_ids [OF enc(1) sorted] by simp
  show ?case
  proof (cases e)
    case (Revoked t)
    have "granted_rows post = granted_rows post'" "revoked_targets post = revoked_targets post' @ [t]"
      using enc(2) by (simp_all add: Revoked post granted_rows_def revoked_targets_def map_filter_def)
    moreover have "gm_replay (es @ es' @ [e]) = gm_apply e ?m"
      using gm_replay_snoc [of "es @ es'"] by simp
    ultimately show ?thesis
      using IH by (auto simp: Revoked)
  next
    case (Granted i gtor gtee vs sc)
    let ?g = "\<lparr>gr_grantor = gtor, gr_grantee = gtee, gr_verbs = vs, gr_scope = sc\<rparr>"
    have i: "er_seq r = i" using enc(2) by (simp add: Granted)
    have fresh: "i \<notin> fst ` set (gm_grants ?m)" using ids less i by fastforce
    have new: "granted_rows post = granted_rows post' @ [proj_row c i ?g False]"
      "revoked_targets post = revoked_targets post'"
      using enc(2) by (simp_all add: Granted post granted_rows_def revoked_targets_def map_filter_def proj_row_def)
    have m': "gm_replay (es @ es' @ [e]) = ?m\<lparr>gm_grants := gm_grants ?m @ [(i, ?g)]\<rparr>"
      using gm_replay_snoc [of "es @ es'" e] fresh by (simp add: Granted map_of_eq_None_iff [symmetric])
    have "fold insert_projected (granted_rows post) (project c (gm_replay es) f)
        = project c (gm_replay (es @ es' @ [e])) (\<lambda>j. j \<noteq> i \<and> f' j)"
      using insert_projected_fresh [OF fresh] by (simp add: new IH m')
    then show ?thesis using IH(2) by (auto simp: new m')
  qed
qed

text \<open>
  A database whose log holds \<open>es @ es'\<close> while its projection has only seen \<open>es\<close> (an older
  database, a projection wiped for a rebuild).
\<close>

definition behind :: "verbs_codec \<Rightarrow> grant_log \<Rightarrow> grant_event list \<Rightarrow> grant_event list \<Rightarrow> bool" where
  "behind c db es es' \<longleftrightarrow>
     events_inv c db (es @ es') \<and> 0 < gl_next_seq db
     \<and> (\<exists>f. gl_projected db = project c (gm_replay es) f)
     \<and> set (gl_revocations db) = gm_revoked (gm_replay es)
     \<and> gl_cursor db = (if es = [] then 0 else er_seq (gl_events db ! (length es - 1)))
     \<and> es' \<noteq> []"

lemma filter_behind:
  assumes "sorted_wrt (<) (map er_seq rs)" "\<forall>r \<in> set rs. 0 < er_seq r" "n \<le> length rs"
  shows "filter (\<lambda>r. er_seq r > (if n = 0 then 0 else er_seq (rs ! (n - 1)))) rs = drop n rs"
proof (cases n)
  case 0
  with assms show ?thesis by simp
next
  case (Suc k)
  with assms have k: "k < length rs" by simp
  let ?P = "\<lambda>r. er_seq r > er_seq (rs ! k)"
  have lt: "er_seq (rs ! i) < er_seq (rs ! j)" if "i < j" "j < length rs" for i j
    using assms(1) that sorted_wrt_nth_less [of "(<)" "map er_seq rs" i j] by simp
  have "\<not> ?P x" if "x \<in> set (take (Suc k) rs)" for x
  proof -
    from that k obtain i where "i \<le> k" "x = rs ! i" by (auto simp: in_set_conv_nth less_Suc_eq_le)
    with lt [of i k] k show ?thesis by (cases "i = k") simp_all
  qed
  then have "filter ?P (take (Suc k) rs) = []" by (simp only: filter_empty_conv simp_thms) blast
  moreover have "?P x" if "x \<in> set (drop (Suc k) rs)" for x
  proof -
    from that obtain i where "i < length rs - Suc k" "x = rs ! (Suc k + i)"
      by (auto simp: in_set_conv_nth)
    with lt [of k "Suc k + i"] show ?thesis by simp
  qed
  then have "filter ?P (drop (Suc k) rs) = drop (Suc k) rs" by (intro filter_True) blast
  ultimately have "filter ?P (take (Suc k) rs @ drop (Suc k) rs) = drop (Suc k) rs"
    by (simp only: filter_append append_Nil)
  with Suc show ?thesis by simp
qed

lemma apply_events_after_behind:
  assumes c: "codec_ok c" and b: "behind c db es es'"
  shows "\<exists>db'. apply_events_after c (gl_cursor db) db = Inr db' \<and> log_inv c db' (es @ es')
    \<and> gl_events db' = gl_events db \<and> gl_next_seq db' = gl_next_seq db"
proof -
  let ?rs = "gl_events db" and ?n = "length es" and ?m = "gm_replay (es @ es')"
  from b have ev: "list_all2 (enc_row c) ?rs (es @ es')" "sorted_wrt (<) (map er_seq ?rs)"
    "\<forall>r \<in> set ?rs. 0 < er_seq r" and ne: "es' \<noteq> []"
    by (auto simp: behind_def events_inv_def)
  have len: "length ?rs = ?n + length es'"
    using list_all2_lengthD [OF ev(1)] by simp
  then have n: "?n \<le> length ?rs" and rs: "?rs \<noteq> []" using ne by auto
  have fresh: "filter (\<lambda>r. er_seq r > gl_cursor db) ?rs = drop ?n ?rs"
    using filter_behind [OF ev(2,3) n] b by (simp add: behind_def)
  have max: "last_seq db = Max (er_seq ` set ?rs)" using rs by (simp add: last_seq_def)
  have "drop ?n ?rs \<noteq> []" using len ne by simp
  then obtain r where "r \<in> set (filter (\<lambda>r. er_seq r > gl_cursor db) ?rs)"
    unfolding fresh by (meson last_in_set)
  then have below: "\<not> Max (er_seq ` set ?rs) \<le> gl_cursor db"
    by (auto simp: not_le intro: less_le_trans)
  from b obtain f where f: "gl_projected db = project c (gm_replay es) f"
    and rv: "set (gl_revocations db) = gm_revoked (gm_replay es)"
    by (auto simp: behind_def)
  let ?db1 = "db\<lparr>gl_projected := fold insert_projected (granted_rows (drop ?n ?rs)) (gl_projected db),
      gl_revocations := fold insert_revocation (revoked_targets (drop ?n ?rs)) (gl_revocations db)\<rparr>"
  have "list_all2 (enc_row c) (take ?n ?rs @ drop ?n ?rs) (es @ es')"
    "sorted_wrt (<) (map er_seq (take ?n ?rs @ drop ?n ?rs))" "length (take ?n ?rs) = ?n"
    using ev n by (simp_all only: append_take_drop_id length_take min_absorb2)
  from apply_rows_project [OF this(1,3,2) rv, of f] obtain f' where
    "fold insert_projected (granted_rows (drop ?n ?rs)) (gl_projected db) = project c ?m f'"
    and rv': "set (fold insert_revocation (revoked_targets (drop ?n ?rs)) (gl_revocations db)) = gm_revoked ?m"
    unfolding f by blast
  then have rows: "gl_projected ?db1 = project c ?m f'"
    and revs: "set (gl_revocations ?db1) = gm_revoked ?m" by simp_all
  have "ids_sorted ?m" using replay_ids [OF ev(1,2)] by simp
  note rec = recompute_project [OF c this rows revs]
  let ?d = "?db1\<lparr>gl_projected := project c ?m (live_grant ?m)\<rparr>"
  have "apply_events_after c (gl_cursor db) db
      = bindR (recompute_liveness c ?db1) (\<lambda>db'. Inr (set_cursor (last_seq db) db'))"
    unfolding apply_events_after_def Let_def granted_rows_def revoked_targets_def max
    using rs below by (simp only: fresh if_False)
  then have app: "apply_events_after c (gl_cursor db) db = Inr (set_cursor (last_seq db) ?d)"
    by (simp only: rec bindR.simps)
  have cur: "set_cursor (last_seq db) ?d = ?d\<lparr>gl_cursor := last_seq db\<rparr>"
    using below max by (simp add: set_cursor_def)
  have "log_inv c (?d\<lparr>gl_cursor := last_seq db\<rparr>) (es @ es')"
    using b revs by (simp add: log_inv_def behind_def events_inv_def last_seq_def)
  with app cur show ?thesis by simp
qed

section \<open>Histories of the database\<close>

text \<open>The calls that change the database, as one command type, and the events they should log.\<close>

datatype log_cmd =
    AppendGranted int grantor principal "verb set" scope
  | AppendRevoked int grant_id
  | MarkPublished nat
  | RebuildProjection
  | CatchUp

definition mark_published :: "nat \<Rightarrow> grant_log \<Rightarrow> grant_log" where
  "mark_published seq db =
     db\<lparr>gl_events := upd_where (\<lambda>r. er_seq r = seq) (\<lambda>r. r\<lparr>er_published := True\<rparr>) (gl_events db)\<rparr>"

fun run_cmd :: "verbs_codec \<Rightarrow> log_cmd \<Rightarrow> grant_log \<Rightarrow> grant_log result" where
  "run_cmd c (AppendGranted now gtor gtee vs sc) db =
     bindR (append_granted c now gtor gtee vs sc db) (\<lambda>(_, db'). Inr db')"
| "run_cmd c (AppendRevoked now t) db = append_revoked c now t db"
| "run_cmd c (MarkPublished seq) db = Inr (mark_published seq db)"
| "run_cmd c RebuildProjection db = rebuild_projection c db"
| "run_cmd c CatchUp db = catch_up c db"

fun run_cmds :: "verbs_codec \<Rightarrow> log_cmd list \<Rightarrow> grant_log \<Rightarrow> grant_log result" where
  "run_cmds c [] db = Inr db"
| "run_cmds c (x # xs) db = bindR (run_cmd c x db) (run_cmds c xs)"

fun cmd_events :: "nat \<Rightarrow> log_cmd list \<Rightarrow> grant_event list" where
  "cmd_events n [] = []"
| "cmd_events n (AppendGranted now gtor gtee vs sc # xs) = Granted n gtor gtee vs sc # cmd_events (Suc n) xs"
| "cmd_events n (AppendRevoked now t # xs) = Revoked t # cmd_events (Suc n) xs"
| "cmd_events n (x # xs) = cmd_events n xs"

lemma enc_row_published [simp]: "enc_row c (r\<lparr>er_published := b\<rparr>) e = enc_row c r e"
  by (cases e) simp_all

lemma upd_published:
  fixes P :: "event_row \<Rightarrow> bool"
  defines "u \<equiv> upd_where P (\<lambda>r. r\<lparr>er_published := True\<rparr>)"
  shows "map er_seq (u rs) = map er_seq rs"
    "list_all2 (enc_row c) (u rs) es = list_all2 (enc_row c) rs es"
    "er_seq ` set (u rs) = er_seq ` set rs"
    "(\<forall>r \<in> set (u rs). 0 < er_seq r \<and> er_seq r < n) = (\<forall>r \<in> set rs. 0 < er_seq r \<and> er_seq r < n)"
proof -
  show m: "map er_seq (u rs) = map er_seq rs"
    unfolding u_def by (rule map_upd_where_key) simp
  then show "er_seq ` set (u rs) = er_seq ` set rs" by (metis list.set_map)
  then show "(\<forall>r \<in> set (u rs). 0 < er_seq r \<and> er_seq r < n) = (\<forall>r \<in> set rs. 0 < er_seq r \<and> er_seq r < n)"
    by (metis (no_types, lifting) imageE image_eqI)
  have "enc_row c (if P r then r\<lparr>er_published := True\<rparr> else r) e = enc_row c r e" for r e by simp
  then show "list_all2 (enc_row c) (u rs) es = list_all2 (enc_row c) rs es"
    by (simp add: u_def upd_where_def list_all2_map1 del: enc_row_published)
qed

lemma mark_published_inv:
  assumes "log_inv c db es"
  shows "log_inv c (mark_published seq db) es" "gl_next_seq (mark_published seq db) = gl_next_seq db"
  using assms by (simp_all add: log_inv_def events_inv_def last_seq_def mark_published_def upd_published)

lemma rebuild_inv:
  assumes c: "codec_ok c" and inv: "log_inv c db es"
  shows "\<exists>db'. rebuild_projection c (db\<lparr>gl_projected := ps, gl_revocations := rv, gl_cursor := n\<rparr>) = Inr db'
    \<and> log_inv c db' es \<and> gl_events db' = gl_events db \<and> gl_next_seq db' = gl_next_seq db"
proof (cases "es = []")
  case True
  with inv have "gl_events db = []" by (simp add: log_inv_def events_inv_def)
  with inv True show ?thesis
    by (auto simp: rebuild_projection_def apply_events_after_def log_inv_def events_inv_def last_seq_def
        gm_replay_def gm_new_def project_def)
next
  case False
  let ?db = "db\<lparr>gl_projected := [], gl_revocations := [], gl_cursor := 0\<rparr>"
  have "behind c ?db [] es"
    using inv False by (auto simp: behind_def log_inv_def events_inv_def gm_replay_def gm_new_def project_def)
  from apply_events_after_behind [OF c this] show ?thesis
    by (simp add: rebuild_projection_def)
qed

lemma catch_up_inv: "log_inv c db es \<Longrightarrow> catch_up c db = Inr db"
  by (auto simp: catch_up_def apply_events_after_def log_inv_def last_seq_def)

lemma run_cmd_inv:
  assumes c: "codec_ok c" and inv: "log_inv c db es"
  shows "\<exists>db'. run_cmd c x db = Inr db' \<and> log_inv c db' (es @ cmd_events (gl_next_seq db) [x])
    \<and> cmd_events (gl_next_seq db) (x # xs) = cmd_events (gl_next_seq db) [x] @ cmd_events (gl_next_seq db') xs"
proof (cases x)
  case (AppendGranted now gtor gtee vs sc)
  with append_granted_inv [OF c inv, of now gtor gtee vs sc] show ?thesis by auto
next
  case (AppendRevoked now t)
  with append_revoked_inv [OF c inv, of now t] show ?thesis by auto
next
  case (MarkPublished seq)
  with mark_published_inv [OF inv, of seq] show ?thesis by simp
next
  case RebuildProjection
  have "db\<lparr>gl_projected := gl_projected db, gl_revocations := gl_revocations db, gl_cursor := gl_cursor db\<rparr> = db"
    by simp
  with rebuild_inv [OF c inv, where ps = "gl_projected db" and rv = "gl_revocations db" and n = "gl_cursor db"] RebuildProjection
  show ?thesis by auto
next
  case CatchUp
  with catch_up_inv [OF inv] inv show ?thesis by simp
qed

lemma run_cmds_inv:
  assumes c: "codec_ok c" and "log_inv c db es"
  shows "\<exists>db'. run_cmds c xs db = Inr db' \<and> log_inv c db' (es @ cmd_events (gl_next_seq db) xs)"
  using assms(2)
proof (induction xs arbitrary: db es)
  case (Cons x xs)
  from run_cmd_inv [OF c Cons.prems, of x xs] obtain d where
    d: "run_cmd c x db = Inr d" "log_inv c d (es @ cmd_events (gl_next_seq db) [x])"
      "cmd_events (gl_next_seq db) (x # xs) = cmd_events (gl_next_seq db) [x] @ cmd_events (gl_next_seq d) xs"
    by blast
  from Cons.IH [OF d(2)] d(1,3) show ?case by auto
qed simp

lemma run_empty_inv:
  assumes "codec_ok c"
  shows "\<exists>db. run_cmds c xs gl_empty = Inr db \<and> log_inv c db (cmd_events 1 xs)"
  using run_cmds_inv [OF assms log_inv_empty, of xs] by (simp add: gl_empty_def)

section \<open>Properties\<close>

text \<open>
  A concrete codec for the witnesses: one character per verb. It stands in for the JSON text.
\<close>

definition bits_codec :: verbs_codec where
  "bits_codec = \<lparr>
     vc_enc = (\<lambda>vs. map (\<lambda>v. if v \<in> vs then CHR ''1'' else CHR ''0'') verb_ALL),
     vc_dec = (\<lambda>s. if length s = length verb_ALL
                    then Some (set (map fst (filter (\<lambda>(v, b). b = CHR ''1'') (zip verb_ALL s))))
                    else None)\<rparr>"

lemma bits_codec_ok: "codec_ok bits_codec"
proof -
  have "v \<in> set verb_ALL" for v by (cases v) (simp_all add: verb_ALL_def)
  then have all: "set verb_ALL = UNIV" by blast
  have "set (map fst (filter (\<lambda>(v, b). b = CHR ''1'')
      (zip l (map (\<lambda>v. if v \<in> vs then CHR ''1'' else CHR ''0'') l)))) = vs \<inter> set l" for l vs
    by (induction l) auto
  from this [of verb_ALL] show ?thesis
    by (simp add: codec_ok_def bits_codec_def all del: set_map set_filter)
qed

text \<open>
  C3. Projection equals replay. Every history of calls on an empty grant log succeeds; the log then
  replays to exactly the events of the appends, with consecutive sequence numbers as grant ids; and
  the projection-backed authorisation query answers what the replayed reference model answers, for
  every principal, verb and resource, whatever appends, publishes, rebuilds and catch-ups came before.
\<close>

theorem projection_equals_replay:
  assumes "codec_ok c"
  shows "\<exists>db. run_cmds c cmds gl_empty = Inr db
    \<and> log_replay c db = Inr (cmd_events 1 cmds)
    \<and> (\<forall>p v r. log_can c db p v r = Inr (gm_can (gm_replay (cmd_events 1 cmds)) p v r))"
  using run_empty_inv [OF assms, of cmds] log_inv_replay [OF assms] log_can_exact [OF assms] by blast

theorem projection_equals_replay_witness:
  "\<exists>db. run_cmds bits_codec
      [AppendGranted 0 Operator (PAgent ''a'') {VRead, VGrant} (Namespace ''x/''), MarkPublished 1,
       AppendGranted 1 (GAgent ''a'') (PAgent ''b'') {VRead} (Name ''x/y''), RebuildProjection,
       AppendRevoked 2 1] gl_empty = Inr db
    \<and> log_replay bits_codec db = Inr
      [Granted 1 Operator (PAgent ''a'') {VRead, VGrant} (Namespace ''x/''),
       Granted 2 (GAgent ''a'') (PAgent ''b'') {VRead} (Name ''x/y''), Revoked 1]"
  using projection_equals_replay [OF bits_codec_ok, of "[AppendGranted 0 Operator (PAgent ''a'') {VRead, VGrant} (Namespace ''x/''),
      MarkPublished 1, AppendGranted 1 (GAgent ''a'') (PAgent ''b'') {VRead} (Name ''x/y''), RebuildProjection,
      AppendRevoked 2 1]"]
  by (auto simp: numeral_2_eq_2)

text \<open>
  C17. Incremental maintenance equals rebuild. After any history, a rebuild recreates the projected
  grants row for row with their live flags, the set of revoked ids and the cursor, leaves the log
  alone, and does so from whatever the projection tables held, even garbage.
\<close>

theorem rebuild_restores_projection:
  assumes "codec_ok c" "run_cmds c cmds gl_empty = Inr db"
  shows "\<exists>db'. rebuild_projection c (db\<lparr>gl_projected := ps, gl_revocations := rv, gl_cursor := n\<rparr>) = Inr db'
    \<and> gl_projected db' = gl_projected db \<and> set (gl_revocations db') = set (gl_revocations db)
    \<and> gl_cursor db' = gl_cursor db \<and> gl_events db' = gl_events db"
proof -
  have inv: "log_inv c db (cmd_events 1 cmds)"
    using run_empty_inv [OF assms(1), of cmds] assms(2) by simp
  from rebuild_inv [OF assms(1) inv, where ps = ps and rv = rv and n = n] inv show ?thesis
    by (auto simp: log_inv_def last_seq_def)
qed

theorem rebuild_restores_projection_witness:
  "\<exists>db db'. run_cmds bits_codec
      [AppendGranted 0 Operator (PAgent ''a'') {VRead} (Name ''n''), AppendRevoked 0 1] gl_empty = Inr db
    \<and> rebuild_projection bits_codec (db\<lparr>gl_projected := [], gl_revocations := [7], gl_cursor := 9\<rparr>) = Inr db'
    \<and> gl_projected db' = gl_projected db"
proof -
  let ?xs = "[AppendGranted 0 Operator (PAgent ''a'') {VRead} (Name ''n''), AppendRevoked 0 1]"
  obtain db where db: "run_cmds bits_codec ?xs gl_empty = Inr db"
    using run_empty_inv [OF bits_codec_ok] by blast
  with rebuild_restores_projection [OF bits_codec_ok db, where ps = "[]" and rv = "[7]" and n = 9] show ?thesis by blast
qed

end
