(* ===== verification/Grant_Bus.thy ===== *)
theory Grant_Bus
  imports Grant_Log
begin

text \<open>
  The transactional outbox of the grant log: wire envelopes, the pending queue, the bus seam and
  the drain loop of \<^verbatim>\<open>services/fq-store/src/grant_log.rs\<close>. The bus is an interface: a
  \<^theory_text>\<open>locale\<close> fixes its publish operation and what it has delivered; the repository's in-memory
  bus interprets it. A drain publishes, then marks, and both may fail. The lemmas show that the log is
  published in order and without gaps whatever fails, that only an event whose acknowledgement or mark
  was lost is published again, and that a drain of the in-memory bus does exactly what its marks allow.
\<close>

section \<open>Envelopes and the outbox\<close>

record wire_grant_event =
  we_schema_id :: string
  we_seq :: nat
  we_occurred_at_ms :: int
  we_event :: grant_event

definition schema_id :: "grant_event \<Rightarrow> string" where
  "schema_id e = ''factor-q/'' @ wire_kind e @ ''@1''"

definition subject :: "wire_grant_event \<Rightarrow> string" where
  "subject w = ''fq.store.grant.'' @ wire_kind (we_event w)"

definition into_envelope :: "verbs_codec \<Rightarrow> event_row \<Rightarrow> wire_grant_event result" where
  "into_envelope c r = bindR (into_event c r) (\<lambda>e.
     Inr \<lparr>we_schema_id = schema_id e, we_seq = er_seq r, we_occurred_at_ms = er_occurred_at r, we_event = e\<rparr>)"

definition pending :: "verbs_codec \<Rightarrow> grant_log \<Rightarrow> wire_grant_event list result" where
  "pending c db = traverse (into_envelope c) (sort_key er_seq (filter (\<lambda>r. \<not> er_published r) (gl_events db)))"

section \<open>Draining\<close>

text \<open>
  A bus is a state and a publish operation on it. \<open>mark_fails\<close> says which updates of the log fail, by
  sequence number; a failed update changes nothing. A drain keeps the effects it had before an error, so
  it returns the database and the bus beside its result.
\<close>

type_synonym 'b publish = "'b \<Rightarrow> wire_grant_event \<Rightarrow> unit result \<times> 'b"

fun drain_loop ::
  "'b publish \<Rightarrow> (nat \<Rightarrow> store_error option) \<Rightarrow> wire_grant_event list \<Rightarrow> nat \<Rightarrow> grant_log \<Rightarrow> 'b \<Rightarrow> nat result \<times> grant_log \<times> 'b" where
  "drain_loop publish mark_fails [] n db bus = (Inr n, db, bus)"
| "drain_loop publish mark_fails (e # es) n db bus =
     (case publish bus e of
        (Inl err, bus') \<Rightarrow> (Inl err, db, bus')
      | (Inr _, bus') \<Rightarrow>
          (case mark_fails (we_seq e) of
             Some err \<Rightarrow> (Inl err, db, bus')
           | None \<Rightarrow> drain_loop publish mark_fails es (Suc n) (mark_published (we_seq e) db) bus'))"

definition drain ::
  "verbs_codec \<Rightarrow> 'b publish \<Rightarrow> (nat \<Rightarrow> store_error option) \<Rightarrow> grant_log \<Rightarrow> 'b \<Rightarrow> nat result \<times> grant_log \<times> 'b" where
  "drain c publish mark_fails db bus =
     (case pending c db of
        Inl err \<Rightarrow> (Inl err, db, bus)
      | Inr evs \<Rightarrow> drain_loop publish mark_fails evs 0 db bus)"

record in_memory_bus =
  mb_published :: "wire_grant_event list"
  mb_down :: bool

definition bus_new :: in_memory_bus where
  "bus_new = \<lparr>mb_published = [], mb_down = False\<rparr>"

definition set_down :: "bool \<Rightarrow> in_memory_bus \<Rightarrow> in_memory_bus" where
  "set_down d b = b\<lparr>mb_down := d\<rparr>"

definition mem_publish :: "in_memory_bus publish" where
  "mem_publish b e =
     (if mb_down b then (Inl (Bus), b)
      else (Inr (), b\<lparr>mb_published := mb_published b @ [e]\<rparr>))"

section \<open>The log as a queue of envelopes\<close>

text \<open>The envelope of a row that decodes; publishing leaves it unchanged.\<close>

definition wire_of :: "verbs_codec \<Rightarrow> event_row \<Rightarrow> wire_grant_event" where
  "wire_of c r = (let e = projr (into_event c r) in
     \<lparr>we_schema_id = schema_id e, we_seq = er_seq r, we_occurred_at_ms = er_occurred_at r, we_event = e\<rparr>)"

lemma we_seq_wire_of [simp]: "we_seq (wire_of c r) = er_seq r"
  by (simp add: wire_of_def Let_def)

lemma wire_of_published [simp]: "wire_of c (r\<lparr>er_published := b\<rparr>) = wire_of c r"
  by (simp add: wire_of_def into_event_def)

definition decodes :: "verbs_codec \<Rightarrow> event_row \<Rightarrow> bool" where
  "decodes c r \<longleftrightarrow> (\<exists>e. into_event c r = Inr e)"

lemma envelope_of: "decodes c r \<Longrightarrow> into_envelope c r = Inr (wire_of c r)"
  by (auto simp: decodes_def into_envelope_def wire_of_def)

text \<open>
  The outbox invariant: rows decode, sequence numbers grow, and the acknowledged rows are a prefix
  of the log.
\<close>

definition outbox_inv :: "verbs_codec \<Rightarrow> grant_log \<Rightarrow> event_row list \<Rightarrow> event_row list \<Rightarrow> bool" where
  "outbox_inv c db acked queued \<longleftrightarrow>
     gl_events db = acked @ queued
     \<and> (\<forall>r \<in> set acked. er_published r) \<and> (\<forall>r \<in> set queued. \<not> er_published r)
     \<and> (\<forall>r \<in> set (gl_events db). decodes c r)
     \<and> sorted_wrt (<) (map er_seq (gl_events db))"

lemma pending_queued:
  assumes "outbox_inv c db acked queued"
  shows "pending c db = Inr (map (wire_of c) queued)"
proof -
  from assms have f: "filter (\<lambda>r. \<not> er_published r) (gl_events db) = queued"
    by (simp add: outbox_inv_def filter_id_conv filter_empty_conv)
  moreover from assms have "sort_key er_seq queued = queued"
    by (intro sort_key_id_if_sorted) (auto simp: outbox_inv_def strict_sorted_iff sorted_append)
  ultimately show ?thesis
    using assms by (auto simp: pending_def outbox_inv_def envelope_of intro!: traverse_all)
qed

lemma mark_head:
  assumes "outbox_inv c db acked (r # queued)"
  shows "outbox_inv c (mark_published (er_seq r) db) (acked @ [r\<lparr>er_published := True\<rparr>]) queued"
proof -
  from assms have ev: "gl_events db = acked @ r # queued"
    and others: "\<forall>x \<in> set acked. er_seq x < er_seq r" "\<forall>x \<in> set queued. er_seq r < er_seq x"
    by (auto simp: outbox_inv_def sorted_wrt_append)
  let ?P = "\<lambda>x. er_seq x = er_seq r" and ?f = "\<lambda>x. x\<lparr>er_published := True\<rparr>"
  have "upd_where ?P ?f acked = acked" "upd_where ?P ?f queued = queued"
    using others by (intro upd_where_none; auto)+
  then have new: "gl_events (mark_published (er_seq r) db) = (acked @ [?f r]) @ queued"
    by (simp add: mark_published_def ev upd_where_def)
  have "decodes c (?f r) = decodes c r" by (simp add: decodes_def into_event_def)
  with assms new show ?thesis
    unfolding outbox_inv_def by (auto simp: sorted_wrt_append)
qed

lemma outbox_distinct:
  assumes "outbox_inv c db acked queued"
  shows "distinct (map (wire_of c) (acked @ queued))" "distinct (map er_seq (acked @ queued))"
proof -
  from assms have "gl_events db = acked @ queued" "distinct (map er_seq (gl_events db))"
    unfolding outbox_inv_def strict_sorted_iff by blast+
  then show seqs: "distinct (map er_seq (acked @ queued))" by simp
  have "map we_seq (map (wire_of c) (acked @ queued)) = map er_seq (acked @ queued)" by simp
  with seqs show "distinct (map (wire_of c) (acked @ queued))" by (metis distinct_map)
qed

section \<open>The bus contract\<close>

text \<open>
  What a consumer has seen when \<open>acked\<close> is marked and \<open>queued\<close> is not: without immediate repeats, the
  acknowledged events, and perhaps the first queued one, which was delivered but not marked.
\<close>

definition seen :: "'a list \<Rightarrow> 'a list \<Rightarrow> 'a list \<Rightarrow> bool" where
  "seen ds acked queued \<longleftrightarrow>
     remdups_adj ds = acked \<or> queued \<noteq> [] \<and> remdups_adj ds = acked @ [hd queued]"

lemma remdups_adj_snoc:
  "remdups_adj (ds @ [e]) = (if ds \<noteq> [] \<and> last ds = e then remdups_adj ds else remdups_adj ds @ [e])"
  by (cases ds rule: rev_cases) (simp_all add: remdups_adj_append_two)

lemma seen_deliver:
  assumes "seen ds acked (e # queued)" "distinct (acked @ e # queued)"
  shows "remdups_adj (ds @ [e]) = acked @ [e]"
proof -
  have l: "last (remdups_adj ds) = last ds" "remdups_adj ds = [] \<longleftrightarrow> ds = []" by (simp_all add: last_remdups_adj)
  from assms(1) consider "remdups_adj ds = acked" | "remdups_adj ds = acked @ [e]" by (auto simp: seen_def)
  then show ?thesis
  proof cases
    case 1
    have "\<not> (ds \<noteq> [] \<and> last ds = e)"
    proof
      assume "ds \<noteq> [] \<and> last ds = e"
      with 1 l have "acked \<noteq> []" "last acked = e" by auto
      with assms(2) last_in_set [of acked] show False by auto
    qed
    with 1 show ?thesis by (auto simp: remdups_adj_snoc)
  next
    case 2
    with l have "ds \<noteq> []" "last ds = e" by auto
    with 2 show ?thesis by (simp add: remdups_adj_snoc)
  qed
qed

text \<open>
  What a drain relies on: an acknowledged publish delivers the event, after everything delivered
  before it. A failed publish may or may not have reached the transport.
\<close>

locale grant_bus =
  fixes publish :: "'b publish" and delivered :: "'b \<Rightarrow> wire_grant_event list"
  assumes publish_ok: "publish b e = (Inr u, b') \<Longrightarrow> delivered b' = delivered b @ [e]"
    and publish_err: "publish b e = (Inl x, b') \<Longrightarrow> delivered b' = delivered b \<or> delivered b' = delivered b @ [e]"
begin

lemma drain_loop_seen:
  assumes "outbox_inv c db acked queued"
    and "seen (delivered bus) (map (wire_of c) acked) (map (wire_of c) queued)"
    and "drain_loop publish mk (map (wire_of c) queued) n db bus = (res, db', bus')"
  shows "\<exists>acked' queued'. outbox_inv c db' acked' queued'
    \<and> seen (delivered bus') (map (wire_of c) acked') (map (wire_of c) queued')"
  using assms
proof (induction queued arbitrary: n db acked bus)
  case Nil
  then show ?case by (intro exI [of _ acked] exI [of _ "[]"]) simp
next
  case (Cons r queued)
  let ?e = "wire_of c r"
  obtain ack bus1 where p: "publish bus ?e = (ack, bus1)" by (cases "publish bus ?e")
  have next_seen: "remdups_adj (delivered bus @ [?e]) = map (wire_of c) acked @ [?e]"
    using seen_deliver [of "delivered bus" "map (wire_of c) acked" ?e "map (wire_of c) queued"]
      Cons.prems(2) outbox_distinct(1) [OF Cons.prems(1)] by simp
  have stop: ?case if "delivered bus' = delivered bus \<or> delivered bus' = delivered bus @ [?e]" "db' = db"
    using that(1)
  proof
    assume "delivered bus' = delivered bus"
    with Cons.prems(1,2) that(2) show ?thesis by metis
  next
    assume "delivered bus' = delivered bus @ [?e]"
    with next_seen have "seen (delivered bus') (map (wire_of c) acked) (map (wire_of c) (r # queued))"
      by (simp add: seen_def)
    with Cons.prems(1) that(2) show ?thesis by metis
  qed
  show ?case
  proof (cases ack)
    case (Inl x)
    with p publish_err [of bus _ x bus1] Cons.prems(3) show ?thesis by (intro stop) auto
  next
    case (Inr u)
    from p Inr publish_ok have d: "delivered bus1 = delivered bus @ [?e]" by simp
    show ?thesis
    proof (cases "mk (er_seq r)")
      case (Some x)
      with d p Inr Cons.prems(3) show ?thesis by (intro stop) auto
    next
      case None
      from next_seen d have "seen (delivered bus1) (map (wire_of c) (acked @ [r\<lparr>er_published := True\<rparr>])) (map (wire_of c) queued)"
        by (simp add: seen_def)
      from Cons.IH [OF mark_head [OF Cons.prems(1)] this] Cons.prems(3) p Inr None show ?thesis by simp
    qed
  qed
qed

lemma drain_seen:
  assumes "outbox_inv c db acked queued"
    and "seen (delivered bus) (map (wire_of c) acked) (map (wire_of c) queued)"
    and "drain c publish mk db bus = (res, db', bus')"
  shows "\<exists>acked' queued'. outbox_inv c db' acked' queued'
    \<and> seen (delivered bus') (map (wire_of c) acked') (map (wire_of c) queued')"
  using assms(3) drain_loop_seen [OF assms(1,2), of mk 0 res db' bus']
  by (simp add: drain_def pending_queued [OF assms(1)])

end

text \<open>A bus whose failed publish delivers nothing: while marks succeed, a drain is exactly-once.\<close>

locale atomic_grant_bus = grant_bus +
  assumes publish_err_atomic: "publish b e = (Inl x, b') \<Longrightarrow> delivered b' = delivered b"
begin

lemma drain_loop_exact:
  assumes "outbox_inv c db acked queued" "delivered bus = map (wire_of c) acked"
    and "drain_loop publish (\<lambda>_. None) (map (wire_of c) queued) n db bus = (res, db', bus')"
  shows "\<exists>acked' queued'. outbox_inv c db' acked' queued' \<and> delivered bus' = map (wire_of c) acked'"
  using assms
proof (induction queued arbitrary: n db acked bus)
  case Nil
  then show ?case by auto
next
  case (Cons r queued)
  obtain ack bus1 where p: "publish bus (wire_of c r) = (ack, bus1)" by (cases "publish bus (wire_of c r)")
  show ?case
  proof (cases ack)
    case (Inl x)
    with p publish_err_atomic [of bus _ x bus1] Cons.prems show ?thesis by auto
  next
    case (Inr u)
    with Cons.prems(2) p publish_ok [of bus _ u bus1]
    have "delivered bus1 = map (wire_of c) (acked @ [r\<lparr>er_published := True\<rparr>])" by simp
    from Cons.IH [OF mark_head [OF Cons.prems(1)] this] Cons.prems(3) p Inr show ?thesis by simp
  qed
qed

lemma drain_exact:
  assumes "outbox_inv c db acked queued" "delivered bus = map (wire_of c) acked"
    and "drain c publish (\<lambda>_. None) db bus = (res, db', bus')"
  shows "\<exists>acked' queued'. outbox_inv c db' acked' queued' \<and> delivered bus' = map (wire_of c) acked'"
  using assms(3) drain_loop_exact [OF assms(1,2), of 0 res db' bus']
  by (simp add: drain_def pending_queued [OF assms(1)])

end

interpretation mem_bus: atomic_grant_bus mem_publish mb_published
  by unfold_locales (auto simp: mem_publish_def split: if_splits)

section \<open>Histories of log and bus\<close>

text \<open>
  Appends, drains with the marks that fail, and whatever else happens to the bus (an outage begins or
  ends).
\<close>

datatype 'b outbox_cmd =
    OGrant int grantor principal "verb set" scope
  | ORevoke int grant_id
  | ODrain "nat \<Rightarrow> store_error option"
  | OBus "'b \<Rightarrow> 'b"

fun outbox_step :: "verbs_codec \<Rightarrow> 'b publish \<Rightarrow> 'b outbox_cmd \<Rightarrow> grant_log \<times> 'b \<Rightarrow> grant_log \<times> 'b" where
  "outbox_step c publish (OGrant now gtor gtee vs sc) (db, b) =
     (case append_granted c now gtor gtee vs sc db of Inl _ \<Rightarrow> (db, b) | Inr (_, db') \<Rightarrow> (db', b))"
| "outbox_step c publish (ORevoke now t) (db, b) =
     (case append_revoked c now t db of Inl _ \<Rightarrow> (db, b) | Inr db' \<Rightarrow> (db', b))"
| "outbox_step c publish (ODrain mark_fails) (db, b) = snd (drain c publish mark_fails db b)"
| "outbox_step c publish (OBus f) (db, b) = (db, f b)"

definition run_outbox :: "verbs_codec \<Rightarrow> 'b publish \<Rightarrow> 'b outbox_cmd list \<Rightarrow> grant_log \<times> 'b \<Rightarrow> grant_log \<times> 'b" where
  "run_outbox c publish xs s = fold (outbox_step c publish) xs s"

lemma append_events:
  "append_granted c now gtor gtee vs sc db = Inr (i, db') \<Longrightarrow>
     \<exists>ev. gl_events db' = gl_events db @ [ev] \<and> \<not> er_published ev"
  "append_revoked c now t db = Inr db' \<Longrightarrow>
     \<exists>ev. gl_events db' = gl_events db @ [ev] \<and> \<not> er_published ev"
  by (auto simp: append_granted_def append_revoked_def recompute_liveness_def Let_def set_cursor_def)

lemma outbox_inv_append:
  assumes c: "codec_ok c" and inv: "log_inv c db' es" and out: "outbox_inv c db acked queued"
    and ev: "gl_events db' = gl_events db @ [ev]" "\<not> er_published ev"
  shows "outbox_inv c db' acked (queued @ [ev])"
proof -
  have "list_all2 (enc_row c) rs es' \<Longrightarrow> r \<in> set rs \<Longrightarrow> decodes c r" for rs es' r
    by (induction rs arbitrary: es') (auto simp: list_all2_Cons1 decodes_def into_event_enc [OF c])
  then have "\<forall>r \<in> set (gl_events db'). decodes c r"
    using inv by (auto simp: log_inv_def events_inv_def)
  with inv out ev show ?thesis by (auto simp: outbox_inv_def log_inv_def events_inv_def)
qed

lemma drain_log_inv:
  assumes "log_inv c db es"
  shows "log_inv c (fst (snd (drain c publish mk db bus))) es"
proof -
  have "log_inv c db es \<Longrightarrow> log_inv c (fst (snd (drain_loop publish mk evs n db bus))) es" for evs n db bus
    by (induction evs arbitrary: n db bus) (auto simp: mark_published_inv split: prod.splits sum.splits option.splits)
  with assms show ?thesis by (auto simp: drain_def split: sum.splits)
qed

text \<open>
  An invariant of log and bus that drains keep, appends keep by queueing, and bus changes keep as
  long as they deliver nothing.
\<close>

lemma outbox_step_inv:
  assumes c: "codec_ok c" and li: "log_inv c db es" and oi: "outbox_inv c db acked queued" and d: "D b acked queued"
    and app: "\<And>b acked queued ev. D b acked queued \<Longrightarrow> D b acked (queued @ [ev])"
    and drn: "\<And>mk. x = ODrain mk \<Longrightarrow> \<exists>acked' queued'. outbox_inv c (fst (snd (drain c publish mk db b))) acked' queued'
        \<and> D (snd (snd (drain c publish mk db b))) acked' queued'"
    and bus: "\<And>f. x = OBus f \<Longrightarrow> D (f b) acked queued"
    and s: "outbox_step c publish x (db, b) = (db', b')"
  shows "\<exists>es acked queued. log_inv c db' es \<and> outbox_inv c db' acked queued \<and> D b' acked queued"
proof (cases x)
  case (OGrant now gtor gtee vs sc)
  from append_granted_inv [OF c li] obtain db1 where
    db1: "append_granted c now gtor gtee vs sc db = Inr (gl_next_seq db, db1)"
      "log_inv c db1 (es @ [Granted (gl_next_seq db) gtor gtee vs sc])" by blast
  from append_events(1) [OF db1(1)] obtain ev where ev: "gl_events db1 = gl_events db @ [ev]" "\<not> er_published ev" by blast
  from s db1(1) have "db' = db1" "b' = b" by (simp_all add: OGrant)
  with db1(2) outbox_inv_append [OF c db1(2) oi ev] app [OF d, of ev] show ?thesis by blast
next
  case (ORevoke now t)
  from append_revoked_inv [OF c li] obtain db1 where
    db1: "append_revoked c now t db = Inr db1" "log_inv c db1 (es @ [Revoked t])" by blast
  from append_events(2) [OF db1(1)] obtain ev where ev: "gl_events db1 = gl_events db @ [ev]" "\<not> er_published ev" by blast
  from s db1(1) have "db' = db1" "b' = b" by (simp_all add: ORevoke)
  with db1(2) outbox_inv_append [OF c db1(2) oi ev] app [OF d, of ev] show ?thesis by blast
next
  case (ODrain mk)
  from s have "fst (snd (drain c publish mk db b)) = db'" "snd (snd (drain c publish mk db b)) = b'" by (simp_all add: ODrain)
  with drn [OF ODrain] drain_log_inv [OF li, of publish mk b] show ?thesis by auto
next
  case (OBus f)
  with li oi bus [OF OBus] s show ?thesis by auto
qed

lemma run_outbox_inv:
  assumes c: "codec_ok c" and li: "log_inv c db es" and oi: "outbox_inv c db acked queued" and d: "D b acked queued"
    and app: "\<And>b acked queued ev. D b acked queued \<Longrightarrow> D b acked (queued @ [ev])"
    and drn: "\<And>mk db b acked queued. ODrain mk \<in> set xs \<Longrightarrow> outbox_inv c db acked queued \<Longrightarrow> D b acked queued \<Longrightarrow>
        \<exists>acked' queued'. outbox_inv c (fst (snd (drain c publish mk db b))) acked' queued'
          \<and> D (snd (snd (drain c publish mk db b))) acked' queued'"
    and bus: "\<And>f b acked queued. OBus f \<in> set xs \<Longrightarrow> D b acked queued \<Longrightarrow> D (f b) acked queued"
    and run: "run_outbox c publish xs (db, b) = (db', b')"
  shows "\<exists>es acked queued. log_inv c db' es \<and> outbox_inv c db' acked queued \<and> D b' acked queued"
  using li oi d drn bus run
proof (induction xs arbitrary: db b es acked queued)
  case Nil
  then show ?case by (auto simp: run_outbox_def)
next
  case (Cons x xs)
  obtain db1 b1 where s: "outbox_step c publish x (db, b) = (db1, b1)" by fastforce
  have "\<exists>es acked queued. log_inv c db1 es \<and> outbox_inv c db1 acked queued \<and> D b1 acked queued"
    by (rule outbox_step_inv [where D = D, OF c Cons.prems(1-3) app _ _ s]) (use Cons.prems(2-5) in auto)
  then obtain es1 acked1 queued1 where i: "log_inv c db1 es1" "outbox_inv c db1 acked1 queued1" "D b1 acked1 queued1" by blast
  show ?case
  proof (rule Cons.IH [OF i])
    show "\<exists>acked' queued'. outbox_inv c (fst (snd (drain c publish mk db b))) acked' queued'
          \<and> D (snd (snd (drain c publish mk db b))) acked' queued'"
      if "ODrain mk \<in> set xs" "outbox_inv c db acked queued" "D b acked queued" for mk db b acked queued
      using Cons.prems(4) that by simp
    show "D (f b) acked queued" if "OBus f \<in> set xs" "D b acked queued" for f b acked queued
      using Cons.prems(5) that by simp
    show "run_outbox c publish xs (db1, b1) = (db', b')" using Cons.prems(6) s by (simp add: run_outbox_def)
  qed
qed

lemma outbox_inv_start: "outbox_inv c gl_empty [] []"
  by (simp add: outbox_inv_def gl_empty_def)

context grant_bus
begin

lemma run_outbox_seen:
  assumes c: "codec_ok c" and start: "delivered b0 = []"
    and quiet: "\<And>f b. OBus f \<in> set cmds \<Longrightarrow> delivered (f b) = delivered b"
    and run: "run_outbox c publish cmds (gl_empty, b0) = (db, b)"
  shows "\<exists>acked queued. outbox_inv c db acked queued \<and> seen (delivered b) (map (wire_of c) acked) (map (wire_of c) queued)"
proof -
  let ?D = "\<lambda>b acked queued. seen (delivered b) (map (wire_of c) acked) (map (wire_of c) queued)"
  have "\<exists>es acked queued. log_inv c db es \<and> outbox_inv c db acked queued \<and> ?D b acked queued"
  proof (rule run_outbox_inv [where D = ?D, OF c log_inv_empty outbox_inv_start _ _ _ _ run])
    show "?D b0 [] []" by (simp add: seen_def start)
    show "?D b acked (queued @ [ev])" if "?D b acked queued" for b acked queued ev
      using that by (cases queued) (auto simp: seen_def)
    show "?D (f b) acked queued" if "OBus f \<in> set cmds" "?D b acked queued" for f b acked queued
      using quiet that by simp
    show "\<exists>acked' queued'. outbox_inv c (fst (snd (drain c publish mk db b))) acked' queued'
          \<and> ?D (snd (snd (drain c publish mk db b))) acked' queued'"
      if "outbox_inv c db acked queued" "?D b acked queued" for mk db b acked queued
      by (rule drain_seen [OF that, of mk "fst (drain c publish mk db b)"]) simp
  qed
  then show ?thesis by blast
qed

end

context atomic_grant_bus
begin

lemma run_outbox_exact:
  assumes c: "codec_ok c" and start: "delivered b0 = []"
    and quiet: "\<And>f b. OBus f \<in> set cmds \<Longrightarrow> delivered (f b) = delivered b"
    and marks: "\<And>mk. ODrain mk \<in> set cmds \<Longrightarrow> mk = (\<lambda>_. None)"
    and run: "run_outbox c publish cmds (gl_empty, b0) = (db, b)"
  shows "\<exists>acked queued. outbox_inv c db acked queued \<and> delivered b = map (wire_of c) acked"
proof -
  let ?D = "\<lambda>b acked queued. delivered b = map (wire_of c) acked"
  have "\<exists>es acked queued. log_inv c db es \<and> outbox_inv c db acked queued \<and> ?D b acked queued"
  proof (rule run_outbox_inv [where D = ?D, OF c log_inv_empty outbox_inv_start _ _ _ _ run])
    show "\<exists>acked' queued'. outbox_inv c (fst (snd (drain c publish mk db b))) acked' queued'
          \<and> ?D (snd (snd (drain c publish mk db b))) acked' queued'"
      if "ODrain mk \<in> set cmds" "outbox_inv c db acked queued" "?D b acked queued" for mk db b acked queued
      unfolding marks [OF that(1)]
      by (rule drain_exact [OF that(2,3), of "fst (drain c publish (\<lambda>_. None) db b)"]) simp
  qed (use start quiet in auto)
  then show ?thesis by blast
qed

end

lemma outbox_split:
  assumes "outbox_inv c db acked queued"
  shows "traverse (into_envelope c) (gl_events db) = Inr (map (wire_of c) acked @ map (wire_of c) queued)"
    "pending c db = Inr (map (wire_of c) queued)"
proof -
  from assms have "traverse (into_envelope c) (gl_events db) = Inr (map (wire_of c) (gl_events db))"
    by (intro traverse_all envelope_of) (auto simp: outbox_inv_def)
  with assms show "traverse (into_envelope c) (gl_events db) = Inr (map (wire_of c) acked @ map (wire_of c) queued)"
    by (simp add: outbox_inv_def)
qed (rule pending_queued [OF assms])

lemma drain_outbox_inv:
  assumes "outbox_inv c db acked queued"
  shows "\<exists>acked' queued'. outbox_inv c (fst (snd (drain c publish mk db bus))) acked' queued'"
proof -
  have "\<exists>acked' queued'. outbox_inv c (fst (snd (drain_loop publish mk (map (wire_of c) queued) n db bus))) acked' queued'"
    if "outbox_inv c db acked queued" for n db acked bus
    using that
  proof (induction queued arbitrary: n db acked bus)
    case (Cons r queued)
    have stop: "\<exists>acked' queued'. outbox_inv c db acked' queued'" using Cons.prems by blast
    from stop Cons.IH [OF mark_head [OF Cons.prems]] show ?case
      by (cases "publish bus (wire_of c r)"; cases "fst (publish bus (wire_of c r))"; cases "mk (er_seq r)") simp_all
  qed auto
  with assms show ?thesis by (simp add: drain_def pending_queued [OF assms])
qed

lemma run_outbox_queue:
  assumes "codec_ok c" "run_outbox c publish cmds (gl_empty, b0) = (db, b)"
  shows "\<exists>acked queued. outbox_inv c db acked queued"
proof -
  let ?D = "\<lambda>_ _ _. True"
  have "\<exists>es acked queued. log_inv c db es \<and> outbox_inv c db acked queued \<and> ?D b acked queued"
  proof (rule run_outbox_inv [where D = ?D, OF assms(1) log_inv_empty outbox_inv_start _ _ _ _ assms(2)])
    show "\<exists>acked' queued'. outbox_inv c (fst (snd (drain c publish mk db b))) acked' queued' \<and> True"
      if "outbox_inv c db acked queued" for mk db b acked queued
      using drain_outbox_inv [OF that, of publish mk b] by simp
  qed simp_all
  then show ?thesis by blast
qed

lemma drain_up:
  assumes "outbox_inv c db acked qs" "\<not> mb_down b"
  shows "\<exists>db' marked rest. map (wire_of c) qs = marked @ rest \<and> pending c db' = Inr rest
      \<and> list_all (\<lambda>e. mk (we_seq e) = None) marked
      \<and> (case rest of
           [] \<Rightarrow> drain_loop mem_publish mk (map (wire_of c) qs) n db b
             = (Inr (n + length qs), db', b\<lparr>mb_published := mb_published b @ map (wire_of c) qs\<rparr>)
         | e # _ \<Rightarrow> (\<exists>x. mk (we_seq e) = Some x
             \<and> drain_loop mem_publish mk (map (wire_of c) qs) n db b
               = (Inl x, db', b\<lparr>mb_published := mb_published b @ marked @ [e]\<rparr>)))"
  using assms
proof (induction qs arbitrary: n db acked b)
  case Nil
  with pending_queued [OF Nil.prems(1)] show ?case by (intro exI [of _ db] exI [of _ "[]"]) simp
next
  case (Cons r qs)
  let ?b = "b\<lparr>mb_published := mb_published b @ [wire_of c r]\<rparr>"
  show ?case
  proof (cases "mk (er_seq r)")
    case (Some x)
    with Cons.prems pending_queued [OF Cons.prems(1)] show ?thesis
      by (intro exI [of _ db] exI [of _ "[]"] exI [of _ "map (wire_of c) (r # qs)"]) (simp add: mem_publish_def)
  next
    case None
    from Cons.prems(2) have "\<not> mb_down ?b" by simp
    from Cons.IH [OF mark_head [OF Cons.prems(1)] this, of "Suc n"] obtain db' marked rest where
      ih: "map (wire_of c) qs = marked @ rest" "pending c db' = Inr rest" "list_all (\<lambda>e. mk (we_seq e) = None) marked"
        "case rest of
           [] \<Rightarrow> drain_loop mem_publish mk (map (wire_of c) qs) (Suc n) (mark_published (er_seq r) db) ?b
             = (Inr (Suc n + length qs), db', ?b\<lparr>mb_published := mb_published ?b @ map (wire_of c) qs\<rparr>)
         | e # _ \<Rightarrow> (\<exists>x. mk (we_seq e) = Some x
             \<and> drain_loop mem_publish mk (map (wire_of c) qs) (Suc n) (mark_published (er_seq r) db) ?b
               = (Inl x, db', ?b\<lparr>mb_published := mb_published ?b @ marked @ [e]\<rparr>))" by blast
    show ?thesis
      using ih None Cons.prems(2)
      by (intro exI [of _ db'] exI [of _ "wire_of c r # marked"] exI [of _ rest]; cases rest)
         (simp_all add: mem_publish_def)
  qed
qed

section \<open>Properties\<close>

text \<open>
  C9. The outbox delivers at least once, in order, without gaps. Take any bus that delivers what it
  acknowledges, and any history of appends, bus changes and drains in which publishes and marks may fail
  at any point, also after the event was delivered. The log splits into an acknowledged prefix and the
  pending queue, and what consumers received, immediate repeats dropped, is the acknowledged prefix or
  that prefix and the first queued event: nothing acknowledged is lost, nothing is skipped or reordered,
  and only the event at the head of the queue can arrive again. If no mark fails and a failed publish
  delivers nothing, consumers received exactly the acknowledged prefix, each event once.
\<close>

theorem outbox_at_least_once:
  assumes "grant_bus publish delivered" "codec_ok c" "delivered b0 = []"
    and "\<forall>f b. OBus f \<in> set cmds \<longrightarrow> delivered (f b) = delivered b"
    and "run_outbox c publish cmds (gl_empty, b0) = (db, b)"
  shows "\<exists>acked queued. traverse (into_envelope c) (gl_events db) = Inr (acked @ queued)
    \<and> pending c db = Inr queued \<and> distinct (map we_seq (acked @ queued))
    \<and> (remdups_adj (delivered b) = acked \<or> queued \<noteq> [] \<and> remdups_adj (delivered b) = acked @ [hd queued])
    \<and> (atomic_grant_bus publish delivered \<and> (\<forall>mk. ODrain mk \<in> set cmds \<longrightarrow> mk = (\<lambda>_. None))
         \<longrightarrow> delivered b = acked)"
proof -
  from grant_bus.run_outbox_seen [OF assms(1-3) _ assms(5)] assms(4) obtain acked queued where
    inv: "outbox_inv c db acked queued" and s: "seen (delivered b) (map (wire_of c) acked) (map (wire_of c) queued)" by blast
  have ex: "delivered b = map (wire_of c) acked"
    if a: "atomic_grant_bus publish delivered" and m: "\<forall>mk. ODrain mk \<in> set cmds \<longrightarrow> mk = (\<lambda>_. None)"
  proof -
    from atomic_grant_bus.run_outbox_exact [OF a assms(2,3) _ _ assms(5)] assms(4) m obtain acked' queued' where
      inv': "outbox_inv c db acked' queued'" and d: "delivered b = map (wire_of c) acked'" by blast
    from outbox_split [OF inv] outbox_split [OF inv'] have "map (wire_of c) acked' = map (wire_of c) acked" by simp
    with d show ?thesis by simp
  qed
  show ?thesis
    using outbox_split [OF inv] outbox_distinct(2) [OF inv] s ex
    by (intro exI [of _ "map (wire_of c) acked"] exI [of _ "map (wire_of c) queued"]) (simp add: seen_def comp_def)
qed

theorem outbox_at_least_once_witness:
  "\<exists>db b acked queued. run_outbox bits_codec mem_publish
      [OGrant 0 Operator (PAgent ''a'') {VRead} (Name ''n''), ODrain (\<lambda>_. Some Index), ODrain (\<lambda>_. None),
       OBus (set_down True), ORevoke 1 1, ODrain (\<lambda>_. None)] (gl_empty, bus_new) = (db, b)
    \<and> traverse (into_envelope bits_codec) (gl_events db) = Inr (acked @ queued) \<and> pending bits_codec db = Inr queued
    \<and> (remdups_adj (mb_published b) = acked \<or> queued \<noteq> [] \<and> remdups_adj (mb_published b) = acked @ [hd queued])"
proof -
  let ?cmds = "[OGrant 0 Operator (PAgent ''a'') {VRead} (Name ''n''), ODrain (\<lambda>_. Some Index), ODrain (\<lambda>_. None),
       OBus (set_down True), ORevoke 1 1, ODrain (\<lambda>_. None)]"
  obtain db b where run: "run_outbox bits_codec mem_publish ?cmds (gl_empty, bus_new) = (db, b)" by fastforce
  have "\<forall>f b. OBus f \<in> set ?cmds \<longrightarrow> mb_published (f b) = mb_published b" by (auto simp: set_down_def)
  from outbox_at_least_once [OF mem_bus.grant_bus_axioms bits_codec_ok _ this run] run show ?thesis
    by (simp add: bus_new_def) blast
qed

text \<open>
  C18. A healthy bus empties the outbox. After any history, with the bus up and marks that succeed, one
  drain succeeds, reports the number of queued events, leaves nothing pending and the whole log delivered;
  when a mark fails, the drain delivers up to and including that event, returns its error and leaves it
  and the rest queued; with the bus down, a drain of a non-empty queue fails with a bus error and changes
  nothing.
\<close>

theorem drain_delivers_queue:
  assumes "codec_ok c" "run_outbox c mem_publish cmds (gl_empty, bus_new) = (db, b)" "pending c db = Inr queued"
  shows "if mb_down b
    then drain c mem_publish mk db b = (if queued = [] then Inr 0 else Inl Bus, db, b)
    else \<exists>db' marked rest. queued = marked @ rest \<and> pending c db' = Inr rest
      \<and> list_all (\<lambda>e. mk (we_seq e) = None) marked
      \<and> (case rest of
           [] \<Rightarrow> drain c mem_publish mk db b = (Inr (length queued), db', b\<lparr>mb_published := mb_published b @ queued\<rparr>)
         | e # _ \<Rightarrow> (\<exists>x. mk (we_seq e) = Some x
             \<and> drain c mem_publish mk db b = (Inl x, db', b\<lparr>mb_published := mb_published b @ marked @ [e]\<rparr>)))"
proof -
  from run_outbox_queue [OF assms(1,2)] obtain acked qs where inv: "outbox_inv c db acked qs" by blast
  note q = pending_queued [OF inv]
  show ?thesis
  proof (cases "mb_down b")
    case True
    then show ?thesis using assms(3) q by (cases qs) (auto simp: drain_def mem_publish_def)
  next
    case False
    have "queued = map (wire_of c) qs" using assms(3) q by simp
    moreover have "drain c mem_publish mk db b = drain_loop mem_publish mk (map (wire_of c) qs) 0 db b"
      by (simp add: drain_def q)
    moreover obtain db' marked rest where up: "map (wire_of c) qs = marked @ rest" "pending c db' = Inr rest"
      "list_all (\<lambda>e. mk (we_seq e) = None) marked"
      "case rest of
           [] \<Rightarrow> drain_loop mem_publish mk (map (wire_of c) qs) 0 db b
             = (Inr (0 + length qs), db', b\<lparr>mb_published := mb_published b @ map (wire_of c) qs\<rparr>)
         | e # _ \<Rightarrow> (\<exists>x. mk (we_seq e) = Some x
             \<and> drain_loop mem_publish mk (map (wire_of c) qs) 0 db b
               = (Inl x, db', b\<lparr>mb_published := mb_published b @ marked @ [e]\<rparr>))"
      using drain_up [OF inv False, of mk 0] by blast
    moreover from up(1) have "length qs = length marked + length rest" by (metis length_append length_map)
    ultimately show ?thesis unfolding if_not_P [OF False]
      by (intro exI [of _ db'] exI [of _ marked] exI [of _ rest]; cases rest) simp_all
  qed
qed

theorem drain_delivers_queue_witness:
  "\<exists>db db' q. run_outbox bits_codec mem_publish [OGrant 0 Operator (PAgent ''a'') {VRead} (Name ''n'')]
      (gl_empty, bus_new) = (db, bus_new) \<and> pending bits_codec db = Inr q
    \<and> drain bits_codec mem_publish (\<lambda>_. None) db bus_new = (Inr (length q), db', bus_new\<lparr>mb_published := q\<rparr>)"
proof -
  let ?xs = "[OGrant 0 Operator (PAgent ''a'') {VRead} (Name ''n'')]"
  obtain db where r: "run_outbox bits_codec mem_publish ?xs (gl_empty, bus_new) = (db, bus_new)"
    using append_granted_inv [OF bits_codec_ok log_inv_empty, of 0 Operator "PAgent ''a''" "{VRead}" "Name ''n''"]
    by (auto simp: run_outbox_def)
  from run_outbox_queue [OF bits_codec_ok r] outbox_split(2)
  obtain q where q: "pending bits_codec db = Inr q" by blast
  from drain_delivers_queue [OF bits_codec_ok r q, of "\<lambda>_. None"] obtain db' marked rest where
    "case rest of
       [] \<Rightarrow> drain bits_codec mem_publish (\<lambda>_. None) db bus_new = (Inr (length q), db', bus_new\<lparr>mb_published := mb_published bus_new @ q\<rparr>)
     | e # _ \<Rightarrow> (\<exists>x. None = Some x
         \<and> drain bits_codec mem_publish (\<lambda>_. None) db bus_new = (Inl x, db', bus_new\<lparr>mb_published := mb_published bus_new @ marked @ [e]\<rparr>))"
    by (simp add: bus_new_def) blast
  with r q show ?thesis by (cases rest) (simp_all add: bus_new_def)
qed

end
