(* ===== verification/Tokens.thy ===== *)
theory Tokens
  imports Grant_Log
begin

text \<open>
  Capability tokens, \<^verbatim>\<open>services/fq-store/src/tokens.rs\<close>: mint, verify, attenuate and the two
  per-operation decisions. The datalog programs the module writes are modelled as data (facts,
  checks, policies) with their datalog meaning; the biscuit library that signs, serialises and runs
  them is a parameter, and what the module relies on is \<open>biscuit_ok\<close>. The lemmas show that an
  attenuated token decides exactly its parent's decision narrowed by the new scope and verbs, and
  that a minted token carries exactly the principal's live grants until it expires.
\<close>

section \<open>Scope references and time\<close>

datatype scope_ref = RName name | RNamespace name

fun ref_kind :: "scope_ref \<Rightarrow> string" where
  "ref_kind (RName _) = ''name''"
| "ref_kind (RNamespace _) = ''namespace''"

fun ref_value :: "scope_ref \<Rightarrow> string" where
  "ref_value (RName v) = v"
| "ref_value (RNamespace v) = v"

fun ref_of_scope :: "scope \<Rightarrow> scope_ref" where
  "ref_of_scope (Name v) = RName v"
| "ref_of_scope (Namespace v) = RNamespace v"

text \<open>A \<^verbatim>\<open>SystemTime\<close> is nanoseconds relative to the epoch; datalog dates are whole seconds.\<close>

type_synonym system_time = int

definition date_term :: "system_time \<Rightarrow> nat" where
  "date_term at = (if at < 0 then 0 else nat (at div 10 ^ 9))"

section \<open>The datalog the module writes\<close>

datatype fact = PrincipalFact string | RightFact string string string

text \<open>
  The checks, by the text they are written as: \<^verbatim>\<open>time($t), $t <= {expiry}\<close>;
  \<^verbatim>\<open>resource($r), scope_kind("name"), $r == {name}\<close>;
  \<^verbatim>\<open>resource($r), $r == {ns} || $r.starts_with({ns_dot})\<close>;
  \<^verbatim>\<open>operation($op), {verbs}.contains($op)\<close>.
\<close>

datatype check =
    CheckTime nat
  | CheckName string
  | CheckNamespace string string
  | CheckVerbs "string set"

record block =
  bl_facts :: "fact list"
  bl_checks :: "check list"

text \<open>The facts an authorizer presents for one operation.\<close>

record ambient =
  am_time :: nat
  am_operation :: string
  am_resource :: string
  am_scope_kind :: string

fun check_holds :: "ambient \<Rightarrow> check \<Rightarrow> bool" where
  "check_holds am (CheckTime expiry) = (am_time am \<le> expiry)"
| "check_holds am (CheckName n) = (am_scope_kind am = ''name'' \<and> am_resource am = n)"
| "check_holds am (CheckNamespace ns ns_dot) =
     (am_resource am = ns \<or> starts_with (am_resource am) ns_dot)"
| "check_holds am (CheckVerbs vs) = (am_operation am \<in> vs)"

text \<open>Policies run in order over the authority block's facts; the first that matches decides.\<close>

datatype policy = AllowNameRight | AllowNamespaceRight | AllowNamespaceDotRight | DenyAll | AllowAll

fun policy_matches :: "fact list \<Rightarrow> ambient \<Rightarrow> policy \<Rightarrow> bool" where
  "policy_matches fs am AllowNameRight =
     (am_scope_kind am = ''name''
      \<and> RightFact (am_operation am) ''name'' (am_resource am) \<in> set fs)"
| "policy_matches fs am AllowNamespaceRight =
     (RightFact (am_operation am) ''namespace'' (am_resource am) \<in> set fs)"
| "policy_matches fs am AllowNamespaceDotRight =
     list_ex (\<lambda>f. case f of
         RightFact v k ns \<Rightarrow> v = am_operation am \<and> k = ''namespace'' \<and> starts_with (am_resource am) (ns @ ''.'')
       | PrincipalFact _ \<Rightarrow> False) fs"
| "policy_matches fs am DenyAll = True"
| "policy_matches fs am AllowAll = True"

fun is_allow :: "policy \<Rightarrow> bool" where
  "is_allow DenyAll = False"
| "is_allow _ = True"

definition run_policies :: "fact list \<Rightarrow> ambient \<Rightarrow> policy list \<Rightarrow> bool" where
  "run_policies fs am ps = (case find (policy_matches fs am) ps of Some p \<Rightarrow> is_allow p | None \<Rightarrow> False)"

section \<open>The biscuit library\<close>

text \<open>
  Opaque tokens \<open>'t\<close>, their base64 text \<open>'w\<close>, private keys \<open>'k\<close> and public keys \<open>'p\<close>.
  \<open>bi_blocks\<close> are the blocks of a token, authority first; \<open>bi_within\<close> says that an evaluation
  stays inside the run limits, \<open>bi_query_within\<close> that the query for the principal does.
\<close>

record ('k, 'p, 't, 'w) biscuit =
  bi_public :: "'k \<Rightarrow> 'p"
  bi_build :: "'k \<Rightarrow> block \<Rightarrow> 't option"
  bi_append :: "'t \<Rightarrow> block \<Rightarrow> 't option"
  bi_to_base64 :: "'t \<Rightarrow> 'w option"
  bi_from_base64 :: "'w \<Rightarrow> 'p \<Rightarrow> 't option"
  bi_blocks :: "'t \<Rightarrow> block list"
  bi_signed :: "'p \<Rightarrow> 't \<Rightarrow> bool"
  bi_within :: "'t \<Rightarrow> ambient \<Rightarrow> bool"
  bi_query_within :: "'t \<Rightarrow> bool"

text \<open>
  Documented behaviour: building puts the block in the authority position and signs it; appending
  adds one block behind the others under the same root key; text made from a token parses back to it
  under its root key, and only correctly signed text parses.
\<close>

definition biscuit_ok :: "('k, 'p, 't, 'w) biscuit \<Rightarrow> bool" where
  "biscuit_ok bi \<longleftrightarrow>
     (\<forall>k b t. bi_build bi k b = Some t \<longrightarrow> bi_blocks bi t = [b] \<and> bi_signed bi (bi_public bi k) t)
     \<and> (\<forall>t b t'. bi_append bi t b = Some t' \<longrightarrow> bi_blocks bi t' = bi_blocks bi t @ [b]
          \<and> (\<forall>p. bi_signed bi p t \<longrightarrow> bi_signed bi p t'))
     \<and> (\<forall>t s p. bi_to_base64 bi t = Some s \<and> bi_signed bi p t \<longrightarrow> bi_from_base64 bi s p = Some t)
     \<and> (\<forall>s p t. bi_from_base64 bi s p = Some t \<longrightarrow> bi_signed bi p t \<and> bi_blocks bi t \<noteq> [])"

section \<open>Mint, verify, attenuate\<close>

definition or_token :: "'a option \<Rightarrow> 'a result" where
  "or_token x = (case x of Some y \<Rightarrow> Inr y | None \<Rightarrow> Inl Token)"

record 'k token_minter =
  tm_keypair :: 'k
  tm_ttl :: int

definition right_facts :: "live_grant_row list \<Rightarrow> fact list" where
  "right_facts grants = concat (map (\<lambda>g.
     map (\<lambda>v. RightFact (verb_as_str v) (scope_kind (lg_scope g)) (scope_value (lg_scope g)))
       (filter (\<lambda>v. v \<in> lg_verbs g) verb_ALL)) grants)"

definition mint :: "('k, 'p, 't, 'w) biscuit \<Rightarrow> 'k token_minter \<Rightarrow> system_time \<Rightarrow> principal \<Rightarrow> live_grant_row list \<Rightarrow> 'w result" where
  "mint bi m now p grants =
     (case p of PAgent agent \<Rightarrow>
       let expiry = now + tm_ttl m;
           authority = \<lparr>bl_facts = PrincipalFact agent # right_facts grants,
                        bl_checks = [CheckTime (date_term expiry)]\<rparr>
       in bindR (or_token (bi_build bi (tm_keypair m) authority)) (\<lambda>t. or_token (bi_to_base64 bi t)))"

definition mint_for ::
  "('k, 'p, 't, 'w) biscuit \<Rightarrow> verbs_codec \<Rightarrow> 'k token_minter \<Rightarrow> system_time \<Rightarrow> grant_log \<Rightarrow> principal \<Rightarrow> 'w result"
where
  "mint_for bi c m now db p = bindR (live_grants_for c db p) (mint bi m now p)"

record 't verified_token =
  vt_token :: 't
  vt_principal :: principal

definition principals_of :: "block list \<Rightarrow> string list" where
  "principals_of bs = remdups (List.map_filter
     (\<lambda>f. case f of PrincipalFact a \<Rightarrow> Some a | RightFact _ _ _ \<Rightarrow> None) (bl_facts (hd bs)))"

definition verify :: "('k, 'p, 't, 'w) biscuit \<Rightarrow> 'p \<Rightarrow> 'w \<Rightarrow> 't verified_token result" where
  "verify bi root token_b64 =
     bindR (or_token (bi_from_base64 bi token_b64 root)) (\<lambda>t.
       if \<not> bi_query_within bi t then Inl Token
       else case principals_of (bi_blocks bi t) of
         [agent] \<Rightarrow> Inr \<lparr>vt_token = t, vt_principal = PAgent agent\<rparr>
       | _ \<Rightarrow> Inl Token)"

definition attenuation_block :: "scope option \<Rightarrow> verb set option \<Rightarrow> block" where
  "attenuation_block sc vs = \<lparr>bl_facts = [],
     bl_checks =
       (case sc of None \<Rightarrow> []
        | Some (Name n) \<Rightarrow> [CheckName n]
        | Some (Namespace ns) \<Rightarrow> [CheckNamespace ns (ns @ ''.'')])
       @ (case vs of None \<Rightarrow> [] | Some w \<Rightarrow> [CheckVerbs (verb_as_str ` w)])\<rparr>"

definition attenuate :: "('k, 'p, 't, 'w) biscuit \<Rightarrow> 'p \<Rightarrow> 'w \<Rightarrow> scope option \<Rightarrow> verb set option \<Rightarrow> 'w result" where
  "attenuate bi root token_b64 sc vs =
     bindR (or_token (bi_from_base64 bi token_b64 root)) (\<lambda>t.
     bindR (or_token (bi_append bi t (attenuation_block sc vs))) (\<lambda>t'.
     or_token (bi_to_base64 bi t')))"

section \<open>Decisions\<close>

definition ambient_of :: "verb \<Rightarrow> scope_ref \<Rightarrow> system_time \<Rightarrow> ambient" where
  "ambient_of v r at = \<lparr>am_time = date_term at, am_operation = verb_as_str v,
     am_resource = ref_value r, am_scope_kind = ref_kind r\<rparr>"

definition evaluate :: "('k, 'p, 't, 'w) biscuit \<Rightarrow> 't verified_token \<Rightarrow> verb \<Rightarrow> scope_ref \<Rightarrow> system_time \<Rightarrow> bool \<Rightarrow> bool" where
  "evaluate bi vt v r at require_right =
     (let am = ambient_of v r at;
          blocks = bi_blocks bi (vt_token vt);
          policies = (if require_right
            then [AllowNameRight, AllowNamespaceRight, AllowNamespaceDotRight, DenyAll]
            else [AllowAll])
      in bi_within bi (vt_token vt) am
         \<and> list_all (\<lambda>b. list_all (check_holds am) (bl_checks b)) blocks
         \<and> run_policies (bl_facts (hd blocks)) am policies)"

definition authorizes :: "('k, 'p, 't, 'w) biscuit \<Rightarrow> 't verified_token \<Rightarrow> verb \<Rightarrow> scope_ref \<Rightarrow> system_time \<Rightarrow> bool" where
  "authorizes bi vt v r at = evaluate bi vt v r at True"

definition permits :: "('k, 'p, 't, 'w) biscuit \<Rightarrow> 't verified_token \<Rightarrow> verb \<Rightarrow> scope_ref \<Rightarrow> system_time \<Rightarrow> bool" where
  "permits bi vt v r at = evaluate bi vt v r at False"

section \<open>Meaning of checks and policies\<close>

text \<open>The scope an operation's reference denotes.\<close>

fun scope_of_ref :: "scope_ref \<Rightarrow> scope" where
  "scope_of_ref (RName v) = Name v"
| "scope_of_ref (RNamespace v) = Namespace v"

lemma verb_as_str_inj: "verb_as_str v = verb_as_str w \<longleftrightarrow> v = w"
  by (cases v; cases w) simp_all

lemma starts_with_dot: "(r = ns \<or> starts_with r (ns @ ''.'')) \<longleftrightarrow> namespace_covers ns r"
  by (auto simp: namespace_covers_iff starts_with_iff)

lemma attenuation_holds:
  "list_all (check_holds (ambient_of v r at)) (bl_checks (attenuation_block sc vs)) \<longleftrightarrow>
     (\<forall>s. sc = Some s \<longrightarrow> covers_scope s (scope_of_ref r)) \<and> (\<forall>w. vs = Some w \<longrightarrow> v \<in> w)"
proof -
  have "(verb_as_str v \<in> verb_as_str ` w) = (v \<in> w)" for w
    by (auto simp: image_iff verb_as_str_inj)
  then show ?thesis
    by (cases r) (auto simp: attenuation_block_def ambient_of_def starts_with_dot split: option.splits scope.splits)
qed

lemma scope_is:
  "scope_kind s = ''name'' \<and> scope_value s = x \<longleftrightarrow> s = Name x"
  "scope_kind s = ''namespace'' \<and> scope_value s = x \<longleftrightarrow> s = Namespace x"
  by (cases s; auto)+

lemma right_fact_in:
  "RightFact (verb_as_str v) k x \<in> set (right_facts grants) \<longleftrightarrow>
     (\<exists>g \<in> set grants. v \<in> lg_verbs g \<and> scope_kind (lg_scope g) = k \<and> scope_value (lg_scope g) = x)"
proof -
  have "v \<in> set verb_ALL" by (cases v) (simp_all add: verb_ALL_def)
  then show ?thesis by (auto simp: right_facts_def verb_as_str_inj)
qed

lemma list_ex_right:
  "list_ex (\<lambda>f. case f of RightFact v k ns \<Rightarrow> P v k ns | PrincipalFact _ \<Rightarrow> False) fs
   = (\<exists>v k ns. RightFact v k ns \<in> set fs \<and> P v k ns)"
  by (induction fs) (auto split: fact.splits)

lemma rights_match:
  fixes a grants v r at
  defines "fs \<equiv> PrincipalFact a # right_facts grants" and "am \<equiv> ambient_of v r at"
  shows "policy_matches fs am AllowNameRight \<longleftrightarrow>
      (\<exists>g \<in> set grants. v \<in> lg_verbs g \<and> (\<exists>n. lg_scope g = Name n \<and> r = RName n))"
    "policy_matches fs am AllowNamespaceRight \<longleftrightarrow>
      (\<exists>g \<in> set grants. v \<in> lg_verbs g \<and> lg_scope g = Namespace (ref_value r))"
    "policy_matches fs am AllowNamespaceDotRight \<longleftrightarrow>
      (\<exists>g \<in> set grants. v \<in> lg_verbs g \<and> (\<exists>n. lg_scope g = Namespace n \<and> starts_with (ref_value r) (n @ ''.'')))"
proof -
  have am: "am_operation am = verb_as_str v" "am_resource am = ref_value r" "am_scope_kind am = ref_kind r"
    by (simp_all add: am_def ambient_of_def)
  have right: "RightFact (verb_as_str v) k x \<in> set fs \<longleftrightarrow>
      (\<exists>g \<in> set grants. v \<in> lg_verbs g \<and> scope_kind (lg_scope g) = k \<and> scope_value (lg_scope g) = x)" for k x
    by (simp add: fs_def right_fact_in)
  show "policy_matches fs am AllowNameRight \<longleftrightarrow>
      (\<exists>g \<in> set grants. v \<in> lg_verbs g \<and> (\<exists>n. lg_scope g = Name n \<and> r = RName n))"
    by (cases r) (simp_all add: am right scope_is)
  show "policy_matches fs am AllowNamespaceRight \<longleftrightarrow>
      (\<exists>g \<in> set grants. v \<in> lg_verbs g \<and> lg_scope g = Namespace (ref_value r))"
    by (simp add: am right scope_is)
  have "policy_matches fs am AllowNamespaceDotRight \<longleftrightarrow>
      (\<exists>ns. RightFact (verb_as_str v) ''namespace'' ns \<in> set fs \<and> starts_with (ref_value r) (ns @ ''.''))"
    by (simp add: am list_ex_right)
  then show "policy_matches fs am AllowNamespaceDotRight \<longleftrightarrow>
      (\<exists>g \<in> set grants. v \<in> lg_verbs g \<and> (\<exists>n. lg_scope g = Namespace n \<and> starts_with (ref_value r) (n @ ''.'')))"
    by (auto simp: right scope_is)
qed

lemma covers_scope_ref:
  "covers_scope s (scope_of_ref r) \<longleftrightarrow> (\<exists>n. s = Name n \<and> r = RName n)
     \<or> s = Namespace (ref_value r) \<or> (\<exists>n. s = Namespace n \<and> starts_with (ref_value r) (n @ ''.''))"
  by (cases s; cases r) (auto simp: starts_with_dot [symmetric])

lemma rights_decide:
  "run_policies (PrincipalFact a # right_facts grants) (ambient_of v r at)
     [AllowNameRight, AllowNamespaceRight, AllowNamespaceDotRight, DenyAll]
   \<longleftrightarrow> (\<exists>g \<in> set grants. v \<in> lg_verbs g \<and> covers_scope (lg_scope g) (scope_of_ref r))"
  (is "run_policies ?fs ?am _ \<longleftrightarrow> _")
proof -
  have "run_policies ?fs ?am [AllowNameRight, AllowNamespaceRight, AllowNamespaceDotRight, DenyAll]
      \<longleftrightarrow> policy_matches ?fs ?am AllowNameRight \<or> policy_matches ?fs ?am AllowNamespaceRight
        \<or> policy_matches ?fs ?am AllowNamespaceDotRight"
    by (simp add: run_policies_def del: policy_matches.simps(1-3))
  then show ?thesis
    by (simp only: rights_match covers_scope_ref conj_disj_distribL bex_disj_distrib)
qed

section \<open>Properties\<close>

lemma biscuit_blocks:
  assumes "biscuit_ok bi"
  shows "bi_build bi k b = Some t \<Longrightarrow> bi_blocks bi t = [b] \<and> bi_signed bi (bi_public bi k) t"
    "bi_append bi t b = Some t' \<Longrightarrow> bi_blocks bi t' = bi_blocks bi t @ [b]"
    "bi_append bi t b = Some t' \<Longrightarrow> bi_signed bi p t \<Longrightarrow> bi_signed bi p t'"
    "bi_to_base64 bi t = Some s \<Longrightarrow> bi_signed bi p t \<Longrightarrow> bi_from_base64 bi s p = Some t"
    "bi_from_base64 bi s p = Some t \<Longrightarrow> bi_signed bi p t \<and> bi_blocks bi t \<noteq> []"
  using assms unfolding biscuit_ok_def by blast+

text \<open>A concrete token library for the witnesses: a token is its root key and its blocks.\<close>

definition plain_biscuit :: "(nat, nat, nat \<times> block list, nat \<times> block list) biscuit" where
  "plain_biscuit = \<lparr>bi_public = (\<lambda>k. k), bi_build = (\<lambda>k b. Some (k, [b])),
     bi_append = (\<lambda>(k, bs) b. Some (k, bs @ [b])), bi_to_base64 = Some,
     bi_from_base64 = (\<lambda>(k, bs) p. if k = p \<and> bs \<noteq> [] then Some (k, bs) else None),
     bi_blocks = snd, bi_signed = (\<lambda>p (k, bs). k = p \<and> bs \<noteq> []), bi_within = (\<lambda>_ _. True),
     bi_query_within = (\<lambda>_. True)\<rparr>"

lemma plain_biscuit_ok: "biscuit_ok plain_biscuit"
  by (auto simp: biscuit_ok_def plain_biscuit_def split: if_splits)

text \<open>
  C19. Attenuation narrows, exactly. The token that \<open>attenuate\<close> returns verifies to the same
  principal (its verification can fail only on the run limits of the principal query), and within the run limits each of its decisions (with or without embedded rights, at any
  time) is the parent's decision conjoined with: the operation lies inside the given scope, in the
  sense of \<open>covers_scope\<close> for its kind, and its verb is among the given verbs.
\<close>

theorem attenuation_narrows:
  assumes bi: "biscuit_ok bi" and v: "verify bi root tok = Inr vt"
    and a: "attenuate bi root tok sc vs = Inr tok'"
  shows "\<exists>t' vt'. bi_from_base64 bi tok' root = Some t'
    \<and> verify bi root tok' = (if bi_query_within bi t' then Inr vt' else Inl Token)
    \<and> vt_token vt' = t' \<and> vt_principal vt' = vt_principal vt
    \<and> (\<forall>v r at rr. bi_within bi (vt_token vt) (ambient_of v r at) \<longrightarrow>
        evaluate bi vt' v r at rr \<longleftrightarrow>
          bi_within bi t' (ambient_of v r at) \<and> evaluate bi vt v r at rr
          \<and> (case sc of None \<Rightarrow> True | Some s \<Rightarrow> covers_scope s (scope_of_ref r))
          \<and> (case vs of None \<Rightarrow> True | Some w \<Rightarrow> v \<in> w))"
proof -
  from a obtain t t' where t: "bi_from_base64 bi tok root = Some t"
    and t': "bi_append bi t (attenuation_block sc vs) = Some t'" "bi_to_base64 bi t' = Some tok'"
    by (auto simp: attenuate_def or_token_def split: option.splits)
  note bb = biscuit_blocks [OF bi]
  from bb(5) [OF t] bb(3) [OF t'(1)] bb(4) [OF t'(2)]
  have from': "bi_from_base64 bi tok' root = Some t'" and ne: "bi_blocks bi t \<noteq> []" by auto
  have bs: "bi_blocks bi t' = bi_blocks bi t @ [attenuation_block sc vs]" by (rule bb(2) [OF t'(1)])
  from ne have hd: "hd (bi_blocks bi t') = hd (bi_blocks bi t)" by (simp add: bs)
  then have pr: "principals_of (bi_blocks bi t') = principals_of (bi_blocks bi t)"
    by (simp add: principals_of_def)
  from v t have vt: "vt_token vt = t" and one: "principals_of (bi_blocks bi t) = [case vt_principal vt of PAgent i \<Rightarrow> i]"
    by (auto simp: verify_def or_token_def split: list.splits if_splits)
  let ?vt' = "\<lparr>vt_token = t', vt_principal = vt_principal vt\<rparr>"
  have "verify bi root tok' = (if bi_query_within bi t' then Inr ?vt' else Inl Token)"
    using one by (simp add: verify_def or_token_def from' pr split: principal.splits)
  moreover have "evaluate bi ?vt' v r at rr \<longleftrightarrow>
          bi_within bi t' (ambient_of v r at) \<and> evaluate bi vt v r at rr
          \<and> (case sc of None \<Rightarrow> True | Some s \<Rightarrow> covers_scope s (scope_of_ref r))
          \<and> (case vs of None \<Rightarrow> True | Some w \<Rightarrow> v \<in> w)"
    if "bi_within bi t (ambient_of v r at)" for v r at rr
    using that hd unfolding evaluate_def Let_def vt verified_token.simps hd
    by (cases sc; cases vs) (simp_all only: bs list_all_append list.pred_inject attenuation_holds
          option.case option.inject option.distinct simp_thms conj_ac all_simps)
  ultimately show ?thesis unfolding vt by (intro exI [of _ t'] exI [of _ ?vt']) (simp add: from')
qed

theorem attenuation_narrows_witness:
  "\<exists>tok' vt'. attenuate plain_biscuit 1 (1, [\<lparr>bl_facts = [PrincipalFact ''a''], bl_checks = []\<rparr>])
        (Some (Name ''n'')) (Some {VRead}) = Inr tok'
    \<and> verify plain_biscuit 1 tok' = Inr vt' \<and> vt_principal vt' = PAgent ''a''
    \<and> evaluate plain_biscuit vt' VRead (RName ''n'') 0 False
    \<and> \<not> evaluate plain_biscuit vt' VRead (RNamespace ''n'') 0 False"
proof -
  let ?b = "\<lparr>bl_facts = [PrincipalFact ''a''], bl_checks = []\<rparr>"
  let ?tok = "(1, [?b])"
  let ?tok' = "(1, [?b, attenuation_block (Some (Name ''n'')) (Some {VRead})])"
  let ?vt = "\<lparr>vt_token = ?tok, vt_principal = PAgent ''a''\<rparr>"
  have v: "verify plain_biscuit 1 ?tok = Inr ?vt"
    by (simp add: verify_def plain_biscuit_def or_token_def principals_of_def map_filter_def)
  have a: "attenuate plain_biscuit 1 ?tok (Some (Name ''n'')) (Some {VRead}) = Inr ?tok'"
    by (simp add: attenuate_def plain_biscuit_def or_token_def)
  have w: "bi_within plain_biscuit t am" "bi_query_within plain_biscuit t" for t am by (simp_all add: plain_biscuit_def)
  have e: "evaluate plain_biscuit ?vt VRead (RName ''n'') 0 False"
    by (simp add: evaluate_def Let_def plain_biscuit_def run_policies_def)
  from attenuation_narrows [OF plain_biscuit_ok v a] a e show ?thesis by (auto simp: w)
qed

lemma principals_minted:
  "principals_of [\<lparr>bl_facts = PrincipalFact a # right_facts gs, bl_checks = cs\<rparr>] = [a]"
proof -
  have "List.map_filter (\<lambda>f. case f of PrincipalFact a \<Rightarrow> Some a | RightFact _ _ _ \<Rightarrow> None) (right_facts gs) = []"
    by (auto simp: map_filter_def filter_empty_conv right_facts_def)
  then show ?thesis by (simp add: principals_of_def map_filter_def)
qed

lemma mint_decides:
  assumes bi: "biscuit_ok bi" and m: "mint bi m now p gs = Inr tok"
  shows "\<exists>t vt. bi_from_base64 bi tok (bi_public bi (tm_keypair m)) = Some t
    \<and> verify bi (bi_public bi (tm_keypair m)) tok = (if bi_query_within bi t then Inr vt else Inl Token)
    \<and> vt_token vt = t \<and> vt_principal vt = p
    \<and> (\<forall>v r at. authorizes bi vt v r at \<longleftrightarrow>
         bi_within bi t (ambient_of v r at) \<and> date_term at \<le> date_term (now + tm_ttl m)
         \<and> (\<exists>g \<in> set gs. v \<in> lg_verbs g \<and> covers_scope (lg_scope g) (scope_of_ref r)))"
proof -
  obtain a where p: "p = PAgent a" by (cases p)
  let ?b = "\<lparr>bl_facts = PrincipalFact a # right_facts gs, bl_checks = [CheckTime (date_term (now + tm_ttl m))]\<rparr>"
  from m obtain t where t: "bi_build bi (tm_keypair m) ?b = Some t" "bi_to_base64 bi t = Some tok"
    by (auto simp: mint_def p Let_def or_token_def split: option.splits)
  note bb = biscuit_blocks [OF bi]
  from bb(1) [OF t(1)] have bs: "bi_blocks bi t = [?b]" and "bi_signed bi (bi_public bi (tm_keypair m)) t" by auto
  with bb(4) [OF t(2)] have f: "bi_from_base64 bi tok (bi_public bi (tm_keypair m)) = Some t" by blast
  let ?vt = "\<lparr>vt_token = t, vt_principal = p\<rparr>"
  have "verify bi (bi_public bi (tm_keypair m)) tok = (if bi_query_within bi t then Inr ?vt else Inl Token)"
    by (simp add: verify_def f or_token_def bs principals_minted p)
  moreover have "authorizes bi ?vt v r at \<longleftrightarrow>
         bi_within bi t (ambient_of v r at) \<and> date_term at \<le> date_term (now + tm_ttl m)
         \<and> (\<exists>g \<in> set gs. v \<in> lg_verbs g \<and> covers_scope (lg_scope g) (scope_of_ref r))" for v r at
    using rights_decide [of a gs v r at] by (simp add: authorizes_def evaluate_def bs ambient_of_def)
  ultimately show ?thesis by (intro exI [of _ t] exI [of _ ?vt]) (simp add: f)
qed

text \<open>
  C20. A minted token carries exactly the live authority of its moment. After any history of the grant
  log, a token minted for \<open>p\<close> verifies under the minter's public key to \<open>p\<close> (unless the principal query exceeds the run limits), and its offline decision
  for any verb and any point or subtree resource is: within the run limits, not after the expiry
  second, and some live grant to \<open>p\<close> holds the verb and covers the resource's scope.
\<close>

theorem minted_rights_exact:
  assumes bi: "biscuit_ok bi" and c: "codec_ok c" and run: "run_cmds c cmds gl_empty = Inr db"
    and mint: "mint_for bi c m now db p = Inr tok"
  shows "\<exists>t vt. bi_from_base64 bi tok (bi_public bi (tm_keypair m)) = Some t
    \<and> verify bi (bi_public bi (tm_keypair m)) tok = (if bi_query_within bi t then Inr vt else Inl Token)
    \<and> vt_token vt = t \<and> vt_principal vt = p
    \<and> (\<forall>v r at. authorizes bi vt v r at \<longleftrightarrow>
         bi_within bi t (ambient_of v r at) \<and> date_term at \<le> date_term (now + tm_ttl m)
         \<and> (\<exists>i g. live_grant (gm_replay (cmd_events 1 cmds)) i
              \<and> (i, g) \<in> set (gm_grants (gm_replay (cmd_events 1 cmds)))
              \<and> gr_grantee g = p \<and> v \<in> gr_verbs g \<and> covers_scope (gr_scope g) (scope_of_ref r)))"
proof -
  have inv: "log_inv c db (cmd_events 1 cmds)"
    using run_empty_inv [OF c, of cmds] run by simp
  let ?gs = "map (\<lambda>(i, g). \<lparr>lg_id = i, lg_verbs = gr_verbs g, lg_scope = gr_scope g\<rparr>)
    (filter (\<lambda>(i, g). gr_grantee g = p \<and> live_grant (gm_replay (cmd_events 1 cmds)) i)
      (gm_grants (gm_replay (cmd_events 1 cmds))))"
  from mint have minted: "mint bi m now p ?gs = Inr tok"
    by (simp add: mint_for_def live_grants_project [OF c inv])
  have eq: "(\<exists>g \<in> set ?gs. v \<in> lg_verbs g \<and> covers_scope (lg_scope g) s) \<longleftrightarrow>
      (\<exists>i g. live_grant (gm_replay (cmd_events 1 cmds)) i
              \<and> (i, g) \<in> set (gm_grants (gm_replay (cmd_events 1 cmds)))
              \<and> gr_grantee g = p \<and> v \<in> gr_verbs g \<and> covers_scope (gr_scope g) s)" for v s
  proof -
    have "(\<exists>g \<in> set (map (\<lambda>(i, g). \<lparr>lg_id = i, lg_verbs = gr_verbs g, lg_scope = gr_scope g\<rparr>)
            (filter (\<lambda>(i, g). gr_grantee g = p \<and> L i) xs)). v \<in> lg_verbs g \<and> covers_scope (lg_scope g) s) \<longleftrightarrow>
        (\<exists>i g. L i \<and> (i, g) \<in> set xs \<and> gr_grantee g = p \<and> v \<in> gr_verbs g \<and> covers_scope (gr_scope g) s)"
      (is "(\<exists>g \<in> set (map ?f (filter ?P xs)). ?Q g) \<longleftrightarrow> _") for L xs
    proof -
      have "(\<exists>g \<in> set (map ?f (filter ?P xs)). ?Q g) \<longleftrightarrow> (\<exists>x. x \<in> set xs \<and> ?P x \<and> ?Q (?f x))" by auto
      then show ?thesis unfolding split_paired_Ex by (simp add: conj_ac)
    qed
    then show ?thesis .
  qed
  from mint_decides [OF bi minted] show ?thesis unfolding eq .
qed

theorem minted_rights_exact_witness:
  "\<exists>db tok vt. run_cmds bits_codec [AppendGranted 0 Operator (PAgent ''a'') {VRead} (Name ''n'')] gl_empty = Inr db
    \<and> mint_for plain_biscuit bits_codec \<lparr>tm_keypair = 5, tm_ttl = 300 * 10 ^ 9\<rparr> 0 db (PAgent ''a'') = Inr tok
    \<and> verify plain_biscuit 5 tok = Inr vt \<and> vt_principal vt = PAgent ''a''"
proof -
  let ?m = "\<lparr>tm_keypair = 5, tm_ttl = 300 * 10 ^ 9\<rparr>"
  obtain db where db: "run_cmds bits_codec [AppendGranted 0 Operator (PAgent ''a'') {VRead} (Name ''n'')] gl_empty = Inr db"
    and inv: "log_inv bits_codec db [Granted 1 Operator (PAgent ''a'') {VRead} (Name ''n'')]"
    using run_empty_inv [OF bits_codec_ok, of "[AppendGranted 0 Operator (PAgent ''a'') {VRead} (Name ''n'')]"] by auto
  obtain tok where tok: "mint_for plain_biscuit bits_codec ?m 0 db (PAgent ''a'') = Inr tok"
    by (simp add: mint_for_def live_grants_project [OF bits_codec_ok inv] mint_def or_token_def Let_def)
       (simp add: plain_biscuit_def)
  have key: "bi_public plain_biscuit (tm_keypair ?m) = 5" "bi_query_within plain_biscuit t" for t by (simp_all add: plain_biscuit_def)
  from minted_rights_exact [OF plain_biscuit_ok bits_codec_ok db tok] db tok show ?thesis
    unfolding key(1) by (simp only: key(2) simp_thms if_True) blast
qed

end
