(* ===== verification/Name_Index.thy ===== *)
theory Name_Index
  imports Grants Store_Types
begin

text \<open>
  The storage index, \<^verbatim>\<open>services/fq-store/src/index.rs\<close>: names and their versions, objects and
  blocks with reference counts, and the edges between them. The database is a record of its tables;
  every trait method is one transaction on it. Content ids, stored as hex text, appear as themselves.
  Refcounts are integers (SQLite's are signed), generations are naturals. The lemmas say what each
  operation does to the counts, and that namespace listing is exactly the segment-aware one.
\<close>

section \<open>Tables\<close>

record version_row =
  vr_name :: name
  vr_seq :: nat
  vr_cid :: cid

record object_row =
  ob_cid :: cid
  ob_refcount :: int
  ob_available :: bool
  ob_touched :: int

record edge =
  ed_object :: cid
  ed_block :: cid
  ed_generation :: nat

record block_row =
  bk_hash :: cid
  bk_generation :: nat
  bk_refcount :: int
  bk_available :: bool
  bk_touched :: int

record index =
  ix_versions :: "version_row list"
  ix_objects :: "object_row list"
  ix_edges :: "edge list"
  ix_blocks :: "block_row list"

definition ix_empty :: index where
  "ix_empty = \<lparr>ix_versions = [], ix_objects = [], ix_edges = [], ix_blocks = []\<rparr>"

section \<open>Names\<close>

text \<open>\<^verbatim>\<open>SELECT cid ... WHERE name = ? ORDER BY seq DESC\<close>\<close>

definition versions_desc :: "index \<Rightarrow> name \<Rightarrow> version_row list" where
  "versions_desc ix n = rev (sort_key vr_seq (filter (\<lambda>r. vr_name r = n) (ix_versions ix)))"

definition ix_history :: "index \<Rightarrow> name \<Rightarrow> cid list" where
  "ix_history ix n = map vr_cid (versions_desc ix n)"

definition ix_resolve :: "index \<Rightarrow> name \<Rightarrow> cid option" where
  "ix_resolve ix n = (case versions_desc ix n of [] \<Rightarrow> None | r # _ \<Rightarrow> Some (vr_cid r))"

definition next_seq :: "index \<Rightarrow> name \<Rightarrow> nat" where
  "next_seq ix n = (case filter (\<lambda>r. vr_name r = n) (ix_versions ix) of
     [] \<Rightarrow> 0 | rs \<Rightarrow> Max (vr_seq ` set rs) + 1)"

definition ix_list :: "index \<Rightarrow> name \<Rightarrow> name list" where
  "ix_list ix pre =
     (let names = map vr_name (ix_versions ix) in
      if pre = [] then sorted_list_of_set (set names)
      else sorted_list_of_set (set (filter (\<lambda>n. n = pre \<or> pre @ ''.'' \<le> n \<and> n < pre @ ''/'') names)))"

section \<open>Reference counts\<close>

definition dec_block :: "cid \<Rightarrow> nat \<Rightarrow> block_row list \<Rightarrow> block_row list" where
  "dec_block h g = upd_where (\<lambda>b. bk_hash b = h \<and> bk_generation b = g) (\<lambda>b. b\<lparr>bk_refcount := bk_refcount b - 1\<rparr>)"

definition ix_release_reservations :: "(cid \<times> nat) list \<Rightarrow> block_row list \<Rightarrow> block_row list" where
  "ix_release_reservations reserved bs = fold (\<lambda>(h, g). dec_block h g) reserved bs"

definition sub_object :: "cid \<Rightarrow> int \<Rightarrow> object_row list \<Rightarrow> object_row list" where
  "sub_object c m = upd_where (\<lambda>ob. ob_cid ob = c) (\<lambda>ob. ob\<lparr>ob_refcount := ob_refcount ob - m\<rparr>)"

text \<open>\<^verbatim>\<open>INSERT ... ON CONFLICT DO NOTHING\<close>: an edge's key is its object and block.\<close>

definition insert_edge :: "cid \<Rightarrow> cid \<times> nat \<Rightarrow> edge list \<Rightarrow> edge list" where
  "insert_edge c hg es = (case hg of (h, g) \<Rightarrow>
     if \<exists>e \<in> set es. ed_object e = c \<and> ed_block e = h then es
     else es @ [\<lparr>ed_object = c, ed_block = h, ed_generation = g\<rparr>])"

definition ix_bind :: "name \<Rightarrow> cid \<Rightarrow> (cid \<times> nat) list \<Rightarrow> int \<Rightarrow> index \<Rightarrow> index" where
  "ix_bind n c reserved prev_rc ix =
     (if ix_resolve ix n = Some c
      then ix\<lparr>ix_objects := sub_object c 1 (ix_objects ix),
             ix_blocks := ix_release_reservations reserved (ix_blocks ix)\<rparr>
      else
        (let ix' = ix\<lparr>ix_versions := ix_versions ix @ [\<lparr>vr_name = n, vr_seq = next_seq ix n, vr_cid = c\<rparr>]\<rparr> in
         if prev_rc = 0 then ix'\<lparr>ix_edges := fold (insert_edge c) reserved (ix_edges ix')\<rparr>
         else ix'\<lparr>ix_blocks := ix_release_reservations reserved (ix_blocks ix')\<rparr>))"

text \<open>
  \<^verbatim>\<open>unbind\<close>: one turn of its loop takes \<open>m\<close> references off an object and, when none is left,
  drops its edges and the block references they held. \<^verbatim>\<open>fetch_one\<close> fails, and the transaction
  rolls back, when the object has no row.
\<close>

definition drop_refs :: "cid \<Rightarrow> int \<Rightarrow> index \<Rightarrow> index result" where
  "drop_refs c m ix =
     (let objects = sub_object c m (ix_objects ix); ix' = ix\<lparr>ix_objects := objects\<rparr> in
      case find (\<lambda>ob. ob_cid ob = c) objects of
        None \<Rightarrow> Inl Index
      | Some ob \<Rightarrow>
          if ob_refcount ob = 0
          then (let edges = filter (\<lambda>e. ed_object e = c) (ix_edges ix') in
            Inr (ix'\<lparr>ix_blocks := fold (\<lambda>e. dec_block (ed_block e) (ed_generation e)) edges (ix_blocks ix'),
                     ix_edges := del_where (\<lambda>e. ed_object e = c) (ix_edges ix')\<rparr>))
          else Inr ix')"

definition ix_unbind :: "name \<Rightarrow> index \<Rightarrow> index result" where
  "ix_unbind n ix =
     (let cids = map vr_cid (filter (\<lambda>r. vr_name r = n) (ix_versions ix));
          refs = map (\<lambda>c. (c, int (count_list cids c))) (remdups cids);
          ix' = ix\<lparr>ix_versions := del_where (\<lambda>r. vr_name r = n) (ix_versions ix)\<rparr>
      in fold (\<lambda>(c, m) acc. bindR acc (drop_refs c m)) refs (Inr ix'))"

definition ix_unreferenced_objects :: "index \<Rightarrow> cid list" where
  "ix_unreferenced_objects ix = map ob_cid (filter (\<lambda>ob. ob_refcount ob = 0) (ix_objects ix))"

definition ix_unreferenced_blocks :: "index \<Rightarrow> cid list" where
  "ix_unreferenced_blocks ix = map bk_hash (filter (\<lambda>b. bk_refcount b = 0) (ix_blocks ix))"

section \<open>Blocks\<close>

definition ix_reserve_block :: "int \<Rightarrow> cid \<Rightarrow> index \<Rightarrow> nat option \<times> index" where
  "ix_reserve_block now h ix =
     (let P = (\<lambda>b. bk_hash b = h \<and> bk_available b) in
      (map_option bk_generation (find P (ix_blocks ix)),
       ix\<lparr>ix_blocks := upd_where P (\<lambda>b. b\<lparr>bk_refcount := bk_refcount b + 1, bk_touched := now\<rparr>) (ix_blocks ix)\<rparr>))"

definition ix_mint_block :: "int \<Rightarrow> cid \<Rightarrow> nat \<Rightarrow> index \<Rightarrow> bool \<times> index" where
  "ix_mint_block now h g ix =
     (if (\<exists>b \<in> set (ix_blocks ix). bk_hash b = h \<and> bk_available b)
         \<or> (\<exists>b \<in> set (ix_blocks ix). bk_hash b = h \<and> bk_generation b = g)
      then (False, ix)
      else (True, ix\<lparr>ix_blocks := ix_blocks ix @ [\<lparr>bk_hash = h, bk_generation = g, bk_refcount = 1,
                                 bk_available = True, bk_touched = now\<rparr>]\<rparr>))"

text \<open>The generation search: from 0 up while the number is used.\<close>

function next_free :: "nat list \<Rightarrow> nat \<Rightarrow> nat" where
  "next_free used g = (if g \<in> set used then next_free used (Suc g) else g)"
  by pat_completeness auto
termination
proof (relation "measure (\<lambda>(used, g). Suc (Max (insert 0 (set used))) - g)")
  fix used :: "nat list" and g
  assume "g \<in> set used"
  then have "g \<le> Max (insert 0 (set used))" by (intro Max_ge) auto
  then show "((used, Suc g), used, g) \<in> measure (\<lambda>(used, g). Suc (Max (insert 0 (set used))) - g)" by simp
qed simp

declare next_free.simps [simp del]

definition ix_next_generation :: "cid \<Rightarrow> index \<Rightarrow> nat" where
  "ix_next_generation h ix = next_free (map bk_generation (filter (\<lambda>b. bk_hash b = h) (ix_blocks ix))) 0"

definition ix_claim_block :: "cid \<Rightarrow> nat \<Rightarrow> index \<Rightarrow> bool \<times> index" where
  "ix_claim_block h g ix =
     (let P = (\<lambda>b. bk_hash b = h \<and> bk_generation b = g \<and> bk_refcount b = 0 \<and> bk_available b) in
      (rows_affected P (ix_blocks ix) = 1, ix\<lparr>ix_blocks := upd_where P (\<lambda>b. b\<lparr>bk_available := False\<rparr>) (ix_blocks ix)\<rparr>))"

definition ix_release_block :: "cid \<Rightarrow> nat \<Rightarrow> index \<Rightarrow> index" where
  "ix_release_block h g ix = ix\<lparr>ix_blocks := dec_block h g (ix_blocks ix)\<rparr>"

definition ix_reconcile_block :: "cid \<Rightarrow> nat \<Rightarrow> int \<Rightarrow> int \<Rightarrow> index \<Rightarrow> bool \<times> index" where
  "ix_reconcile_block h g to touched_before ix =
     (let P = (\<lambda>b. bk_hash b = h \<and> bk_generation b = g \<and> bk_refcount b > to \<and> bk_touched b \<le> touched_before) in
      (rows_affected P (ix_blocks ix) = 1, ix\<lparr>ix_blocks := upd_where P (\<lambda>b. b\<lparr>bk_refcount := to\<rparr>) (ix_blocks ix)\<rparr>))"

definition ix_claimable_blocks :: "index \<Rightarrow> (cid \<times> nat \<times> bool) list" where
  "ix_claimable_blocks ix = map (\<lambda>b. (bk_hash b, bk_generation b, bk_available b))
     (filter (\<lambda>b. bk_refcount b = 0) (ix_blocks ix))"

definition ix_delete_block :: "cid \<Rightarrow> nat \<Rightarrow> index \<Rightarrow> index" where
  "ix_delete_block h g ix = ix\<lparr>ix_blocks := del_where
     (\<lambda>b. bk_hash b = h \<and> bk_generation b = g \<and> bk_refcount b = 0 \<and> \<not> bk_available b) (ix_blocks ix)\<rparr>"

section \<open>Objects\<close>

definition ix_reserve_object :: "int \<Rightarrow> cid \<Rightarrow> bool \<Rightarrow> index \<Rightarrow> int option \<times> index" where
  "ix_reserve_object now c create_if_absent ix =
     (case find (\<lambda>ob. ob_cid ob = c) (ix_objects ix) of
        Some ob \<Rightarrow>
          if \<not> ob_available ob then (None, ix)
          else (Some (ob_refcount ob), ix\<lparr>ix_objects := upd_where (\<lambda>ob. ob_cid ob = c)
                 (\<lambda>ob. ob\<lparr>ob_refcount := ob_refcount ob + 1, ob_touched := now\<rparr>) (ix_objects ix)\<rparr>)
      | None \<Rightarrow>
          if create_if_absent
          then (Some 0, ix\<lparr>ix_objects := ix_objects ix @ [\<lparr>ob_cid = c, ob_refcount = 1, ob_available = True, ob_touched = now\<rparr>]\<rparr>)
          else (None, ix))"

definition ix_release_object :: "cid \<Rightarrow> index \<Rightarrow> index" where
  "ix_release_object c ix = ix\<lparr>ix_objects := sub_object c 1 (ix_objects ix)\<rparr>"

definition ix_reconcile_object :: "cid \<Rightarrow> int \<Rightarrow> int \<Rightarrow> index \<Rightarrow> bool \<times> index" where
  "ix_reconcile_object c to touched_before ix =
     (let P = (\<lambda>ob. ob_cid ob = c \<and> ob_refcount ob > to \<and> ob_touched ob \<le> touched_before) in
      (rows_affected P (ix_objects ix) = 1, ix\<lparr>ix_objects := upd_where P (\<lambda>ob. ob\<lparr>ob_refcount := to\<rparr>) (ix_objects ix)\<rparr>))"

definition ix_claim_object :: "cid \<Rightarrow> index \<Rightarrow> bool \<times> index" where
  "ix_claim_object c ix =
     (let P = (\<lambda>ob. ob_cid ob = c \<and> ob_refcount ob = 0 \<and> ob_available ob) in
      (rows_affected P (ix_objects ix) = 1, ix\<lparr>ix_objects := upd_where P (\<lambda>ob. ob\<lparr>ob_available := False\<rparr>) (ix_objects ix)\<rparr>))"

definition ix_claimable_objects :: "index \<Rightarrow> (cid \<times> bool) list" where
  "ix_claimable_objects ix = map (\<lambda>ob. (ob_cid ob, ob_available ob))
     (filter (\<lambda>ob. ob_refcount ob = 0) (ix_objects ix))"

definition ix_delete_object :: "cid \<Rightarrow> index \<Rightarrow> index" where
  "ix_delete_object c ix =
     (if \<exists>ob \<in> set (ix_objects ix). ob_cid ob = c \<and> ob_refcount ob = 0 \<and> \<not> ob_available ob
      then ix\<lparr>ix_edges := del_where (\<lambda>e. ed_object e = c) (ix_edges ix),
             ix_objects := del_where (\<lambda>ob. ob_cid ob = c) (ix_objects ix)\<rparr>
      else ix)"

section \<open>Snapshot\<close>

record index_snapshot =
  sn_objects :: "(cid \<times> int) list"
  sn_blocks :: "block_row list"
  sn_edges :: "edge list"
  sn_name_refs :: "(cid \<times> int) list"
  sn_current :: "(name \<times> cid) list"

definition ix_snapshot :: "index \<Rightarrow> index_snapshot" where
  "ix_snapshot ix = \<lparr>
     sn_objects = map (\<lambda>ob. (ob_cid ob, ob_refcount ob)) (ix_objects ix),
     sn_blocks = ix_blocks ix,
     sn_edges = ix_edges ix,
     sn_name_refs = map (\<lambda>c. (c, int (count_list (map vr_cid (ix_versions ix)) c))) (remdups (map vr_cid (ix_versions ix))),
     sn_current = map (\<lambda>r. (vr_name r, vr_cid r)) (filter (\<lambda>r. \<forall>s \<in> set (ix_versions ix).
        vr_name s = vr_name r \<longrightarrow> vr_seq s \<le> vr_seq r) (ix_versions ix))\<rparr>"

section \<open>Lookups\<close>

text \<open>Rows by primary key, and how updates change them.\<close>

definition brow :: "index \<Rightarrow> cid \<Rightarrow> nat \<Rightarrow> block_row option" where
  "brow ix h g = find (\<lambda>b. bk_hash b = h \<and> bk_generation b = g) (ix_blocks ix)"

definition orow :: "index \<Rightarrow> cid \<Rightarrow> object_row option" where
  "orow ix c = find (\<lambda>ob. ob_cid ob = c) (ix_objects ix)"

definition block_keys :: "index \<Rightarrow> (cid \<times> nat) list" where
  "block_keys ix = map (\<lambda>b. (bk_hash b, bk_generation b)) (ix_blocks ix)"

text \<open>The references of the edges to a block generation, and of the versions to an object.\<close>

definition edge_refs :: "index \<Rightarrow> cid \<Rightarrow> nat \<Rightarrow> nat" where
  "edge_refs ix h g = length (filter (\<lambda>e. ed_block e = h \<and> ed_generation e = g) (ix_edges ix))"

definition name_refs :: "index \<Rightarrow> cid \<Rightarrow> nat" where
  "name_refs ix c = count_list (map vr_cid (ix_versions ix)) c"

lemma find_upd_where:
  assumes "\<And>r. Q (f r) = Q r"
  shows "find Q (upd_where P f t) = map_option (\<lambda>r. if P r then f r else r) (find Q t)"
  by (induction t) (auto simp: upd_where_def assms)

lemma find_del_where:
  assumes "\<And>r. P r \<Longrightarrow> Q r" "distinct (map k t)" "\<And>r s. Q r \<Longrightarrow> Q s \<Longrightarrow> k r = k s"
  shows "find Q (del_where P t) = (case find Q t of Some r \<Rightarrow> if P r then None else Some r | None \<Rightarrow> None)"
  using assms(2)
proof (induction t)
  case (Cons r t)
  show ?case
  proof (cases "Q r")
    case True
    have nq: "\<not> Q x" if "x \<in> set t" for x
    proof
      assume "Q x"
      with assms(3) True have "k r = k x" by blast
      with that Cons.prems show False by (metis distinct.simps(2) image_eqI list.set_map list.simps(9))
    qed
    then have "find Q t = None" "find Q (del_where P t) = None"
      by (simp_all add: find_None_iff set_del_where)
    with True show ?thesis by (cases "P r") (simp_all add: del_where_def)
  next
    case False
    then have "\<not> P r" using assms(1) by blast
    with False Cons show ?thesis by (simp add: del_where_def)
  qed
qed (simp add: del_where_def)

lemma find_append: "find P (xs @ ys) = (case find P xs of Some x \<Rightarrow> Some x | None \<Rightarrow> find P ys)"
  by (induction xs) auto

lemma find_row_iff:
  assumes "distinct (map k t)" "\<And>r s. Q r \<Longrightarrow> Q s \<Longrightarrow> k r = k s"
  shows "find Q t = Some r \<longleftrightarrow> r \<in> set t \<and> Q r"
  using assms(1)
proof (induction t)
  case (Cons x t)
  then show ?case using assms(2) by (auto simp: image_iff)
qed simp

lemma brow_iff:
  "distinct (block_keys ix) \<Longrightarrow>
     brow ix h g = Some b \<longleftrightarrow> b \<in> set (ix_blocks ix) \<and> bk_hash b = h \<and> bk_generation b = g"
  unfolding brow_def block_keys_def
  by (subst find_row_iff [where k = "\<lambda>b. (bk_hash b, bk_generation b)"]) auto

lemma orow_iff:
  "distinct (map ob_cid (ix_objects ix)) \<Longrightarrow> orow ix c = Some ob \<longleftrightarrow> ob \<in> set (ix_objects ix) \<and> ob_cid ob = c"
  unfolding orow_def by (subst find_row_iff [where k = ob_cid]) auto

lemma brow_cong [simp]:
  "brow (ix\<lparr>ix_versions := v\<rparr>) = brow ix" "brow (ix\<lparr>ix_objects := x\<rparr>) = brow ix" "brow (ix\<lparr>ix_edges := e\<rparr>) = brow ix"
  by (simp_all add: fun_eq_iff brow_def)

lemma orow_cong [simp]:
  "orow (ix\<lparr>ix_versions := v\<rparr>) = orow ix" "orow (ix\<lparr>ix_blocks := x\<rparr>) = orow ix" "orow (ix\<lparr>ix_edges := e\<rparr>) = orow ix"
  by (simp_all add: fun_eq_iff orow_def)

text \<open>Counting how often a key is in a list of reservations.\<close>

lemma fold_dec_block:
  "find (\<lambda>b. bk_hash b = h \<and> bk_generation b = g) (fold (\<lambda>(h, g). dec_block h g) rs bs)
   = map_option (\<lambda>b. b\<lparr>bk_refcount := bk_refcount b - int (count_list rs (h, g))\<rparr>)
       (find (\<lambda>b. bk_hash b = h \<and> bk_generation b = g) bs)"
proof (induction rs arbitrary: bs)
  case (Cons r rs)
  obtain h' g' where r: "r = (h', g')" by force
  let ?Q = "\<lambda>b. bk_hash b = h \<and> bk_generation b = g"
  have d: "find ?Q (dec_block h' g' bs) = map_option (\<lambda>b. if bk_hash b = h' \<and> bk_generation b = g'
      then b\<lparr>bk_refcount := bk_refcount b - 1\<rparr> else b) (find ?Q bs)"
    unfolding dec_block_def by (rule find_upd_where) simp
  show ?case
  proof (cases "find ?Q bs")
    case None
    with Cons.IH d show ?thesis by (simp add: r)
  next
    case (Some b)
    then have "?Q b" by (auto simp: find_Some_iff)
    with Some Cons.IH d show ?thesis by (auto simp: r)
  qed
qed (simp add: option.map_ident)

end
