(* ===== verification/Index_Accounting.thy ===== *)
theory Index_Accounting
  imports Name_Index
begin

text \<open>
  The accounting of the storage index. \<open>counted ix R Q\<close> says that every block refcount is its
  edges plus the reservations \<open>R\<close> on it, and every object refcount its name versions plus the
  reservations \<open>Q\<close> on it; references only ever go to rows that exist, and a claimed row has none.
  Each operation of the index keeps this with the reservations it takes or gives back, whatever
  the interleaving of callers, so the lemmas serve both the sequential repository and the
  interleaved protocol.
\<close>

section \<open>Views of the tables\<close>

text \<open>Refcount of a key (0 without a row), and whether its row is available or claimed.\<close>

definition brc :: "index \<Rightarrow> cid \<Rightarrow> nat \<Rightarrow> int" where
  "brc ix h g = (case brow ix h g of None \<Rightarrow> 0 | Some b \<Rightarrow> bk_refcount b)"

definition bavail :: "index \<Rightarrow> cid \<Rightarrow> nat \<Rightarrow> bool" where
  "bavail ix h g = (case brow ix h g of None \<Rightarrow> False | Some b \<Rightarrow> bk_available b)"

definition bclaimed :: "index \<Rightarrow> cid \<Rightarrow> nat \<Rightarrow> bool" where
  "bclaimed ix h g = (case brow ix h g of None \<Rightarrow> False | Some b \<Rightarrow> \<not> bk_available b)"

definition orc :: "index \<Rightarrow> cid \<Rightarrow> int" where
  "orc ix c = (case orow ix c of None \<Rightarrow> 0 | Some ob \<Rightarrow> ob_refcount ob)"

definition oavail :: "index \<Rightarrow> cid \<Rightarrow> bool" where
  "oavail ix c = (case orow ix c of None \<Rightarrow> False | Some ob \<Rightarrow> ob_available ob)"

definition oclaimed :: "index \<Rightarrow> cid \<Rightarrow> bool" where
  "oclaimed ix c = (case orow ix c of None \<Rightarrow> False | Some ob \<Rightarrow> \<not> ob_available ob)"

lemmas bview = brc_def bavail_def bclaimed_def
lemmas oview = orc_def oavail_def oclaimed_def

definition keys_ok :: "index \<Rightarrow> bool" where
  "keys_ok ix \<longleftrightarrow> distinct (block_keys ix) \<and> distinct (map ob_cid (ix_objects ix))"

definition counted :: "index \<Rightarrow> (cid \<times> nat \<Rightarrow> nat) \<Rightarrow> (cid \<Rightarrow> nat) \<Rightarrow> bool" where
  "counted ix R Q \<longleftrightarrow> keys_ok ix
     \<and> (\<forall>h g. brc ix h g = int (edge_refs ix h g + R (h, g)))
     \<and> (\<forall>c. orc ix c = int (name_refs ix c + Q c))
     \<and> (\<forall>h g. bclaimed ix h g \<longrightarrow> brc ix h g = 0)
     \<and> (\<forall>c. oclaimed ix c \<longrightarrow> orc ix c = 0)
     \<and> (\<forall>h g g'. bavail ix h g \<longrightarrow> bavail ix h g' \<longrightarrow> g = g')"

lemma countedI:
  assumes "keys_ok ix" "\<And>h g. brc ix h g = int (edge_refs ix h g + R (h, g))"
    "\<And>c. orc ix c = int (name_refs ix c + Q c)"
    "\<And>h g. bclaimed ix h g \<Longrightarrow> brc ix h g = 0" "\<And>c. oclaimed ix c \<Longrightarrow> orc ix c = 0"
    "\<And>h g g'. bavail ix h g \<Longrightarrow> bavail ix h g' \<Longrightarrow> g = g'"
  shows "counted ix R Q"
  using assms unfolding counted_def by blast

lemma countedD:
  assumes "counted ix R Q"
  shows "keys_ok ix" "brc ix h g = int (edge_refs ix h g + R (h, g))"
    "orc ix c = int (name_refs ix c + Q c)"
    "bclaimed ix h g \<Longrightarrow> brc ix h g = 0" "oclaimed ix c \<Longrightarrow> orc ix c = 0"
    "bavail ix h g \<Longrightarrow> bavail ix h g' \<Longrightarrow> g = g'"
  using assms unfolding counted_def by blast+

lemma find_Some_in: "find P xs = Some x \<Longrightarrow> x \<in> set xs \<and> P x"
  by (auto simp: find_Some_iff)

text \<open>The parts of the tables an operation on the others leaves alone.\<close>

lemma views_same:
  "ix_objects ix' = ix_objects ix \<Longrightarrow> orow ix' = orow ix"
  "ix_objects ix' = ix_objects ix \<Longrightarrow> orc ix' = orc ix"
  "ix_objects ix' = ix_objects ix \<Longrightarrow> oavail ix' = oavail ix"
  "ix_objects ix' = ix_objects ix \<Longrightarrow> oclaimed ix' = oclaimed ix"
  "ix_blocks ix' = ix_blocks ix \<Longrightarrow> brow ix' = brow ix"
  "ix_blocks ix' = ix_blocks ix \<Longrightarrow> brc ix' = brc ix"
  "ix_blocks ix' = ix_blocks ix \<Longrightarrow> bavail ix' = bavail ix"
  "ix_blocks ix' = ix_blocks ix \<Longrightarrow> bclaimed ix' = bclaimed ix"
  "ix_edges ix' = ix_edges ix \<Longrightarrow> edge_refs ix' = edge_refs ix"
  "ix_versions ix' = ix_versions ix \<Longrightarrow> name_refs ix' = name_refs ix"
  by (simp_all add: fun_eq_iff orow_def oview brow_def bview edge_refs_def name_refs_def)

lemma bview_cases:
  obtains "brow ix h g = None" "brc ix h g = 0" "\<not> bavail ix h g" "\<not> bclaimed ix h g"
  | b where "brow ix h g = Some b" "bavail ix h g" "\<not> bclaimed ix h g" "bk_available b" "brc ix h g = bk_refcount b"
  | b where "brow ix h g = Some b" "\<not> bavail ix h g" "bclaimed ix h g" "\<not> bk_available b" "brc ix h g = bk_refcount b"
  by (cases "brow ix h g") (auto simp: bview split: option.splits)

section \<open>Block operations\<close>

lemma brow_key: "brow ix h g = Some b \<Longrightarrow> bk_hash b = h \<and> bk_generation b = g"
  unfolding brow_def by (drule find_Some_in) blast

lemma brow_upd:
  assumes "\<And>b. bk_hash (f b) = bk_hash b" "\<And>b. bk_generation (f b) = bk_generation b"
    and "\<And>b. bk_hash b = h \<Longrightarrow> bk_generation b = g \<Longrightarrow> P b = P' b"
  shows "brow (ix\<lparr>ix_blocks := upd_where P f (ix_blocks ix)\<rparr>) h g
    = map_option (\<lambda>b. if P' b then f b else b) (brow ix h g)"
proof -
  have "brow (ix\<lparr>ix_blocks := upd_where P f (ix_blocks ix)\<rparr>) h g
      = map_option (\<lambda>b. if P b then f b else b) (brow ix h g)"
    by (simp add: brow_def find_upd_where assms(1,2))
  also have "\<dots> = map_option (\<lambda>b. if P' b then f b else b) (brow ix h g)"
    by (rule option.map_cong [OF refl]) (use assms(3) in \<open>auto dest!: brow_key\<close>)
  finally show ?thesis .
qed

lemma keys_upd:
  assumes "\<And>b. bk_hash (f b) = bk_hash b" "\<And>b. bk_generation (f b) = bk_generation b"
  shows "block_keys (ix\<lparr>ix_blocks := upd_where P f (ix_blocks ix)\<rparr>) = block_keys ix"
  by (simp add: block_keys_def map_upd_where_key assms)

lemma brow_reserve_block:
  "brow (snd (ix_reserve_block now h ix)) h' g' =
     map_option (\<lambda>b. if h' = h \<and> bk_available b
       then b\<lparr>bk_refcount := bk_refcount b + 1, bk_touched := now\<rparr> else b) (brow ix h' g')"
  unfolding ix_reserve_block_def Let_def snd_conv by (rule brow_upd) auto

lemma reserve_block_view [tbl]:
  fixes now h ix
  defines "ix' \<equiv> snd (ix_reserve_block now h ix)"
  shows "brc ix' h' g = brc ix h' g + (if h' = h \<and> bavail ix h g then 1 else 0)"
    "bavail ix' h' g = bavail ix h' g" "bclaimed ix' h' g = bclaimed ix h' g"
    "block_keys ix' = block_keys ix" "ix_objects ix' = ix_objects ix"
    "ix_edges ix' = ix_edges ix" "ix_versions ix' = ix_versions ix"
proof -
  show "brc ix' h' g = brc ix h' g + (if h' = h \<and> bavail ix h g then 1 else 0)"
    "bavail ix' h' g = bavail ix h' g" "bclaimed ix' h' g = bclaimed ix h' g"
    unfolding ix'_def bview brow_reserve_block by (simp_all split: option.splits)
  show "block_keys ix' = block_keys ix"
    unfolding ix'_def ix_reserve_block_def Let_def snd_conv by (rule keys_upd) simp_all
qed (simp_all add: ix'_def ix_reserve_block_def Let_def)

lemma reserve_block_result:
  assumes "keys_ok ix"
  shows "fst (ix_reserve_block now h ix) = Some g \<Longrightarrow> bavail ix h g"
    "fst (ix_reserve_block now h ix) = None \<Longrightarrow> \<not> bavail ix h g"
proof -
  show "bavail ix h g" if "fst (ix_reserve_block now h ix) = Some g"
  proof -
    from that obtain b where b: "b \<in> set (ix_blocks ix)" "bk_hash b = h" "bk_available b" "bk_generation b = g"
      by (auto simp: ix_reserve_block_def Let_def dest: find_Some_in)
    with assms have "brow ix h g = Some b" by (simp add: keys_ok_def brow_iff)
    with b show ?thesis by (simp add: bavail_def)
  qed
  show "\<not> bavail ix h g" if "fst (ix_reserve_block now h ix) = None"
    using that by (auto simp: ix_reserve_block_def Let_def find_None_iff bavail_def brow_def
        split: option.splits dest: find_Some_in)
qed

text \<open>Steps that touch only the blocks table, or only the objects table.\<close>

lemma counted_blocks_step:
  assumes c: "counted ix R Q" and same: "ix_objects ix' = ix_objects ix" "ix_edges ix' = ix_edges ix"
    "ix_versions ix' = ix_versions ix" and keys: "distinct (block_keys ix')"
    and rc: "\<And>h g. brc ix' h g = brc ix h g + int (R' (h, g)) - int (R (h, g))"
    and cl: "\<And>h g. bclaimed ix' h g \<Longrightarrow> brc ix' h g = 0"
    and one: "\<And>h g g'. bavail ix' h g \<Longrightarrow> bavail ix' h g' \<Longrightarrow> g = g'"
  shows "counted ix' R' Q"
proof (rule countedI)
  note v = views_same(2,4) [OF same(1)] views_same(9) [OF same(2)] views_same(10) [OF same(3)]
  show "keys_ok ix'" using countedD(1) [OF c] keys same by (simp add: keys_ok_def)
  show "brc ix' h g = int (edge_refs ix' h g + R' (h, g))" for h g
    using rc [of h g] countedD(2) [OF c, of h g] by (simp add: v)
  show "orc ix' x = int (name_refs ix' x + Q x)" "oclaimed ix' x \<Longrightarrow> orc ix' x = 0" for x
    using countedD(3,5) [OF c] by (simp_all add: v)
qed (use cl one in blast)+

lemma counted_objects_step:
  assumes c: "counted ix R Q" and same: "ix_blocks ix' = ix_blocks ix" "ix_edges ix' = ix_edges ix"
    "ix_versions ix' = ix_versions ix" and keys: "distinct (map ob_cid (ix_objects ix'))"
    and rc: "\<And>x. orc ix' x = orc ix x + int (Q' x) - int (Q x)"
    and cl: "\<And>x. oclaimed ix' x \<Longrightarrow> orc ix' x = 0"
  shows "counted ix' R Q'"
proof (rule countedI)
  note v = views_same(6,7,8) [OF same(1)] views_same(9) [OF same(2)] views_same(10) [OF same(3)]
  show "keys_ok ix'" using countedD(1) [OF c] keys same by (simp add: keys_ok_def block_keys_def)
  show "orc ix' x = int (name_refs ix' x + Q' x)" for x
    using rc [of x] countedD(3) [OF c, of x] by (simp add: v)
  show "brc ix' h g = int (edge_refs ix' h g + R (h, g))" "bclaimed ix' h g \<Longrightarrow> brc ix' h g = 0"
    "bavail ix' h g \<Longrightarrow> bavail ix' h g' \<Longrightarrow> g = g'" for h g g'
    using countedD(2,4,6) [OF c] by (simp_all add: v)
qed (use cl in blast)+

lemma reserve_block_counted:
  assumes "counted ix R Q" "ix_reserve_block now h ix = (Some g, ix')"
  shows "counted ix' (R((h, g) := Suc (R (h, g)))) Q" "bavail ix h g"
proof -
  note c = countedD [OF assms(1)]
  have ix': "ix' = snd (ix_reserve_block now h ix)" by (simp add: assms(2))
  note v = reserve_block_view [where now = now and h = h and ix = ix, folded ix']
  show av: "bavail ix h g"
    using reserve_block_result(1) [OF c(1), where now = now and h = h and g = g] assms(2) by simp
  then have one: "bavail ix h g' \<longleftrightarrow> g' = g" for g'
    using c(6) by blast
  show "counted ix' (R((h, g) := Suc (R (h, g)))) Q"
  proof (rule counted_blocks_step [OF assms(1) v(5-7)])
    show "bclaimed ix' h' g' \<Longrightarrow> brc ix' h' g' = 0" for h' g'
      using c(4) [of h' g'] one by (cases ix h' g' rule: bview_cases) (auto simp: v)
    show "bavail ix' h' g' \<Longrightarrow> bavail ix' h' g'' \<Longrightarrow> g' = g''" for h' g' g''
      using c(6) by (simp only: v)
  qed (use c(1) in \<open>simp_all add: v one keys_ok_def\<close>)
qed

lemma mint_block_counted:
  assumes c: "counted ix R Q" and m: "ix_mint_block now h g ix = (True, ix')"
  shows "counted ix' (R((h, g) := Suc (R (h, g)))) Q" "brow ix h g = None"
    "brow ix' h' g' = (if h' = h \<and> g' = g then Some \<lparr>bk_hash = h, bk_generation = g, bk_refcount = 1,
       bk_available = True, bk_touched = now\<rparr> else brow ix h' g')"
proof -
  let ?new = "\<lparr>bk_hash = h, bk_generation = g, bk_refcount = 1, bk_available = True, bk_touched = now\<rparr>"
  from m have none: "\<And>b. b \<in> set (ix_blocks ix) \<Longrightarrow> bk_hash b = h \<Longrightarrow> \<not> bk_available b \<and> bk_generation b \<noteq> g"
    and ix': "ix' = ix\<lparr>ix_blocks := ix_blocks ix @ [?new]\<rparr>"
    by (auto simp: ix_mint_block_def split: if_splits)
  show nrow: "brow ix h g = None" using none by (auto simp: brow_def find_None_iff)
  have noav: "\<not> bavail ix h x" for x
    using none by (auto simp: bavail_def brow_def split: option.splits dest!: find_Some_in)
  show row: "brow ix' h' g' = (if h' = h \<and> g' = g then Some ?new else brow ix h' g')" for h' g'
    using nrow by (auto simp: ix' brow_def find_append split: option.splits)
  show "counted ix' (R((h, g) := Suc (R (h, g)))) Q"
  proof (rule counted_blocks_step [OF c])
    show "distinct (block_keys ix')"
      using countedD(1) [OF c] none by (auto simp: keys_ok_def ix' block_keys_def)
    show "brc ix' h' g' = brc ix h' g' + int ((R((h, g) := Suc (R (h, g)))) (h', g')) - int (R (h', g'))" for h' g'
      using nrow by (simp add: brc_def row)
    show "bclaimed ix' h' g' \<Longrightarrow> brc ix' h' g' = 0" for h' g'
      using countedD(4) [OF c, of h' g'] by (auto simp: bview row split: if_splits)
    show "bavail ix' h' g1 \<Longrightarrow> bavail ix' h' g2 \<Longrightarrow> g1 = g2" for h' g1 g2
      using countedD(6) [OF c, of h' g1 g2] noav by (auto simp: bavail_def row split: if_splits)
  qed (simp_all add: ix')
qed

lemma brow_dec_block:
  "brow (ix\<lparr>ix_blocks := dec_block h g (ix_blocks ix)\<rparr>) h' g' =
     map_option (\<lambda>b. if h' = h \<and> g' = g then b\<lparr>bk_refcount := bk_refcount b - 1\<rparr> else b) (brow ix h' g')"
  unfolding dec_block_def by (rule brow_upd) auto

text \<open>Giving back a list of references, one per occurrence.\<close>

lemma brow_dec_list:
  "brow (ix\<lparr>ix_blocks := fold (\<lambda>(h, g). dec_block h g) rs (ix_blocks ix)\<rparr>) h g =
     map_option (\<lambda>b. b\<lparr>bk_refcount := bk_refcount b - int (count_list rs (h, g))\<rparr>) (brow ix h g)"
  by (simp add: brow_def fold_dec_block)

lemma keys_dec_list:
  "map (\<lambda>b. (bk_hash b, bk_generation b)) (fold (\<lambda>(h, g). dec_block h g) rs bs)
   = map (\<lambda>b. (bk_hash b, bk_generation b)) bs"
  by (induction rs arbitrary: bs) (auto simp: dec_block_def map_upd_where_key)

lemma dec_list_view:
  fixes ix rs
  defines "ix' \<equiv> ix\<lparr>ix_blocks := fold (\<lambda>(h, g). dec_block h g) rs (ix_blocks ix)\<rparr>"
  shows "bavail ix' h g = bavail ix h g" "bclaimed ix' h g = bclaimed ix h g"
    "block_keys ix' = block_keys ix"
    "brow ix h g \<noteq> None \<Longrightarrow> brc ix' h g = brc ix h g - int (count_list rs (h, g))"
    "brow ix h g = None \<Longrightarrow> brc ix' h g = 0"
  unfolding ix'_def bview brow_dec_list
  by (auto simp: block_keys_def keys_dec_list split: option.splits)

lemma counted_no_row: "counted ix R Q \<Longrightarrow> brow ix h g = None \<Longrightarrow> edge_refs ix h g = 0 \<and> R (h, g) = 0"
  using countedD(2) [of ix R Q h g] by (simp add: brc_def)

lemma counted_claimed_zero: "counted ix R Q \<Longrightarrow> bclaimed ix h g \<Longrightarrow> edge_refs ix h g = 0 \<and> R (h, g) = 0"
  using countedD(2,4) [of ix R Q h g] by simp

lemma release_list_counted:
  assumes c: "counted ix R Q" and le: "\<And>k. count_list rs k \<le> R k"
  shows "counted (ix\<lparr>ix_blocks := ix_release_reservations rs (ix_blocks ix)\<rparr>) (\<lambda>k. R k - count_list rs k) Q"
    (is "counted ?ix' _ _")
proof -
  have eq: "?ix' = ix\<lparr>ix_blocks := fold (\<lambda>(h, g). dec_block h g) rs (ix_blocks ix)\<rparr>"
    by (simp add: ix_release_reservations_def)
  note v = dec_list_view [where ix = ix and rs = rs, folded eq]
  show ?thesis
  proof (rule counted_blocks_step [OF c])
    have rc: "brc ix' h g = brc ix h g + int (R (h, g) - count_list rs (h, g)) - int (R (h, g))"
      if "ix' = ?ix'" for h g ix'
      using v(4,5) [of h g] le [of "(h, g)"] counted_no_row [OF c, of h g] countedD(2) [OF c, of h g] that
      by (cases "brow ix h g") auto
    then show "brc ?ix' h g = brc ix h g + int (R (h, g) - count_list rs (h, g)) - int (R (h, g))" for h g by simp
    show "brc ?ix' h g = 0" if "bclaimed ?ix' h g" for h g
      using that rc [of ?ix' h g] counted_claimed_zero [OF c, of h g] countedD(4) [OF c, of h g] v(2) by simp
    show "bavail ?ix' h g \<Longrightarrow> bavail ?ix' h g' \<Longrightarrow> g = g'" for h g g'
      using countedD(6) [OF c] by (simp only: v)
  qed (use countedD(1) [OF c] v(3) in \<open>simp_all add: keys_ok_def\<close>)
qed

lemma release_block_counted:
  assumes "counted ix R Q" "0 < R (h, g)"
  shows "counted (ix_release_block h g ix) (R((h, g) := R (h, g) - 1)) Q"
proof -
  have "(\<lambda>k. R k - count_list [(h, g)] k) = R((h, g) := R (h, g) - 1)" by (auto simp: fun_eq_iff)
  moreover have "count_list [(h, g)] k \<le> R k" for k using assms(2) by auto
  ultimately show ?thesis
    using release_list_counted [OF assms(1), of "[(h, g)]"]
    by (simp add: ix_release_block_def ix_release_reservations_def)
qed

lemma brow_claim_block:
  "brow (snd (ix_claim_block h g ix)) h' g' = map_option (\<lambda>b. if h' = h \<and> g' = g \<and> bk_refcount b = 0
     \<and> bk_available b then b\<lparr>bk_available := False\<rparr> else b) (brow ix h' g')"
  unfolding ix_claim_block_def Let_def snd_conv by (rule brow_upd) auto

lemma claim_block_counted:
  assumes c: "counted ix R Q"
  shows "counted (snd (ix_claim_block h g ix)) R Q"
proof (rule counted_blocks_step [OF c])
  have "block_keys (snd (ix_claim_block h g ix)) = block_keys ix"
    unfolding ix_claim_block_def Let_def snd_conv by (rule keys_upd) simp_all
  then show "distinct (block_keys (snd (ix_claim_block h g ix)))"
    using countedD(1) [OF c] by (simp add: keys_ok_def)
  have rc: "brc (snd (ix_claim_block h g ix)) h' g' = brc ix h' g'" for h' g'
    unfolding brc_def brow_claim_block by (simp split: option.splits)
  then show "brc (snd (ix_claim_block h g ix)) h' g' = brc ix h' g' + int (R (h', g')) - int (R (h', g'))" for h' g'
    by simp
  show "brc (snd (ix_claim_block h g ix)) h' g' = 0" if "bclaimed (snd (ix_claim_block h g ix)) h' g'" for h' g'
    using that countedD(4) [OF c, of h' g'] unfolding bview brow_claim_block by (auto split: option.splits if_splits)
  show "bavail (snd (ix_claim_block h g ix)) h' g1 \<Longrightarrow> bavail (snd (ix_claim_block h g ix)) h' g2 \<Longrightarrow> g1 = g2" for h' g1 g2
    using countedD(6) [OF c, of h' g1 g2] unfolding bavail_def brow_claim_block
    by (auto split: option.splits if_splits)
qed (simp_all add: ix_claim_block_def Let_def)

text \<open>A successful claim took an available row that nothing references.\<close>

lemma claim_block_won:
  assumes "counted ix R Q" "fst (ix_claim_block h g ix)"
  shows "bavail ix h g" "edge_refs ix h g = 0" "R (h, g) = 0" "bclaimed (snd (ix_claim_block h g ix)) h g"
proof -
  let ?P = "\<lambda>b. bk_hash b = h \<and> bk_generation b = g \<and> bk_refcount b = 0 \<and> bk_available b"
  from assms(2) have "rows_affected ?P (ix_blocks ix) \<noteq> 0" by (simp add: ix_claim_block_def Let_def)
  then obtain b where b: "b \<in> set (ix_blocks ix)" "?P b"
    unfolding rows_affected_zero by blast
  then have row: "brow ix h g = Some b"
    using countedD(1) [OF assms(1)] by (simp add: keys_ok_def brow_iff)
  with b show "bavail ix h g" by (simp add: bavail_def)
  from row b have "brc ix h g = 0" by (simp add: brc_def)
  with countedD(2) [OF assms(1), of h g] show "edge_refs ix h g = 0" "R (h, g) = 0" by simp_all
  show "bclaimed (snd (ix_claim_block h g ix)) h g"
    using row b by (simp add: bclaimed_def brow_claim_block)
qed

lemma delete_block_row:
  assumes "counted ix R Q"
  shows "brow (ix_delete_block h g ix) h' g' =
    (if h' = h \<and> g' = g \<and> bclaimed ix h g \<and> brc ix h g = 0 then None else brow ix h' g')"
proof -
  let ?P = "\<lambda>b. bk_hash b = h \<and> bk_generation b = g \<and> bk_refcount b = 0 \<and> \<not> bk_available b"
  let ?Q = "\<lambda>b. bk_hash b = h' \<and> bk_generation b = g'"
  have keys: "distinct (map (\<lambda>b. (bk_hash b, bk_generation b)) (ix_blocks ix))"
    using countedD(1) [OF assms] by (simp add: keys_ok_def block_keys_def)
  show ?thesis
  proof (cases "h' = h \<and> g' = g")
    case True
    then have "brow (ix_delete_block h g ix) h' g' = (case brow ix h g of Some r \<Rightarrow> if ?P r then None else Some r | None \<Rightarrow> None)"
      using find_del_where [OF _ keys, of ?P ?Q] by (simp add: brow_def ix_delete_block_def)
    with True show ?thesis
      by (cases "brow ix h g") (auto simp: bview dest: brow_key split: option.splits)
  next
    case False
    have "find ?Q (del_where ?P bs) = find ?Q bs" for bs
      using False by (induction bs) (auto simp: del_where_def)
    with False show ?thesis by (auto simp: brow_def ix_delete_block_def)
  qed
qed

lemma delete_block_counted:
  assumes c: "counted ix R Q"
  shows "counted (ix_delete_block h g ix) R Q"
proof (rule counted_blocks_step [OF c])
  note row = delete_block_row [OF c, of h g]
  show "distinct (block_keys (ix_delete_block h g ix))"
    using countedD(1) [OF c] unfolding keys_ok_def block_keys_def ix_delete_block_def del_where_def
    by (simp add: distinct_map_filter)
  have rc: "brc (ix_delete_block h g ix) h' g' = brc ix h' g'" for h' g'
    by (auto simp: brc_def row)
  then show "brc (ix_delete_block h g ix) h' g' = brc ix h' g' + int (R (h', g')) - int (R (h', g'))" for h' g'
    by simp
  show "brc (ix_delete_block h g ix) h' g' = 0" if "bclaimed (ix_delete_block h g ix) h' g'" for h' g'
    using that countedD(4) [OF c, of h' g'] rc by (auto simp: bclaimed_def row split: if_splits)
  show "bavail (ix_delete_block h g ix) h' g1 \<Longrightarrow> bavail (ix_delete_block h g ix) h' g2 \<Longrightarrow> g1 = g2" for h' g1 g2
    using countedD(6) [OF c, of h' g1 g2] by (auto simp: bavail_def row split: if_splits)
qed (simp_all add: ix_delete_block_def)

section \<open>Object operations\<close>

lemma orow_key: "orow ix c = Some ob \<Longrightarrow> ob_cid ob = c"
  unfolding orow_def by (drule find_Some_in) blast

lemma orow_upd:
  assumes "\<And>ob. ob_cid (f ob) = ob_cid ob" and "\<And>ob. ob_cid ob = c \<Longrightarrow> P ob = P' ob"
  shows "orow (ix\<lparr>ix_objects := upd_where P f (ix_objects ix)\<rparr>) c = map_option (\<lambda>ob. if P' ob then f ob else ob) (orow ix c)"
proof -
  have "orow (ix\<lparr>ix_objects := upd_where P f (ix_objects ix)\<rparr>) c = map_option (\<lambda>ob. if P ob then f ob else ob) (orow ix c)"
    by (simp add: orow_def find_upd_where assms(1))
  also have "\<dots> = map_option (\<lambda>ob. if P' ob then f ob else ob) (orow ix c)"
    by (rule option.map_cong [OF refl]) (use assms(2) in \<open>auto dest!: orow_key\<close>)
  finally show ?thesis .
qed

lemma reserve_object_counted:
  assumes c: "counted ix R Q" and r: "ix_reserve_object now x create ix = (Some prev, ix')"
  shows "counted ix' R (Q(x := Suc (Q x)))" "prev = orc ix x" "\<not> oclaimed ix x"
    "orow ix x = None \<Longrightarrow> create"
proof -
  let ?f = "\<lambda>ob. ob\<lparr>ob_refcount := ob_refcount ob + 1, ob_touched := now\<rparr>"
  let ?new = "\<lparr>ob_cid = x, ob_refcount = 1, ob_available = True, ob_touched = now\<rparr>"
  have keys: "distinct (map ob_cid (ix_objects ix))" using countedD(1) [OF c] by (simp add: keys_ok_def)
  show "prev = orc ix x" "orow ix x = None \<Longrightarrow> create" and ncl: "\<not> oclaimed ix x"
    using r by (auto simp: ix_reserve_object_def oview orow_def split: option.splits if_splits)
  have row: "orow ix' y = (if y = x then Some (case orow ix x of None \<Rightarrow> ?new | Some ob \<Rightarrow> ?f ob) else orow ix y)" for y
  proof (cases "orow ix x")
    case None
    with r have "ix' = ix\<lparr>ix_objects := ix_objects ix @ [?new]\<rparr>"
      by (auto simp: ix_reserve_object_def orow_def split: if_splits)
    with None show ?thesis by (auto simp: orow_def find_append split: option.splits)
  next
    case (Some ob)
    with r have "ix' = ix\<lparr>ix_objects := upd_where (\<lambda>ob. ob_cid ob = x) ?f (ix_objects ix)\<rparr>"
      by (auto simp: ix_reserve_object_def orow_def split: if_splits)
    with Some orow_upd [where f = ?f and c = y and P = "\<lambda>ob. ob_cid ob = x" and P' = "\<lambda>_. y = x" and ix = ix]
    show ?thesis by (auto simp: option.map_ident)
  qed
  show "counted ix' R (Q(x := Suc (Q x)))"
  proof (rule counted_objects_step [OF c])
    show "distinct (map ob_cid (ix_objects ix'))"
      using r keys by (auto simp: ix_reserve_object_def map_upd_where_key find_None_iff split: option.splits if_splits)
    show "orc ix' y = orc ix y + int ((Q(x := Suc (Q x))) y) - int (Q y)" for y
      by (auto simp: orc_def row split: option.splits)
    show "orc ix' y = 0" if "oclaimed ix' y" for y
      using that countedD(5) [OF c, of y] ncl by (auto simp: oview row split: option.splits if_splits)
  qed (use r in \<open>auto simp: ix_reserve_object_def split: option.splits if_splits\<close>)
qed

lemma sub_object_counted:
  assumes c: "counted ix R Q" and m: "m \<le> Q x"
  shows "counted (ix\<lparr>ix_objects := sub_object x (int m) (ix_objects ix)\<rparr>) R (Q(x := Q x - m))" (is "counted ?ix' _ _")
    "orow (ix\<lparr>ix_objects := sub_object x (int m) (ix_objects ix)\<rparr>) y =
       map_option (\<lambda>ob. if y = x then ob\<lparr>ob_refcount := ob_refcount ob - int m\<rparr> else ob) (orow ix y)"
proof -
  show row: "orow ?ix' y = map_option (\<lambda>ob. if y = x then ob\<lparr>ob_refcount := ob_refcount ob - int m\<rparr> else ob) (orow ix y)" for y
    unfolding sub_object_def by (rule orow_upd) auto
  have none: "orow ix x = None \<Longrightarrow> m = 0"
    using countedD(3) [OF c, of x] m by (simp add: orc_def)
  show "counted ?ix' R (Q(x := Q x - m))"
  proof (rule counted_objects_step [OF c])
    show "distinct (map ob_cid (ix_objects ?ix'))"
      using countedD(1) [OF c] by (simp add: keys_ok_def sub_object_def map_upd_where_key)
    show rc: "orc ?ix' y = orc ix y + int ((Q(x := Q x - m)) y) - int (Q y)" for y
      using m none by (auto simp: orc_def row split: option.splits)
    show "orc ?ix' y = 0" if "oclaimed ?ix' y" for y
    proof -
      from that have "oclaimed ix y" by (auto simp: oclaimed_def row split: option.splits if_splits)
      with countedD(3,5) [OF c, of y] have "orc ix y = 0" "Q y = 0" by simp_all
      with rc [of y] m show ?thesis by (auto split: if_splits)
    qed
  qed simp_all
qed

lemma release_object_counted:
  "counted ix R Q \<Longrightarrow> 0 < Q x \<Longrightarrow> counted (ix_release_object x ix) R (Q(x := Q x - 1))"
  using sub_object_counted(1) [of ix R Q 1 x] by (simp add: ix_release_object_def)

lemma orow_claim_object:
  "orow (snd (ix_claim_object x ix)) y = map_option (\<lambda>ob. if y = x \<and> ob_refcount ob = 0 \<and> ob_available ob
     then ob\<lparr>ob_available := False\<rparr> else ob) (orow ix y)"
  unfolding ix_claim_object_def Let_def snd_conv by (rule orow_upd) auto

lemma claim_object_counted:
  assumes c: "counted ix R Q"
  shows "counted (snd (ix_claim_object x ix)) R Q"
proof (rule counted_objects_step [OF c])
  show "distinct (map ob_cid (ix_objects (snd (ix_claim_object x ix))))"
    using countedD(1) [OF c] by (simp add: keys_ok_def ix_claim_object_def Let_def map_upd_where_key)
  show "orc (snd (ix_claim_object x ix)) y = orc ix y + int (Q y) - int (Q y)" for y
    unfolding orc_def orow_claim_object by (simp split: option.splits)
  show "orc (snd (ix_claim_object x ix)) y = 0" if "oclaimed (snd (ix_claim_object x ix)) y" for y
    using that countedD(5) [OF c, of y] unfolding oview orow_claim_object by (auto split: option.splits if_splits)
qed (simp_all add: ix_claim_object_def Let_def)

lemma claim_object_won:
  assumes "counted ix R Q" "fst (ix_claim_object x ix)"
  shows "oavail ix x" "name_refs ix x = 0" "Q x = 0" "oclaimed (snd (ix_claim_object x ix)) x"
proof -
  let ?P = "\<lambda>ob. ob_cid ob = x \<and> ob_refcount ob = 0 \<and> ob_available ob"
  from assms(2) have "rows_affected ?P (ix_objects ix) \<noteq> 0" by (simp add: ix_claim_object_def Let_def)
  then obtain ob where ob: "ob \<in> set (ix_objects ix)" "?P ob"
    unfolding rows_affected_zero by blast
  then have row: "orow ix x = Some ob"
    using countedD(1) [OF assms(1)] by (simp add: keys_ok_def orow_iff)
  with ob show "oavail ix x" by (simp add: oavail_def)
  from row ob have "orc ix x = 0" by (simp add: orc_def)
  with countedD(3) [OF assms(1), of x] show "name_refs ix x = 0" "Q x = 0" by simp_all
  show "oclaimed (snd (ix_claim_object x ix)) x"
    using row ob by (simp add: oclaimed_def orow_claim_object)
qed

text \<open>
  Deleting a claimed object drops its edges without touching block counts: what they held becomes
  a reservation nobody owns. It has no edges left when it died through \<open>ix_unbind\<close>.
\<close>

definition object_edge_refs :: "index \<Rightarrow> cid \<Rightarrow> cid \<times> nat \<Rightarrow> nat" where
  "object_edge_refs ix x k = length (filter (\<lambda>e. ed_object e = x \<and> ed_block e = fst k \<and> ed_generation e = snd k) (ix_edges ix))"

lemma edge_refs_del:
  "edge_refs (ix\<lparr>ix_edges := del_where (\<lambda>e. ed_object e = x) (ix_edges ix)\<rparr>) h g + object_edge_refs ix x (h, g) = edge_refs ix h g"
proof -
  have "length (filter (\<lambda>e. ed_block e = h \<and> ed_generation e = g) (del_where (\<lambda>e. ed_object e = x) es))
      + length (filter (\<lambda>e. ed_object e = x \<and> ed_block e = h \<and> ed_generation e = g) es)
      = length (filter (\<lambda>e. ed_block e = h \<and> ed_generation e = g) es)" for es
    by (induction es) (auto simp: del_where_def)
  then show ?thesis by (simp add: edge_refs_def object_edge_refs_def)
qed

lemma delete_object_counted:
  assumes c: "counted ix R Q"
  shows "counted (ix_delete_object x ix)
    (if oclaimed ix x \<and> orc ix x = 0 then (\<lambda>k. R k + object_edge_refs ix x k) else R) Q"
    "orow (ix_delete_object x ix) y = (if y = x \<and> oclaimed ix x \<and> orc ix x = 0 then None else orow ix y)"
proof -
  have keys: "distinct (map ob_cid (ix_objects ix))" using countedD(1) [OF c] by (simp add: keys_ok_def)
  have "(\<exists>ob \<in> set (ix_objects ix). ob_cid ob = x \<and> ob_refcount ob = 0 \<and> \<not> ob_available ob)
      \<longleftrightarrow> (\<exists>ob. orow ix x = Some ob \<and> ob_refcount ob = 0 \<and> \<not> ob_available ob)"
    by (auto simp: orow_iff [OF keys])
  also have "\<dots> \<longleftrightarrow> oclaimed ix x \<and> orc ix x = 0"
    by (cases "orow ix x") (auto simp: oview)
  finally have eq: "ix_delete_object x ix = (if oclaimed ix x \<and> orc ix x = 0
      then ix\<lparr>ix_edges := del_where (\<lambda>e. ed_object e = x) (ix_edges ix),
             ix_objects := del_where (\<lambda>ob. ob_cid ob = x) (ix_objects ix)\<rparr> else ix)"
    by (simp only: ix_delete_object_def)
  have find_del: "find (\<lambda>ob. ob_cid ob = z) (del_where (\<lambda>ob. ob_cid ob = x) os)
      = (if z = x then None else find (\<lambda>ob. ob_cid ob = z) os)" for os :: "object_row list" and z
    by (induction os) (auto simp: del_where_def)
  have del: "orow (ix_delete_object x ix) y = (if y = x \<and> oclaimed ix x \<and> orc ix x = 0 then None else orow ix y)" for y
    unfolding eq by (simp add: orow_def find_del)
  then show "orow (ix_delete_object x ix) y = (if y = x \<and> oclaimed ix x \<and> orc ix x = 0 then None else orow ix y)" .
  show "counted (ix_delete_object x ix)
    (if oclaimed ix x \<and> orc ix x = 0 then (\<lambda>k. R k + object_edge_refs ix x k) else R) Q"
  proof (cases "oclaimed ix x \<and> orc ix x = 0")
    case True
    let ?ix' = "ix_delete_object x ix"
    have ix': "?ix' = ix\<lparr>ix_edges := del_where (\<lambda>e. ed_object e = x) (ix_edges ix),
        ix_objects := del_where (\<lambda>ob. ob_cid ob = x) (ix_objects ix)\<rparr>"
      using True by (simp only: eq if_True simp_thms)
    have edges: "edge_refs ?ix' h g + object_edge_refs ix x (h, g) = edge_refs ix h g" for h g
      using edge_refs_del [where ix = ix and x = x and h = h and g = g] by (simp add: ix' edge_refs_def)
    have v: "brc ?ix' = brc ix" "bavail ?ix' = bavail ix" "bclaimed ?ix' = bclaimed ix" "name_refs ?ix' = name_refs ix"
      by (simp_all add: ix' fun_eq_iff bview brow_def name_refs_def)
    have orc: "orc ?ix' y = orc ix y" for y using True by (auto simp: orc_def del)
    show ?thesis
    proof (rule countedI)
      show "keys_ok ?ix'" using countedD(1) [OF c]
        by (simp add: keys_ok_def ix' block_keys_def del_where_def distinct_map_filter)
      show "brc ?ix' h g = int (edge_refs ?ix' h g + (if oclaimed ix x \<and> orc ix x = 0
          then (\<lambda>k. R k + object_edge_refs ix x k) else R) (h, g))" for h g
        using True countedD(2) [OF c, of h g] edges [of h g] by (simp add: v)
      show "orc ?ix' y = 0" if "oclaimed ?ix' y" for y
        using that countedD(5) [OF c, of y] orc by (auto simp: oclaimed_def del split: if_splits)
    qed (use countedD(3,4,6) [OF c] in \<open>simp_all add: v orc\<close>)
  next
    case False
    with c show ?thesis by (simp only: eq if_False)
  qed
qed

section \<open>Binding\<close>

text \<open>
  The reservations a bind leaves: all of \<open>reserved\<close> are spent, except that a block the object
  already has an edge to keeps its reservation when the object goes live again.
\<close>

definition has_edge :: "edge list \<Rightarrow> cid \<Rightarrow> cid \<Rightarrow> bool" where
  "has_edge es x h \<longleftrightarrow> (\<exists>e \<in> set es. ed_object e = x \<and> ed_block e = h)"

definition after_bind :: "index \<Rightarrow> name \<Rightarrow> cid \<Rightarrow> (cid \<times> nat) list \<Rightarrow> int \<Rightarrow> (cid \<times> nat \<Rightarrow> nat) \<Rightarrow> cid \<times> nat \<Rightarrow> nat" where
  "after_bind ix n c reserved prev_rc R k =
     (if ix_resolve ix n \<noteq> Some c \<and> prev_rc = 0 \<and> has_edge (ix_edges ix) c (fst k)
      then R k else R k - count_list reserved k)"

lemma insert_edge_alt:
  "insert_edge c (h, g) es = (if has_edge es c h then es else es @ [\<lparr>ed_object = c, ed_block = h, ed_generation = g\<rparr>])"
  by (simp add: insert_edge_def has_edge_def)

lemma has_edge_append [simp]:
  "has_edge (es @ [e]) x h \<longleftrightarrow> has_edge es x h \<or> ed_object e = x \<and> ed_block e = h"
  by (auto simp: has_edge_def)

lemma has_edge_insert: "has_edge (insert_edge c (h', g') es) x h \<longleftrightarrow> has_edge es x h \<or> x = c \<and> h = h'"
  by (auto simp: insert_edge_alt)

lemma has_edge_fold: "has_edge (fold (insert_edge c) rs es) x h \<longleftrightarrow> has_edge es x h \<or> x = c \<and> h \<in> fst ` set rs"
proof (induction rs arbitrary: es)
  case (Cons r rs)
  then show ?case by (cases r) (simp add: has_edge_insert, blast)
qed simp

lemma edge_refs_insert:
  assumes "distinct (map fst rs)"
  shows "length (filter (\<lambda>e. ed_block e = h \<and> ed_generation e = g) (fold (insert_edge c) rs es))
    = length (filter (\<lambda>e. ed_block e = h \<and> ed_generation e = g) es)
      + (if has_edge es c h then 0 else count_list rs (h, g))"
  using assms
proof (induction rs arbitrary: es)
  case (Cons r rs)
  obtain h' g' where r: "r = (h', g')" by force
  have absent: "h = h' \<Longrightarrow> count_list rs (h, g) = 0"
    using Cons.prems by (auto simp: r count_list_0_iff image_iff)
  from Cons.prems have d: "distinct (map fst rs)" by simp
  show ?case
    unfolding fold.simps comp_apply Cons.IH [OF d] r has_edge_insert
    using absent by (simp add: insert_edge_alt)
qed simp

lemma bind_counted:
  assumes c: "counted ix R Q" and q: "0 < Q x" and r: "\<And>k. count_list reserved k \<le> R k"
    and d: "distinct (map fst reserved)"
  shows "counted (ix_bind n x reserved prev_rc ix) (after_bind ix n x reserved prev_rc R) (Q(x := Q x - 1))"
proof (cases "ix_resolve ix n = Some x")
  case True
  have left: "after_bind ix n x reserved prev_rc R = (\<lambda>k. R k - count_list reserved k)"
    by (simp add: after_bind_def True fun_eq_iff)
  let ?r = "ix\<lparr>ix_blocks := ix_release_reservations reserved (ix_blocks ix)\<rparr>"
  have "ix_bind n x reserved prev_rc ix = ?r\<lparr>ix_objects := sub_object x (int 1) (ix_objects ?r)\<rparr>"
    using True by (simp add: ix_bind_def)
  with sub_object_counted(1) [OF release_list_counted [OF c r], of 1 x] q show ?thesis
    unfolding left by (simp only: Suc_le_eq One_nat_def)
next
  case False
  let ?v = "ix\<lparr>ix_versions := ix_versions ix @ [\<lparr>vr_name = n, vr_seq = next_seq ix n, vr_cid = x\<rparr>]\<rparr>"
  have v: "counted ?v R (Q(x := Q x - 1))"
  proof (rule countedI)
    show "orc ?v y = int (name_refs ?v y + (Q(x := Q x - 1)) y)" for y
      using countedD(3) [OF c, of y] q by (simp add: orc_def name_refs_def)
  qed (use countedD [OF c] in \<open>simp_all add: keys_ok_def block_keys_def bview oview edge_refs_def\<close>)
  show ?thesis
  proof (cases "prev_rc = 0")
    case True
    let ?e = "?v\<lparr>ix_edges := fold (insert_edge x) reserved (ix_edges ?v)\<rparr>"
    have "counted ?e (after_bind ix n x reserved prev_rc R) (Q(x := Q x - 1))"
    proof (rule countedI)
      show "brc ?e h g = int (edge_refs ?e h g + after_bind ix n x reserved prev_rc R (h, g))" for h g
        using countedD(2) [OF c, of h g] edge_refs_insert [OF d, of h g x "ix_edges ix"] r [of "(h, g)"]
        by (auto simp: brc_def edge_refs_def after_bind_def False True)
    qed (use countedD [OF v] in \<open>simp_all add: keys_ok_def block_keys_def bview oview name_refs_def\<close>)
    with False True show ?thesis by (simp add: ix_bind_def Let_def)
  next
    case aliased: False
    have "after_bind ix n x reserved prev_rc R = (\<lambda>k. R k - count_list reserved k)"
      by (simp add: after_bind_def aliased fun_eq_iff)
    with release_list_counted [OF v r] False aliased show ?thesis by (simp add: ix_bind_def Let_def)
  qed
qed

section \<open>Unbinding\<close>

lemma drop_refs_counted:
  assumes c: "counted ix R Q" and m: "0 < m" "m \<le> Q x"
  shows "\<exists>ix'. drop_refs x (int m) ix = Inr ix' \<and> counted ix' R (Q(x := Q x - m))
    \<and> ix_versions ix' = ix_versions ix
    \<and> orow ix' = (\<lambda>y. map_option (\<lambda>ob. if y = x then ob\<lparr>ob_refcount := ob_refcount ob - int m\<rparr> else ob) (orow ix y))
    \<and> ix_edges ix' = (if orc ix x = int m then del_where (\<lambda>e. ed_object e = x) (ix_edges ix) else ix_edges ix)
    \<and> bavail ix' = bavail ix \<and> bclaimed ix' = bclaimed ix \<and> block_keys ix' = block_keys ix"
proof -
  let ?o = "ix\<lparr>ix_objects := sub_object x (int m) (ix_objects ix)\<rparr>"
  note sub = sub_object_counted [OF c m(2)]
  have "0 < orc ix x" using countedD(3) [OF c, of x] m by simp
  then obtain ob where ob: "orow ix x = Some ob" "orc ix x = ob_refcount ob"
    by (auto simp: orc_def split: option.splits)
  have found: "find (\<lambda>ob. ob_cid ob = x) (sub_object x (int m) (ix_objects ix)) = Some (ob\<lparr>ob_refcount := ob_refcount ob - int m\<rparr>)"
    using sub(2) [of x] ob(1) by (simp add: orow_def)
  show ?thesis
  proof (cases "orc ix x = int m")
    case False
    with ob(2) found have "drop_refs x (int m) ix = Inr ?o" by (simp add: drop_refs_def Let_def)
    with False sub show ?thesis by (auto simp: fun_eq_iff bview block_keys_def)
  next
    case True
    let ?rs = "map (\<lambda>e. (ed_block e, ed_generation e)) (filter (\<lambda>e. ed_object e = x) (ix_edges ix))"
    let ?b = "?o\<lparr>ix_blocks := fold (\<lambda>(h, g). dec_block h g) ?rs (ix_blocks ?o)\<rparr>"
    let ?ix' = "?b\<lparr>ix_edges := del_where (\<lambda>e. ed_object e = x) (ix_edges ?b)\<rparr>"
    have res: "drop_refs x (int m) ix = Inr ?ix'"
      using True ob(2) found by (simp add: drop_refs_def Let_def fold_map comp_def)
    have count: "count_list ?rs (h, g) = object_edge_refs ix x (h, g)" for h g
    proof -
      have "count_list (map (\<lambda>e. (ed_block e, ed_generation e)) (filter (\<lambda>e. ed_object e = x) es)) (h, g)
          = length (filter (\<lambda>e. ed_object e = x \<and> ed_block e = h \<and> ed_generation e = g) es)" for es
        by (induction es) auto
      then show ?thesis by (simp add: object_edge_refs_def)
    qed
    note v = dec_list_view [where ix = ?o and rs = ?rs]
    have e: "edge_refs ?ix' h g + object_edge_refs ix x (h, g) = edge_refs ix h g" for h g
      using edge_refs_del [where ix = ix and x = x and h = h and g = g] by (simp add: edge_refs_def)
    have brc: "brc ?ix' h g = brc ix h g - int (object_edge_refs ix x (h, g))" for h g
    proof (cases "brow ix h g")
      case None
      then have "edge_refs ix h g = 0" using counted_no_row [OF c] by blast
      with None e [of h g] v(5) [of h g] show ?thesis by (simp add: brc_def)
    next
      case (Some b)
      with v(4) [of h g] count show ?thesis by (simp add: brc_def)
    qed
    have av: "bavail ?ix' = bavail ix" "bclaimed ?ix' = bclaimed ix" "block_keys ?ix' = block_keys ix"
      using v(1-3) by (simp_all add: fun_eq_iff bview block_keys_def)
    have ov: "orc ?ix' = orc ?o" "oclaimed ?ix' = oclaimed ?o" "name_refs ?ix' = name_refs ?o" "orow ?ix' = orow ?o"
      by (simp_all add: fun_eq_iff oview orow_def name_refs_def)
    have "counted ?ix' R (Q(x := Q x - m))"
    proof (rule countedI)
      show "keys_ok ?ix'" using countedD(1) [OF sub(1)] av(3) by (simp add: keys_ok_def block_keys_def)
      show "brc ?ix' h g = int (edge_refs ?ix' h g + R (h, g))" for h g
        using brc [of h g] e [of h g] countedD(2) [OF c, of h g] by simp
      show "brc ?ix' h g = 0" if "bclaimed ?ix' h g" for h g
        using that brc [of h g] e [of h g] countedD(4) [OF c, of h g] counted_claimed_zero [OF c, of h g]
        by (simp only: av)
      show "bavail ?ix' h g \<Longrightarrow> bavail ?ix' h g' \<Longrightarrow> g = g'" for h g g'
        using countedD(6) [OF c] by (simp only: av)
    qed (use countedD(3,5) [OF sub(1)] in \<open>simp_all only: ov\<close>)
    with True res sub(2) ov(4) av show ?thesis by (simp add: fun_eq_iff)
  qed
qed

lemma drop_all_counted:
  assumes "counted ix R (\<lambda>y. Q y + (if y \<in> set cs then cnt y else 0))" "distinct cs" "\<And>y. y \<in> set cs \<Longrightarrow> 0 < cnt y"
  shows "\<exists>ix'. fold (\<lambda>(c, m) acc. bindR acc (drop_refs c m)) (map (\<lambda>c. (c, int (cnt c))) cs) (Inr ix) = Inr ix'
    \<and> counted ix' R Q \<and> ix_versions ix' = ix_versions ix
    \<and> (\<forall>y. orow ix' y = map_option (\<lambda>ob. if y \<in> set cs then ob\<lparr>ob_refcount := ob_refcount ob - int (cnt y)\<rparr> else ob) (orow ix y))
    \<and> ix_edges ix' = filter (\<lambda>e. \<not> (ed_object e \<in> set cs \<and> orc ix (ed_object e) = int (cnt (ed_object e)))) (ix_edges ix)
    \<and> bavail ix' = bavail ix \<and> bclaimed ix' = bclaimed ix \<and> block_keys ix' = block_keys ix"
  using assms
proof (induction cs arbitrary: ix)
  case Nil
  then show ?case by (simp add: option.map_ident)
next
  case (Cons c cs)
  let ?Q = "\<lambda>y. Q y + (if y \<in> set (c # cs) then cnt y else 0)"
  have pos: "0 < cnt c" "cnt c \<le> ?Q c" using Cons.prems(3) by simp_all
  from drop_refs_counted [OF Cons.prems(1) pos] obtain ix1 where
    r: "drop_refs c (int (cnt c)) ix = Inr ix1" "counted ix1 R (?Q(c := ?Q c - cnt c))"
      "ix_versions ix1 = ix_versions ix"
    and o1: "orow ix1 = (\<lambda>y. map_option (\<lambda>ob. if y = c then ob\<lparr>ob_refcount := ob_refcount ob - int (cnt c)\<rparr> else ob) (orow ix y))"
    and e1: "ix_edges ix1 = (if orc ix c = int (cnt c) then del_where (\<lambda>e. ed_object e = c) (ix_edges ix) else ix_edges ix)"
    and b1: "bavail ix1 = bavail ix" "bclaimed ix1 = bclaimed ix" "block_keys ix1 = block_keys ix" by blast
  have "?Q(c := ?Q c - cnt c) = (\<lambda>y. Q y + (if y \<in> set cs then cnt y else 0))"
    using Cons.prems(2) by (auto simp: fun_eq_iff)
  with r(2) have c1: "counted ix1 R (\<lambda>y. Q y + (if y \<in> set cs then cnt y else 0))" by simp
  have d: "distinct cs" "c \<notin> set cs" and p: "\<And>y. y \<in> set cs \<Longrightarrow> 0 < cnt y"
    using Cons.prems(2,3) by auto
  from Cons.IH [OF c1 d(1) p] obtain ix' where
    f: "fold (\<lambda>(c, m) acc. bindR acc (drop_refs c m)) (map (\<lambda>c. (c, int (cnt c))) cs) (Inr ix1) = Inr ix'"
      "counted ix' R Q" "ix_versions ix' = ix_versions ix1"
    and o2: "\<And>y. orow ix' y = map_option (\<lambda>ob. if y \<in> set cs then ob\<lparr>ob_refcount := ob_refcount ob - int (cnt y)\<rparr> else ob) (orow ix1 y)"
    and e2: "ix_edges ix' = filter (\<lambda>e. \<not> (ed_object e \<in> set cs \<and> orc ix1 (ed_object e) = int (cnt (ed_object e)))) (ix_edges ix1)"
    and b2: "bavail ix' = bavail ix1" "bclaimed ix' = bclaimed ix1" "block_keys ix' = block_keys ix1" by blast
  have o: "orow ix' y = map_option (\<lambda>ob. if y \<in> set (c # cs) then ob\<lparr>ob_refcount := ob_refcount ob - int (cnt y)\<rparr> else ob) (orow ix y)" for y
    using d(2) by (cases "orow ix y") (auto simp: o2 o1)
  have rc: "y \<in> set cs \<Longrightarrow> orc ix1 y = orc ix y" for y
    using d(2) by (cases "orow ix y") (auto simp: orc_def o1)
  have "ix_edges ix' = filter (\<lambda>e. \<not> (ed_object e \<in> set (c # cs) \<and> orc ix (ed_object e) = int (cnt (ed_object e)))) (ix_edges ix)"
    unfolding e2 e1 using d(2) rc by (auto simp: del_where_def intro!: filter_cong)
  with f r(1,3) o b1 b2 show ?case by simp
qed

lemma unbind_counted:
  fixes n ix
  defines "cids \<equiv> map vr_cid (filter (\<lambda>r. vr_name r = n) (ix_versions ix))"
  assumes c: "counted ix R Q"
  shows "\<exists>ix'. ix_unbind n ix = Inr ix' \<and> counted ix' R Q
    \<and> ix_versions ix' = del_where (\<lambda>r. vr_name r = n) (ix_versions ix)
    \<and> (\<forall>y. orow ix' y = map_option (\<lambda>ob. ob\<lparr>ob_refcount := ob_refcount ob - int (count_list cids y)\<rparr>) (orow ix y))
    \<and> ix_edges ix' = filter (\<lambda>e. \<not> (ed_object e \<in> set cids \<and> orc ix' (ed_object e) = 0)) (ix_edges ix)
    \<and> bavail ix' = bavail ix \<and> bclaimed ix' = bclaimed ix \<and> block_keys ix' = block_keys ix"
proof -
  let ?v = "ix\<lparr>ix_versions := del_where (\<lambda>r. vr_name r = n) (ix_versions ix)\<rparr>"
  let ?cnt = "count_list cids"
  have split: "count_list (map vr_cid vs) y = count_list (map vr_cid (del_where (\<lambda>r. vr_name r = n) vs)) y
      + count_list (map vr_cid (filter (\<lambda>r. vr_name r = n) vs)) y" for vs y
    by (induction vs) (auto simp: del_where_def)
  have zero: "y \<notin> set cids \<Longrightarrow> ?cnt y = 0" for y by (simp add: count_list_0_iff)
  have "counted ?v R (\<lambda>y. Q y + ?cnt y)"
  proof (rule countedI)
    show "orc ?v y = int (name_refs ?v y + (Q y + ?cnt y))" for y
      using countedD(3) [OF c, of y] split [of "ix_versions ix" y] by (simp add: orc_def name_refs_def cids_def)
  qed (use countedD [OF c] in \<open>simp_all add: keys_ok_def block_keys_def bview oview edge_refs_def\<close>)
  moreover have "(\<lambda>y. Q y + ?cnt y) = (\<lambda>y. Q y + (if y \<in> set (remdups cids) then ?cnt y else 0))"
    using zero by (auto simp: fun_eq_iff)
  ultimately have cv: "counted ?v R (\<lambda>y. Q y + (if y \<in> set (remdups cids) then ?cnt y else 0))" by simp
  have pos: "\<And>y. y \<in> set (remdups cids) \<Longrightarrow> 0 < ?cnt y" by (metis count_list_0_iff gr0I set_remdups)
  from drop_all_counted [OF cv distinct_remdups pos] obtain ix' where
    f: "fold (\<lambda>(c, m) acc. bindR acc (drop_refs c m)) (map (\<lambda>c. (c, int (?cnt c))) (remdups cids)) (Inr ?v) = Inr ix'"
      "counted ix' R Q" "ix_versions ix' = ix_versions ?v"
    and o: "\<And>y. orow ix' y = map_option (\<lambda>ob. if y \<in> set (remdups cids) then ob\<lparr>ob_refcount := ob_refcount ob - int (?cnt y)\<rparr> else ob) (orow ?v y)"
    and e: "ix_edges ix' = filter (\<lambda>e. \<not> (ed_object e \<in> set (remdups cids) \<and> orc ?v (ed_object e) = int (?cnt (ed_object e)))) (ix_edges ?v)"
    and b: "bavail ix' = bavail ?v" "bclaimed ix' = bclaimed ?v" "block_keys ix' = block_keys ?v" by blast
  have row: "orow ix' y = map_option (\<lambda>ob. ob\<lparr>ob_refcount := ob_refcount ob - int (?cnt y)\<rparr>) (orow ix y)" for y
    using zero [of y] by (cases "orow ix y") (auto simp: o)
  have rc: "orc ix' y = 0 \<longleftrightarrow> orc ?v y = int (?cnt y)" if "y \<in> set cids" for y
  proof -
    have "orow ix y \<noteq> None"
    proof
      assume "orow ix y = None"
      then have "orow ?v y = None" by simp
      with countedD(3) [OF cv, of y] pos [of y] that show False by (simp add: orc_def)
    qed
    then show ?thesis by (auto simp: orc_def row)
  qed
  have "ix_edges ix' = filter (\<lambda>e. \<not> (ed_object e \<in> set cids \<and> orc ix' (ed_object e) = 0)) (ix_edges ix)"
    unfolding e using rc by (auto intro!: filter_cong)
  moreover have "ix_unbind n ix = Inr ix'" using f(1) by (simp add: ix_unbind_def Let_def cids_def)
  ultimately show ?thesis using f row b by (simp add: bview fun_eq_iff block_keys_def)
qed

end
