(* ===== verification/Content_Store.thy ===== *)
theory Content_Store
  imports Store_Types "HOL-Library.AList"
begin

text \<open>
  The filesystem content store, \<^verbatim>\<open>services/fq-store/src/fs.rs\<close>, with the traits of
  \<^verbatim>\<open>lib.rs\<close> it implements. The two directories are association lists from file name to file;
  \<^verbatim>\<open>write_atomic\<close> (temp file, fsync, rename) is one atomic update. BLAKE3, hex, the JSON of a
  manifest and FastCDC are parameters (\<open>store_env\<close>), with \<open>env_ok\<close> saying what the store relies
  on. Clocks are whole milliseconds passed in by the caller. The lemmas show that what is written is
  read back, in full and by range.
\<close>

section \<open>Files, manifests and the environment\<close>

record block_ref =
  br_hash :: string
  br_len :: nat
  br_generation :: nat

record manifest =
  mf_size :: nat
  mf_blocks :: "block_ref list"

record fs_file =
  fl_bytes :: bytes
  fl_mtime :: int

record fs_store =
  fs_blocks :: "(string \<times> fs_file) list"
  fs_objects :: "(string \<times> fs_file) list"

record store_env =
  se_hash :: "bytes \<Rightarrow> cid"
  se_hex :: "cid \<Rightarrow> string"
  se_unhex :: "string \<Rightarrow> cid option"
  se_enc :: "manifest \<Rightarrow> bytes"
  se_dec :: "bytes \<Rightarrow> manifest option"
  se_cuts :: "bytes \<Rightarrow> (nat \<times> nat) list"

text \<open>A byte_slice \<^verbatim>\<open>&bytes[offset..offset + len]\<close>, in range.\<close>

definition byte_slice :: "nat \<Rightarrow> nat \<Rightarrow> bytes \<Rightarrow> bytes" where
  "byte_slice off len bs = take len (drop off bs)"

text \<open>
  Documented behaviour of the libraries: hex and JSON decode what they encoded, hex text has no dot,
  and the chunker's cuts are in range and tile the content in order.
\<close>

definition env_ok :: "store_env \<Rightarrow> bool" where
  "env_ok env \<longleftrightarrow>
     (\<forall>c. se_unhex env (se_hex env c) = Some c \<and> CHR ''.'' \<notin> set (se_hex env c))
     \<and> (\<forall>m. se_dec env (se_enc env m) = Some m)
     \<and> (\<forall>b. b \<noteq> [] \<longrightarrow> (\<forall>(off, len) \<in> set (se_cuts env b). off + len \<le> length b)
          \<and> concat (map (\<lambda>(off, len). byte_slice off len b) (se_cuts env b)) = b)"

section \<open>Paths\<close>

text \<open>The file name of a block generation; its shard directory is a function of the hash.\<close>

definition block_path :: "string \<Rightarrow> nat \<Rightarrow> string" where
  "block_path hash generation = (if generation = 0 then hash else hash @ ''.'' @ show_nat generation)"

definition object_path :: "store_env \<Rightarrow> cid \<Rightarrow> string" where
  "object_path env c = se_hex env c"

text \<open>\<^verbatim>\<open>str::parse::<u32>\<close>: an optional plus sign, then digits, below \<open>2 ^ 32\<close>.\<close>

definition is_digit :: "char \<Rightarrow> bool" where
  "is_digit c \<longleftrightarrow> CHR ''0'' \<le> c \<and> c \<le> CHR ''9''"

definition digits_value :: "string \<Rightarrow> nat" where
  "digits_value s = foldl (\<lambda>n c. 10 * n + (of_char c - of_char (CHR ''0''))) 0 s"

definition parse_u32 :: "string \<Rightarrow> nat option" where
  "parse_u32 s =
     (let ds = (case s of c # cs \<Rightarrow> if c = CHR ''+'' then cs else s | [] \<Rightarrow> s)
      in if ds \<noteq> [] \<and> list_all is_digit ds \<and> digits_value ds < 2 ^ 32 then Some (digits_value ds) else None)"

text \<open>\<^verbatim>\<open>name.split_once('.')\<close>\<close>

definition split_once_dot :: "string \<Rightarrow> (string \<times> string) option" where
  "split_once_dot s =
     (if CHR ''.'' \<in> set s
      then Some (takeWhile (\<lambda>c. c \<noteq> CHR ''.'') s, tl (dropWhile (\<lambda>c. c \<noteq> CHR ''.'') s)) else None)"

definition parse_block_name :: "store_env \<Rightarrow> string \<Rightarrow> (cid \<times> nat) option" where
  "parse_block_name env n =
     (case split_once_dot n of
        Some (h, g) \<Rightarrow>
          (case parse_u32 g of None \<Rightarrow> None
           | Some generation \<Rightarrow> (case se_unhex env h of None \<Rightarrow> None | Some c \<Rightarrow> Some (c, generation)))
      | None \<Rightarrow> (case se_unhex env n of None \<Rightarrow> None | Some c \<Rightarrow> Some (c, 0)))"

section \<open>Reading\<close>

definition read_manifest :: "store_env \<Rightarrow> fs_store \<Rightarrow> cid \<Rightarrow> manifest result" where
  "read_manifest env fs c =
     (case map_of (fs_objects fs) (object_path env c) of
        None \<Rightarrow> Inl (NotFound c)
      | Some f \<Rightarrow>
          (case se_dec env (fl_bytes f) of
             None \<Rightarrow> Inl Corrupt
           | Some m \<Rightarrow>
               if list_all (\<lambda>b. se_unhex env (br_hash b) \<noteq> None) (mf_blocks m) then Inr m else Inl Corrupt))"

definition read_block :: "fs_store \<Rightarrow> block_ref \<Rightarrow> bytes result" where
  "read_block fs b =
     (case map_of (fs_blocks fs) (block_path (br_hash b) (br_generation b)) of
        None \<Rightarrow> Inl Corrupt
      | Some f \<Rightarrow> Inr (fl_bytes f))"

fun read_blocks :: "fs_store \<Rightarrow> block_ref list \<Rightarrow> bytes \<Rightarrow> bytes result" where
  "read_blocks fs [] out = Inr out"
| "read_blocks fs (b # bs) out = bindR (read_block fs b) (\<lambda>d. read_blocks fs bs (out @ d))"

definition cs_get :: "store_env \<Rightarrow> fs_store \<Rightarrow> cid \<Rightarrow> bytes result" where
  "cs_get env fs c = bindR (read_manifest env fs c) (\<lambda>m. read_blocks fs (mf_blocks m) [])"

primrec range_loop :: "fs_store \<Rightarrow> nat \<Rightarrow> nat \<Rightarrow> nat \<Rightarrow> block_ref list \<Rightarrow> bytes \<Rightarrow> bytes result" where
  "range_loop fs offset stop pos [] out = Inr out"
| "range_loop fs offset stop pos (b # bs) out =
     (let block_start = pos; block_end = sat_add 64 pos (br_len b) in
      if block_end \<le> offset then range_loop fs offset stop block_end bs out
      else if block_start \<ge> stop then Inr out
      else bindR (read_block fs b) (\<lambda>d.
        let start = min (offset - block_start) (length d);
            to = min (min (stop - block_start) (br_len b)) (length d)
        in range_loop fs offset stop block_end bs (out @ byte_slice start (max to start - start) d)))"

definition cs_get_range :: "store_env \<Rightarrow> fs_store \<Rightarrow> cid \<Rightarrow> nat \<Rightarrow> nat \<Rightarrow> bytes result" where
  "cs_get_range env fs c offset len =
     bindR (read_manifest env fs c) (\<lambda>m.
       let stop = min (sat_add 64 offset len) (mf_size m) in
       if offset \<ge> mf_size m \<or> stop \<le> offset then Inr []
       else range_loop fs offset stop 0 (mf_blocks m) [])"

definition cs_has :: "store_env \<Rightarrow> fs_store \<Rightarrow> cid \<Rightarrow> bool" where
  "cs_has env fs c = (map_of (fs_objects fs) (object_path env c) \<noteq> None)"

definition cs_size :: "store_env \<Rightarrow> fs_store \<Rightarrow> cid \<Rightarrow> nat result" where
  "cs_size env fs c = bindR (read_manifest env fs c) (\<lambda>m. Inr (mf_size m))"

definition cs_blocks :: "store_env \<Rightarrow> fs_store \<Rightarrow> cid \<Rightarrow> cid list result" where
  "cs_blocks env fs c = bindR (read_manifest env fs c) (\<lambda>m.
     traverse (\<lambda>b. case se_unhex env (br_hash b) of None \<Rightarrow> Inl Corrupt | Some h \<Rightarrow> Inr h) (mf_blocks m))"

definition cs_has_block :: "store_env \<Rightarrow> fs_store \<Rightarrow> cid \<Rightarrow> nat \<Rightarrow> bool" where
  "cs_has_block env fs h g = (map_of (fs_blocks fs) (block_path (se_hex env h) g) \<noteq> None)"

record stats =
  st_objects :: nat
  st_logical_bytes :: nat
  st_block_refs :: nat
  st_blocks :: nat
  st_physical_bytes :: nat

fun stats_objects :: "store_env \<Rightarrow> (string \<times> fs_file) list \<Rightarrow> stats \<Rightarrow> stats result" where
  "stats_objects env [] s = Inr s"
| "stats_objects env ((_, f) # fs) s =
     (case se_dec env (fl_bytes f) of
        None \<Rightarrow> Inl Corrupt
      | Some m \<Rightarrow> stats_objects env fs (s\<lparr>st_objects := st_objects s + 1,
          st_logical_bytes := st_logical_bytes s + mf_size m,
          st_block_refs := st_block_refs s + length (mf_blocks m)\<rparr>))"

definition cs_stats :: "store_env \<Rightarrow> fs_store \<Rightarrow> stats result" where
  "cs_stats env fs =
     bindR (stats_objects env (fs_objects fs)
       \<lparr>st_objects = 0, st_logical_bytes = 0, st_block_refs = 0, st_blocks = 0, st_physical_bytes = 0\<rparr>)
     (\<lambda>s. Inr (fold (\<lambda>(_, f) s. s\<lparr>st_blocks := st_blocks s + 1,
         st_physical_bytes := st_physical_bytes s + length (fl_bytes f)\<rparr>) (fs_blocks fs) s))"

section \<open>Writing\<close>

definition write_atomic :: "int \<Rightarrow> string \<Rightarrow> bytes \<Rightarrow> (string \<times> fs_file) list \<Rightarrow> (string \<times> fs_file) list" where
  "write_atomic now path b dir = AList.update path \<lparr>fl_bytes = b, fl_mtime = now\<rparr> dir"

definition cs_chunk :: "store_env \<Rightarrow> bytes \<Rightarrow> chunk list" where
  "cs_chunk env content =
     (if content = [] then []
      else map (\<lambda>(off, len). \<lparr>ck_hash = se_hash env (byte_slice off len content), ck_offset = off, ck_len = len\<rparr>)
             (se_cuts env content))"

definition write_block :: "store_env \<Rightarrow> int \<Rightarrow> cid \<Rightarrow> nat \<Rightarrow> bytes \<Rightarrow> fs_store \<Rightarrow> fs_store" where
  "write_block env now h g b fs =
     (let path = block_path (se_hex env h) g in
      if map_of (fs_blocks fs) path = None then fs\<lparr>fs_blocks := write_atomic now path b (fs_blocks fs)\<rparr> else fs)"

definition write_object :: "store_env \<Rightarrow> int \<Rightarrow> cid \<Rightarrow> nat \<Rightarrow> (cid \<times> nat \<times> nat) list \<Rightarrow> fs_store \<Rightarrow> fs_store" where
  "write_object env now c sz blocks fs =
     (let m = \<lparr>mf_size = sz, mf_blocks =
            map (\<lambda>(h, g, len). \<lparr>br_hash = se_hex env h, br_len = len, br_generation = g\<rparr>) blocks\<rparr>
      in fs\<lparr>fs_objects := write_atomic now (object_path env c) (se_enc env m) (fs_objects fs)\<rparr>)"

definition cs_put :: "store_env \<Rightarrow> int \<Rightarrow> bytes \<Rightarrow> fs_store \<Rightarrow> cid \<times> fs_store" where
  "cs_put env now content fs =
     (let c = se_hash env content in
      if cs_has env fs c then (c, fs)
      else
        (let chunks = cs_chunk env content;
             fs' = fold (\<lambda>ch. write_block env now (ck_hash ch) 0 (byte_slice (ck_offset ch) (ck_len ch) content)) chunks fs
         in (c, write_object env now c (length content) (map (\<lambda>ch. (ck_hash ch, 0, ck_len ch)) chunks) fs')))"

definition cs_remove :: "store_env \<Rightarrow> cid \<Rightarrow> fs_store \<Rightarrow> fs_store" where
  "cs_remove env c fs = fs\<lparr>fs_objects := AList.delete (object_path env c) (fs_objects fs)\<rparr>"

definition cs_remove_block :: "store_env \<Rightarrow> cid \<Rightarrow> nat \<Rightarrow> fs_store \<Rightarrow> fs_store" where
  "cs_remove_block env h g fs = fs\<lparr>fs_blocks := AList.delete (block_path (se_hex env h) g) (fs_blocks fs)\<rparr>"

definition list_stored_blocks :: "store_env \<Rightarrow> fs_store \<Rightarrow> (cid \<times> nat \<times> int) list" where
  "list_stored_blocks env fs = List.map_filter (\<lambda>(n, f).
     map_option (\<lambda>(h, g). (h, g, fl_mtime f)) (parse_block_name env n)) (fs_blocks fs)"

definition list_stored_objects :: "store_env \<Rightarrow> fs_store \<Rightarrow> (cid \<times> int) list" where
  "list_stored_objects env fs = List.map_filter (\<lambda>(n, f).
     map_option (\<lambda>c. (c, fl_mtime f)) (se_unhex env n)) (fs_objects fs)"

section \<open>File names\<close>

lemma digits_value_snoc: "digits_value (s @ [c]) = 10 * digits_value s + (of_char c - 48)"
  by (simp add: digits_value_def)

lemma digit_char:
  fixes n :: nat
  assumes "n < 10"
  shows "is_digit (char_of (48 + n))" "of_char (char_of (48 + n) :: char) - 48 = n"
    "char_of (48 + n) \<noteq> CHR ''+''" "CHR ''+'' \<noteq> char_of (48 + n)"
proof -
  have v: "of_char (char_of (48 + n) :: char) = 48 + n" using assms by simp
  show "is_digit (char_of (48 + n))"
    unfolding is_digit_def less_eq_char_def v using assms by simp
  show "of_char (char_of (48 + n) :: char) - 48 = n" by (simp only: v add_diff_cancel_left')
  have "(of_char (CHR ''+'') :: nat) \<noteq> of_char (char_of (48 + n) :: char)" by (simp only: v) simp
  then show "CHR ''+'' \<noteq> char_of (48 + n)" by (rule contrapos_nn) (rule arg_cong)
  then show "char_of (48 + n) \<noteq> CHR ''+''" by (rule not_sym)
qed

lemma show_nat_digits: "list_all is_digit (show_nat n) \<and> digits_value (show_nat n) = n \<and> show_nat n \<noteq> []
    \<and> CHR ''+'' \<notin> set (show_nat n)"
proof (induction n rule: show_nat.induct)
  case (1 n)
  have d: "n mod 10 < 10" by simp
  show ?case
  proof (cases "n < 10")
    case True
    then show ?thesis by (simp add: show_nat.simps [of n] digit_char digits_value_def)
  next
    case False
    with "1.IH" digit_char [OF d] show ?thesis
      by (simp add: show_nat.simps [of n] digits_value_snoc)
  qed
qed

lemma show_nat_inj [simp]: "show_nat m = show_nat n \<longleftrightarrow> m = n"
proof
  have v: "digits_value (show_nat k) = k" for k using show_nat_digits [of k] by blast
  assume "show_nat m = show_nat n"
  then have "digits_value (show_nat m) = digits_value (show_nat n)" by (rule arg_cong)
  then show "m = n" by (simp only: v)
qed (rule arg_cong)

lemma parse_show_nat: "n < 2 ^ 32 \<Longrightarrow> parse_u32 (show_nat n) = Some n"
proof -
  assume n: "n < 2 ^ 32"
  have d: "list_all is_digit (show_nat n)" "digits_value (show_nat n) = n" "show_nat n \<noteq> []"
    "CHR ''+'' \<notin> set (show_nat n)" using show_nat_digits [of n] by blast+
  then have "(case show_nat n of c # cs \<Rightarrow> if c = CHR ''+'' then cs else show_nat n | [] \<Rightarrow> show_nat n) = show_nat n"
    by (cases "show_nat n") auto
  with d n show ?thesis by (simp only: parse_u32_def Let_def simp_thms if_True)
qed

lemma split_once_dot_append:
  "CHR ''.'' \<notin> set h \<Longrightarrow> split_once_dot (h @ ''.'' @ g) = Some (h, g)"
  by (simp add: split_once_dot_def takeWhile_append dropWhile_append)

lemma env_hex:
  assumes "env_ok env"
  shows "se_unhex env (se_hex env c) = Some c" "CHR ''.'' \<notin> set (se_hex env c)"
    "se_hex env c = se_hex env d \<longleftrightarrow> c = d"
  using assms unfolding env_ok_def by (blast, blast, metis option.inject)

lemma env_dec: "env_ok env \<Longrightarrow> se_dec env (se_enc env m) = Some m"
  by (simp add: env_ok_def)

lemma split_once_block_path:
  assumes "env_ok env"
  shows "split_once_dot (block_path (se_hex env h) g)
    = (if g = 0 then None else Some (se_hex env h, show_nat g))"
  using split_once_dot_append [OF env_hex(2) [OF assms], of h "show_nat g"] env_hex(2) [OF assms, of h]
  by (auto simp: block_path_def split_once_dot_def)

lemma block_path_inj:
  assumes "env_ok env"
  shows "block_path (se_hex env h) g = block_path (se_hex env h') g' \<longleftrightarrow> h = h' \<and> g = g'" (is "?L = ?R")
proof
  assume l: ?L
  then have s: "split_once_dot (block_path (se_hex env h) g) = split_once_dot (block_path (se_hex env h') g')"
    by simp
  show ?R
  proof (cases "g = 0")
    case True
    with s have "g' = 0" by (simp add: split_once_block_path [OF assms] split: if_splits)
    with l True show ?thesis by (simp add: block_path_def env_hex(3) [OF assms])
  next
    case False
    with s have "g' \<noteq> 0 \<and> se_hex env h = se_hex env h' \<and> show_nat g = show_nat g'"
      by (simp add: split_once_block_path [OF assms] split: if_splits)
    then show ?thesis by (simp add: env_hex(3) [OF assms])
  qed
qed simp

section \<open>Reading back\<close>

text \<open>
  A manifest file whose blocks are all on disk with the recorded lengths and concatenate to
  \<open>content\<close>.
\<close>

definition refs_hold :: "fs_store \<Rightarrow> block_ref list \<Rightarrow> bytes list \<Rightarrow> bool" where
  "refs_hold fs refs ds \<longleftrightarrow> list_all2 (\<lambda>r d. read_block fs r = Inr d \<and> br_len r = length d) refs ds"

definition holds_object :: "store_env \<Rightarrow> fs_store \<Rightarrow> cid \<Rightarrow> bytes \<Rightarrow> bool" where
  "holds_object env fs c content \<longleftrightarrow> (\<exists>refs ds.
     read_manifest env fs c = Inr \<lparr>mf_size = length content, mf_blocks = refs\<rparr>
     \<and> refs_hold fs refs ds \<and> concat ds = content)"

lemma read_blocks_hold: "refs_hold fs refs ds \<Longrightarrow> read_blocks fs refs out = Inr (out @ concat ds)"
  unfolding refs_hold_def by (induction refs arbitrary: ds out) (auto simp: list_all2_Cons1)

lemma get_holds: "holds_object env fs c content \<Longrightarrow> cs_get env fs c = Inr content"
  by (auto simp: holds_object_def cs_get_def read_blocks_hold)

lemma size_holds: "holds_object env fs c content \<Longrightarrow> cs_size env fs c = Inr (length content)"
  by (auto simp: holds_object_def cs_size_def)

lemma take_length_min: "take (min n (length xs)) xs = take n xs"
  by (simp add: min_def)

text \<open>The part of one block that lies in a byte range.\<close>

lemma block_piece:
  fixes offset stop pos :: nat
  assumes "offset < pos + length d" "pos < stop"
  defines "a \<equiv> min (offset - pos) (length d)" and "b \<equiv> min (min (stop - pos) (length d)) (length d)"
  shows "byte_slice a (max b a - a) d = take (stop - max pos offset) (drop (offset - pos) d)"
proof -
  have a: "a = offset - pos" using assms(1) by (simp add: a_def)
  have "min (max b a - a) (length d - a) = min (stop - max pos offset) (length d - a)"
    using assms(1,2) unfolding a b_def by (simp add: min_def max_def) arith
  then have "take (max b a - a) (drop a d) = take (stop - max pos offset) (drop a d)"
    by (metis length_drop take_length_min)
  then show ?thesis by (simp add: byte_slice_def a)
qed

lemma range_loop_hold:
  assumes "refs_hold fs refs ds" "pos + length (concat ds) < 2 ^ 64"
  shows "range_loop fs offset stop pos refs out
    = Inr (out @ take (stop - max pos offset) (drop (offset - pos) (concat ds)))"
  using assms
proof (induction refs arbitrary: ds pos out)
  case Nil
  then show ?case by (simp add: refs_hold_def)
next
  case (Cons r refs)
  from Cons.prems(1) obtain d ds' where ds: "ds = d # ds'" and r: "read_block fs r = Inr d" "br_len r = length d"
    and rest: "refs_hold fs refs ds'"
    by (auto simp: refs_hold_def list_all2_Cons1)
  from Cons.prems(2) have len: "pos + length d + length (concat ds') < 2 ^ 64" by (simp add: ds)
  then have be: "sat_add 64 pos (length d) = pos + length d"
    by (simp add: sat_add_def)
  note IH = Cons.IH [OF rest len]
  consider "pos + length d \<le> offset" | "offset < pos + length d" "stop \<le> pos" | "offset < pos + length d" "pos < stop"
    by linarith
  then show ?case
  proof cases
    case 1
    then have "drop (offset - pos) (concat ds) = drop (offset - (pos + length d)) (concat ds')"
      by (simp add: ds)
    with 1 show ?thesis using IH by (simp add: Let_def be r)
  next
    case 2
    then show ?thesis by (simp add: Let_def be r)
  next
    case 3
    have split: "take (stop - max pos offset) (drop (offset - pos) (concat ds))
      = take (stop - max pos offset) (drop (offset - pos) d)
        @ take (stop - max (pos + length d) offset) (drop (offset - (pos + length d)) (concat ds'))"
      using 3 by (simp add: ds) (simp add: max_def)
    from 3 have "\<not> pos + length d \<le> offset" "\<not> stop \<le> pos" by simp_all
    then show ?thesis
      using IH by (simp only: range_loop.simps Let_def be r bindR.simps block_piece [OF 3] split append_assoc
          if_False)
  qed
qed

lemma get_range_holds:
  assumes "holds_object env fs c content" "length content < 2 ^ 64"
  shows "cs_get_range env fs c offset len = Inr (byte_slice offset len content)"
proof -
  from assms(1) obtain refs ds where m: "read_manifest env fs c = Inr \<lparr>mf_size = length content, mf_blocks = refs\<rparr>"
    and h: "refs_hold fs refs ds" and ds: "concat ds = content"
    by (auto simp: holds_object_def)
  let ?stop = "min (sat_add 64 offset len) (length content)"
  have stop: "?stop = min (offset + len) (length content)"
    using assms(2) by (simp add: sat_add_def)
  show ?thesis
  proof (cases "offset \<ge> length content \<or> ?stop \<le> offset")
    case True
    then show ?thesis by (auto simp: cs_get_range_def m Let_def stop byte_slice_def)
  next
    case False
    have "take (?stop - max 0 offset) (drop (offset - 0) content) = byte_slice offset len content"
      unfolding byte_slice_def stop using False by (auto simp: min_def)
    with False show ?thesis
      using range_loop_hold [OF h, of 0 offset ?stop "[]"] assms(2)
      by (simp add: cs_get_range_def m Let_def ds)
  qed
qed

section \<open>How writes and removals change what is read\<close>

definition block_data :: "store_env \<Rightarrow> fs_store \<Rightarrow> cid \<Rightarrow> nat \<Rightarrow> bytes option" where
  "block_data env fs h g = map_option fl_bytes (map_of (fs_blocks fs) (block_path (se_hex env h) g))"

lemma cs_has_block_data: "cs_has_block env fs h g \<longleftrightarrow> block_data env fs h g \<noteq> None"
  by (simp add: cs_has_block_def block_data_def)

lemma block_data_write_block [tbl]:
  "env_ok env \<Longrightarrow> block_data env (write_block env now h g b fs) h' g' =
     (if h' = h \<and> g' = g \<and> block_data env fs h g = None then Some b else block_data env fs h' g')"
  by (auto simp: block_data_def write_block_def write_atomic_def Let_def update_conv' block_path_inj)

lemma block_data_write_object [tbl]: "block_data env (write_object env now c sz bs fs) = block_data env fs"
  by (simp add: fun_eq_iff block_data_def write_object_def Let_def)

lemma block_data_remove [tbl]: "block_data env (cs_remove env c fs) = block_data env fs"
  by (simp add: fun_eq_iff block_data_def cs_remove_def)

lemma block_data_remove_block [tbl]:
  "env_ok env \<Longrightarrow> block_data env (cs_remove_block env h g fs) h' g' =
     (if h' = h \<and> g' = g then None else block_data env fs h' g')"
  by (simp add: block_data_def cs_remove_block_def delete_conv' block_path_inj)

lemma read_manifest_write_block [tbl]: "read_manifest env (write_block env now h g b fs) = read_manifest env fs"
  by (simp add: fun_eq_iff read_manifest_def write_block_def Let_def)

lemma read_manifest_remove_block [tbl]: "read_manifest env (cs_remove_block env h g fs) = read_manifest env fs"
  by (simp add: fun_eq_iff read_manifest_def cs_remove_block_def)

lemma read_manifest_remove [tbl]:
  "env_ok env \<Longrightarrow> read_manifest env (cs_remove env c fs) c' = (if c' = c then Inl (NotFound c) else read_manifest env fs c')"
  by (simp add: read_manifest_def cs_remove_def delete_conv' object_path_def env_hex)

lemma read_manifest_write_object [tbl]:
  "env_ok env \<Longrightarrow> read_manifest env (write_object env now c sz bs fs) c' =
     (if c' = c then Inr \<lparr>mf_size = sz, mf_blocks =
        map (\<lambda>(h, g, len). \<lparr>br_hash = se_hex env h, br_len = len, br_generation = g\<rparr>) bs\<rparr>
      else read_manifest env fs c')"
  by (simp add: read_manifest_def write_object_def write_atomic_def Let_def update_conv' object_path_def
      env_hex env_dec list_all_iff case_prod_beta)

lemma cs_has_upd [tbl]:
  "cs_has env (write_block env now h g b fs) = cs_has env fs"
  "cs_has env (cs_remove_block env h g fs) = cs_has env fs"
  "env_ok env \<Longrightarrow> cs_has env (cs_remove env c fs) c' \<longleftrightarrow> c' \<noteq> c \<and> cs_has env fs c'"
  "env_ok env \<Longrightarrow> cs_has env (write_object env now c sz bs fs) c' \<longleftrightarrow> c' = c \<or> cs_has env fs c'"
  by (auto simp: fun_eq_iff cs_has_def write_block_def cs_remove_block_def cs_remove_def write_object_def
      write_atomic_def Let_def delete_conv' update_conv' object_path_def env_hex)

text \<open>The manifest the write path gives \<open>content\<close> when block \<open>h\<close> landed on generation \<open>gen h\<close>.\<close>

definition chunk_bytes :: "bytes \<Rightarrow> chunk \<Rightarrow> bytes" where
  "chunk_bytes content ch = byte_slice (ck_offset ch) (ck_len ch) content"

definition manifest_of :: "store_env \<Rightarrow> (cid \<Rightarrow> nat) \<Rightarrow> bytes \<Rightarrow> manifest" where
  "manifest_of env gen content = \<lparr>mf_size = length content, mf_blocks =
     map (\<lambda>ch. \<lparr>br_hash = se_hex env (ck_hash ch), br_len = ck_len ch, br_generation = gen (ck_hash ch)\<rparr>)
       (cs_chunk env content)\<rparr>"

lemma chunk_tiles:
  assumes "env_ok env"
  shows "concat (map (chunk_bytes content) (cs_chunk env content)) = content"
    "ch \<in> set (cs_chunk env content) \<Longrightarrow> length (chunk_bytes content ch) = ck_len ch"
    "ch \<in> set (cs_chunk env content) \<Longrightarrow> ck_hash ch = se_hash env (chunk_bytes content ch)"
proof -
  have cuts: "\<forall>(off, len) \<in> set (se_cuts env content). off + len \<le> length content"
    "concat (map (\<lambda>(off, len). byte_slice off len content) (se_cuts env content)) = content"
    if "content \<noteq> []"
    using assms that unfolding env_ok_def by blast+
  have "map (chunk_bytes content) (cs_chunk env content)
      = map (\<lambda>(off, len). byte_slice off len content) (se_cuts env content)" if "content \<noteq> []"
    using that by (auto simp: cs_chunk_def chunk_bytes_def)
  then show "concat (map (chunk_bytes content) (cs_chunk env content)) = content"
    using cuts(2) by (cases "content = []") (simp add: cs_chunk_def, simp only: not_False_eq_True)
  show "ch \<in> set (cs_chunk env content) \<Longrightarrow> length (chunk_bytes content ch) = ck_len ch"
    using cuts(1) by (force simp: cs_chunk_def chunk_bytes_def byte_slice_def split: if_splits)
  show "ch \<in> set (cs_chunk env content) \<Longrightarrow> ck_hash ch = se_hash env (chunk_bytes content ch)"
    by (auto simp: cs_chunk_def chunk_bytes_def split: if_splits)
qed

lemma manifest_holds:
  assumes env: "env_ok env" and m: "read_manifest env fs c = Inr (manifest_of env gen content)"
    and b: "\<And>ch. ch \<in> set (cs_chunk env content) \<Longrightarrow>
      block_data env fs (ck_hash ch) (gen (ck_hash ch)) = Some (chunk_bytes content ch)"
  shows "holds_object env fs c content"
proof -
  let ?ref = "\<lambda>ch. \<lparr>br_hash = se_hex env (ck_hash ch), br_len = ck_len ch, br_generation = gen (ck_hash ch)\<rparr>"
  have "refs_hold fs (map ?ref cs) (map (chunk_bytes content) cs)" if "set cs \<subseteq> set (cs_chunk env content)" for cs
    using that
  proof (induction cs)
    case (Cons ch cs)
    with b [of ch] chunk_tiles(2) [OF env, of ch content] show ?case
      by (auto simp: refs_hold_def block_data_def read_block_def)
  qed (simp add: refs_hold_def)
  from this [OF order_refl] m chunk_tiles(1) [OF env, of content] show ?thesis
    unfolding holds_object_def manifest_of_def by blast
qed

end
