(* ===== verification/Content_Properties.thy ===== *)
theory Content_Properties
  imports Content_Store
begin

text \<open>
  A concrete environment for the content store (\<open>plain_env\<close>), used by the witnesses of every
  property that assumes \<open>env_ok\<close>, and the properties of the content store on its own: file names
  round-trip, and whatever was put is read back.
\<close>

section \<open>A concrete environment\<close>

text \<open>Sixteen letters as digits, two per byte.\<close>

definition letter :: "nat \<Rightarrow> char" where
  "letter n = char_of (97 + n)"

definition letter_value :: "char \<Rightarrow> nat" where
  "letter_value c = of_char c - 97"

fun plain_hex :: "cid \<Rightarrow> string" where
  "plain_hex (Cid bs) = concat (map (\<lambda>b. [letter (unat b div 16), letter (unat b mod 16)]) bs)"

fun unhex_bytes :: "string \<Rightarrow> bytes option" where
  "unhex_bytes [] = Some []"
| "unhex_bytes [c] = None"
| "unhex_bytes (c # d # s) =
     map_option ((#) (of_nat (letter_value c * 16 + letter_value d))) (unhex_bytes s)"

text \<open>Numbers in unary with a terminator, and manifests as lists of numbers.\<close>

definition enc_nats :: "nat list \<Rightarrow> bytes" where
  "enc_nats ns = concat (map (\<lambda>n. replicate n 1 @ [0]) ns)"

fun dec_nats :: "nat \<Rightarrow> bytes \<Rightarrow> nat list" where
  "dec_nats n [] = []"
| "dec_nats n (b # bs) = (if b = 0 then n # dec_nats 0 bs else dec_nats (Suc n) bs)"

fun ref_nats :: "block_ref list \<Rightarrow> nat list" where
  "ref_nats [] = []"
| "ref_nats (r # rs) = length (br_hash r) # map of_char (br_hash r) @ br_len r # br_generation r # ref_nats rs"

function dec_refs :: "nat list \<Rightarrow> block_ref list option" where
  "dec_refs [] = Some []"
| "dec_refs (n # ns) =
     (case drop n ns of
        l # g # rest \<Rightarrow> map_option ((#) \<lparr>br_hash = map char_of (take n ns), br_len = l, br_generation = g\<rparr>) (dec_refs rest)
      | _ \<Rightarrow> None)"
  by pat_completeness auto
termination
proof (relation "measure length")
  fix n ns l x g rest
  assume "drop n ns = (l :: nat) # x" "x = g # rest"
  then have "length (drop n ns) = Suc (Suc (length rest))" by simp
  then show "(rest, n # ns) \<in> measure length" by simp
qed simp

definition plain_env :: store_env where
  "plain_env = \<lparr>se_hash = Cid, se_hex = plain_hex, se_unhex = (\<lambda>s. map_option Cid (unhex_bytes s)),
     se_enc = (\<lambda>m. enc_nats (mf_size m # ref_nats (mf_blocks m))),
     se_dec = (\<lambda>b. case dec_nats 0 b of [] \<Rightarrow> None
                 | n # ns \<Rightarrow> map_option (\<lambda>rs. \<lparr>mf_size = n, mf_blocks = rs\<rparr>) (dec_refs ns)),
     se_cuts = (\<lambda>b. [(0, 1), (1, length b - 1)])\<rparr>"

lemma letter_props:
  assumes "n < 16"
  shows "letter_value (letter n) = n" "letter n \<noteq> CHR ''.''"
proof -
  have v: "of_char (letter n) = 97 + n" using assms by (simp add: letter_def)
  then show "letter_value (letter n) = n" by (simp add: letter_value_def)
  have "(of_char (CHR ''.'') :: nat) \<noteq> of_char (letter n)" by (simp only: v) simp
  then show "letter n \<noteq> CHR ''.''" by auto
qed

lemma byte_nibble: "unat (b :: byte) div 16 < 16"
proof -
  have "unat b < 256" by (rule order_less_le_trans [OF unsigned_less]) simp
  then show ?thesis by simp
qed

lemma unhex_hex: "unhex_bytes (plain_hex (Cid bs)) = Some bs"
proof (induction bs)
  case (Cons b bs)
  have "of_nat (letter_value (letter (unat b div 16)) * 16 + letter_value (letter (unat b mod 16))) = b"
    by (simp add: letter_props byte_nibble)
  with Cons show ?case by simp
qed simp

lemma hex_no_dot: "CHR ''.'' \<notin> set (plain_hex c)"
proof (cases c)
  case (Cid bs)
  have "CHR ''.'' \<noteq> letter (unat b div 16)" "CHR ''.'' \<noteq> letter (unat b mod 16)" for b :: byte
    using letter_props(2) [OF byte_nibble, of b] letter_props(2) [of "unat b mod 16"] by auto
  then show ?thesis by (simp add: Cid)
qed

lemma dec_unary: "dec_nats k (replicate n 1 @ 0 # bs) = (k + n) # dec_nats 0 bs"
  by (induction n arbitrary: k) auto

lemma dec_enc_nats: "dec_nats 0 (enc_nats ns) = ns"
  by (induction ns) (simp_all add: enc_nats_def dec_unary)

lemma dec_ref_nats: "dec_refs (ref_nats rs) = Some rs"
  by (induction rs) (simp_all add: comp_def)

lemma plain_env_ok: "env_ok plain_env"
proof -
  have "concat (map (\<lambda>(off, len). byte_slice off len b) [(0, 1), (1, length b - 1)]) = b"
    if "b \<noteq> []" for b
    using that by (cases b) (simp_all add: byte_slice_def)
  moreover have "se_unhex plain_env (se_hex plain_env c) = Some c" for c
    using unhex_hex by (cases c) (simp add: plain_env_def del: plain_hex.simps)
  ultimately show ?thesis
    by (auto simp: env_ok_def plain_env_def hex_no_dot dec_enc_nats dec_ref_nats neq_Nil_conv)
qed

section \<open>The write path keeps the store content-addressed\<close>

text \<open>The byte strings a list of contents makes the store hash.\<close>

definition hashed :: "store_env \<Rightarrow> bytes list \<Rightarrow> bytes set" where
  "hashed env cs = set cs \<union> (\<Union>c \<in> set cs. chunk_bytes c ` set (cs_chunk env c))"

definition blocks_ok :: "store_env \<Rightarrow> bytes set \<Rightarrow> fs_store \<Rightarrow> bool" where
  "blocks_ok env U fs \<longleftrightarrow> (\<forall>h g b. block_data env fs h g = Some b \<longrightarrow> b \<in> U \<and> se_hash env b = h)"

definition chunks_at :: "store_env \<Rightarrow> (cid \<Rightarrow> nat) \<Rightarrow> fs_store \<Rightarrow> bytes \<Rightarrow> bool" where
  "chunks_at env gen fs content \<longleftrightarrow> (\<forall>ch \<in> set (cs_chunk env content).
     block_data env fs (ck_hash ch) (gen (ck_hash ch)) = Some (chunk_bytes content ch))"

definition cas_inv :: "store_env \<Rightarrow> bytes set \<Rightarrow> fs_store \<Rightarrow> bool" where
  "cas_inv env U fs \<longleftrightarrow> blocks_ok env U fs \<and>
     (\<forall>c. cs_has env fs c \<longrightarrow> (\<exists>x \<in> U. se_hash env x = c
        \<and> read_manifest env fs c = Inr (manifest_of env (\<lambda>_. 0) x) \<and> chunks_at env (\<lambda>_. 0) fs x))"

definition blocks_grow :: "store_env \<Rightarrow> fs_store \<Rightarrow> fs_store \<Rightarrow> bool" where
  "blocks_grow env fs fs' \<longleftrightarrow> (\<forall>h g b. block_data env fs h g = Some b \<longrightarrow> block_data env fs' h g = Some b)"

lemma blocks_grow_refl: "blocks_grow env fs fs"
  by (simp add: blocks_grow_def)

lemma blocks_grow_trans: "blocks_grow env a b \<Longrightarrow> blocks_grow env b c \<Longrightarrow> blocks_grow env a c"
  by (simp add: blocks_grow_def)

lemma chunks_at_grow: "chunks_at env gen fs x \<Longrightarrow> blocks_grow env fs fs' \<Longrightarrow> chunks_at env gen fs' x"
  by (simp add: chunks_at_def blocks_grow_def)

lemma write_block_ok:
  fixes now :: int and g :: nat
  assumes "env_ok env" "inj_on (se_hash env) U" "b \<in> U" "blocks_ok env U fs"
  defines "fs' \<equiv> write_block env now (se_hash env b) g b fs"
  shows "blocks_ok env U fs'" "blocks_grow env fs fs'" "block_data env fs' (se_hash env b) g = Some b"
proof -
  note up = block_data_write_block [OF assms(1)]
  show "blocks_ok env U fs'" "blocks_grow env fs fs'"
    using assms(3,4) by (auto simp: fs'_def blocks_ok_def blocks_grow_def up split: if_splits)
  show "block_data env fs' (se_hash env b) g = Some b"
  proof (cases "block_data env fs (se_hash env b) g")
    case None
    then show ?thesis by (simp add: fs'_def up)
  next
    case (Some d)
    with assms(4) have "d \<in> U" "se_hash env d = se_hash env b" by (auto simp: blocks_ok_def)
    with assms(2,3) have "d = b" by (auto dest: inj_onD)
    with Some show ?thesis by (simp add: fs'_def up)
  qed
qed

lemma write_chunks:
  fixes now :: int
  assumes env: "env_ok env" and inj: "inj_on (se_hash env) U"
    and sub: "set chs \<subseteq> set (cs_chunk env content)" "chunk_bytes content ` set (cs_chunk env content) \<subseteq> U"
    and ok: "blocks_ok env U fs"
  defines "fs' \<equiv> fold (\<lambda>ch. write_block env now (ck_hash ch) 0 (byte_slice (ck_offset ch) (ck_len ch) content)) chs fs"
  shows "blocks_ok env U fs' \<and> blocks_grow env fs fs'
    \<and> (\<forall>ch \<in> set chs. block_data env fs' (ck_hash ch) 0 = Some (chunk_bytes content ch))
    \<and> read_manifest env fs' = read_manifest env fs \<and> cs_has env fs' = cs_has env fs"
  unfolding fs'_def using sub(1) ok
proof (induction chs arbitrary: fs)
  case Nil
  then show ?case by (simp add: blocks_grow_refl)
next
  case (Cons ch chs)
  let ?b = "chunk_bytes content ch"
  let ?w = "write_block env now (ck_hash ch) 0 (byte_slice (ck_offset ch) (ck_len ch) content) fs"
  have ch: "ck_hash ch = se_hash env ?b" "?b \<in> U"
    using Cons.prems(1) sub(2) chunk_tiles(3) [OF env] by auto
  have w: "?w = write_block env now (se_hash env ?b) 0 ?b fs"
    by (simp add: chunk_bytes_def [symmetric] ch(1))
  note one = write_block_ok [OF env inj ch(2) Cons.prems(2), of now 0, folded w]
  have rest: "set chs \<subseteq> set (cs_chunk env content)" using Cons.prems(1) by simp
  note IH = Cons.IH [OF rest one(1)]
  have "block_data env (fold (\<lambda>ch. write_block env now (ck_hash ch) 0
      (byte_slice (ck_offset ch) (ck_len ch) content)) chs ?w) (ck_hash ch) 0 = Some ?b"
    using IH one(3) by (simp add: blocks_grow_def ch(1))
  with IH blocks_grow_trans [OF one(2)] show ?case
    by (simp add: tbl)
qed

lemma cs_put_inv:
  assumes env: "env_ok env" and inj: "inj_on (se_hash env) U"
    and U: "content \<in> U" "chunk_bytes content ` set (cs_chunk env content) \<subseteq> U"
    and inv: "cas_inv env U fs" and put: "cs_put env now content fs = (c, fs')"
  shows "c = se_hash env content" "cas_inv env U fs'" "cs_has env fs' c"
    "\<And>d. cs_has env fs d \<Longrightarrow> cs_has env fs' d"
proof -
  let ?c = "se_hash env content"
  show c: "c = ?c" using put by (simp add: cs_put_def Let_def split: if_splits)
  have "cas_inv env U fs' \<and> cs_has env fs' c \<and> (\<forall>d. cs_has env fs d \<longrightarrow> cs_has env fs' d)"
  proof (cases "cs_has env fs ?c")
    case True
    with put inv show ?thesis by (simp add: cs_put_def Let_def)
  next
    case False
    let ?chs = "cs_chunk env content"
    let ?fs1 = "fold (\<lambda>ch. write_block env now (ck_hash ch) 0 (byte_slice (ck_offset ch) (ck_len ch) content)) ?chs fs"
    let ?m = "map (\<lambda>ch. (ck_hash ch, 0, ck_len ch)) ?chs"
    have fs': "fs' = write_object env now ?c (length content) ?m ?fs1"
      using put False by (auto simp: cs_put_def Let_def)
    have ok: "blocks_ok env U fs" using inv by (simp add: cas_inv_def)
    note w = write_chunks [OF env inj order_refl U(2) ok, of now]
    have data: "block_data env fs' = block_data env ?fs1" by (simp add: fs' tbl)
    have man: "read_manifest env fs' d = (if d = ?c then Inr (manifest_of env (\<lambda>_. 0) content) else read_manifest env fs d)" for d
      using w env by (simp add: fs' tbl manifest_of_def comp_def)
    have has: "cs_has env fs' d \<longleftrightarrow> d = ?c \<or> cs_has env fs d" for d
      using w env by (simp add: fs' tbl)
    have at: "chunks_at env (\<lambda>_. 0) fs' content" using w by (simp add: chunks_at_def data)
    have grow: "blocks_grow env fs fs'" using w by (simp add: blocks_grow_def data)
    have "\<exists>x \<in> U. se_hash env x = d \<and> read_manifest env fs' d = Inr (manifest_of env (\<lambda>_. 0) x)
        \<and> chunks_at env (\<lambda>_. 0) fs' x" if "cs_has env fs' d" for d
    proof (cases "d = ?c")
      case True
      with U(1) at man show ?thesis by auto
    next
      case other: False
      with that has have "cs_has env fs d" by blast
      with inv other man chunks_at_grow [OF _ grow] show ?thesis unfolding cas_inv_def by metis
    qed
    with w has data show ?thesis by (simp add: cas_inv_def blocks_ok_def c)
  qed
  then show "cas_inv env U fs'" "cs_has env fs' c" "\<And>d. cs_has env fs d \<Longrightarrow> cs_has env fs' d" by auto
qed

lemma cas_inv_holds:
  assumes env: "env_ok env" and inj: "inj_on (se_hash env) U" and inv: "cas_inv env U fs"
    and x: "x \<in> U" "cs_has env fs (se_hash env x)"
  shows "holds_object env fs (se_hash env x) x"
proof -
  from inv x obtain y where y: "y \<in> U" "se_hash env y = se_hash env x"
    "read_manifest env fs (se_hash env x) = Inr (manifest_of env (\<lambda>_. 0) y)" "chunks_at env (\<lambda>_. 0) fs y"
    by (auto simp: cas_inv_def)
  from inj x(1) y(1,2) have "y = x" by (auto dest: inj_onD)
  with y manifest_holds [OF env] show ?thesis by (simp add: chunks_at_def)
qed

definition fs_empty :: fs_store where
  "fs_empty = \<lparr>fs_blocks = [], fs_objects = []\<rparr>"

definition put_all :: "store_env \<Rightarrow> int \<Rightarrow> bytes list \<Rightarrow> fs_store \<Rightarrow> fs_store" where
  "put_all env now cs fs = fold (\<lambda>c fs. snd (cs_put env now c fs)) cs fs"

lemma put_all_inv:
  assumes "env_ok env" "inj_on (se_hash env) U" "hashed env cs \<subseteq> U" "cas_inv env U fs"
  shows "cas_inv env U (put_all env now cs fs)
    \<and> (\<forall>c \<in> set cs. cs_has env (put_all env now cs fs) (se_hash env c))
    \<and> (\<forall>d. cs_has env fs d \<longrightarrow> cs_has env (put_all env now cs fs) d)"
  using assms(3,4)
proof (induction cs arbitrary: fs)
  case (Cons c cs)
  obtain d fs1 where put: "cs_put env now c fs = (d, fs1)" by force
  have U: "c \<in> U" "chunk_bytes c ` set (cs_chunk env c) \<subseteq> U" "hashed env cs \<subseteq> U"
    using Cons.prems(1) by (auto simp: hashed_def)
  note p = cs_put_inv [OF assms(1,2) U(1,2) Cons.prems(2) put]
  from Cons.IH [OF U(3) p(2)] p put show ?case by (auto simp: put_all_def)
qed (simp add: put_all_def)

section \<open>Properties\<close>

text \<open>
  C21. Block file names round-trip. Parsing the file name of generation \<open>g\<close> of block \<open>h\<close>, as the
  audit's directory scan does, gives back \<open>(h, g)\<close> for every 32-bit generation, so two different
  generations never share a file.
\<close>

theorem block_name_roundtrip:
  assumes "env_ok env" "g < 2 ^ 32"
  shows "parse_block_name env (block_path (se_hex env h) g) = Some (h, g)"
  using split_once_block_path [OF assms(1), of h g] env_hex(1) [OF assms(1), of h] parse_show_nat [OF assms(2)]
  by (simp add: parse_block_name_def) (simp add: block_path_def)

theorem block_name_roundtrip_witness:
  "parse_block_name plain_env (block_path (se_hex plain_env (Cid [1, 255])) 7) = Some (Cid [1, 255], 7)"
  by (rule block_name_roundtrip [OF plain_env_ok]) simp

text \<open>
  C22. What is put is what is read. After any sequence of raw puts into an empty content store, every
  content put is read back whole by \<open>get\<close>, its size is reported, and \<open>get_range\<close> returns exactly the
  bytes of the range that exist, for every offset and length. It assumes no hash collision among the
  byte strings involved.
\<close>

theorem put_get_roundtrip:
  assumes "env_ok env" "inj_on (se_hash env) (hashed env cs)" "c \<in> set cs" "length c < 2 ^ 64"
  shows "cs_get env (put_all env now cs fs_empty) (se_hash env c) = Inr c
    \<and> cs_size env (put_all env now cs fs_empty) (se_hash env c) = Inr (length c)
    \<and> cs_get_range env (put_all env now cs fs_empty) (se_hash env c) off len = Inr (take len (drop off c))"
proof -
  have "cas_inv env (hashed env cs) fs_empty"
    by (simp add: cas_inv_def fs_empty_def blocks_ok_def block_data_def cs_has_def)
  from put_all_inv [OF assms(1,2) order_refl this] assms(3)
  have "holds_object env (put_all env now cs fs_empty) (se_hash env c) c"
    by (intro cas_inv_holds [OF assms(1,2)]) (auto simp: hashed_def)
  then show ?thesis
    using assms(4) by (simp add: get_holds size_holds get_range_holds byte_slice_def)
qed

theorem put_get_roundtrip_witness:
  "cs_get plain_env (put_all plain_env 0 [[1, 2, 3], [4]] fs_empty) (Cid [1, 2, 3]) = Inr [1, 2, 3]
   \<and> cs_size plain_env (put_all plain_env 0 [[1, 2, 3], [4]] fs_empty) (Cid [1, 2, 3]) = Inr 3
   \<and> cs_get_range plain_env (put_all plain_env 0 [[1, 2, 3], [4]] fs_empty) (Cid [1, 2, 3]) 1 1 = Inr [2]"
proof -
  have h: "se_hash plain_env = Cid" by (simp add: plain_env_def)
  then have "inj_on (se_hash plain_env) U" for U by (simp add: inj_on_def)
  from put_get_roundtrip [OF plain_env_ok this, of "[1, 2, 3]" "[[1, 2, 3], [4]]" 0 1 1] show ?thesis
    by (simp add: h)
qed

end
