(* ===== verification/Repository.thy ===== *)
theory Repository
  imports Index_Accounting Content_Properties
begin

text \<open>
  The named object store, \<^verbatim>\<open>services/fq-store/src/repository.rs\<close>: a content store and a name
  index composed into the user-facing operations. A repository is the record of the two; every
  method takes it and returns its result with the repository it leaves behind, on every path. The
  failures the environment can inject (a full disk, a failpoint, a database fault on the final
  bind) are a record of optional errors, so the clean-up branches are part of the model. Calls run
  one at a time here; \<open>Store_Protocol\<close> interleaves their transactions. The lemmas lead to the
  repository invariant and to what each operation does to names and contents.
\<close>

section \<open>Operations\<close>

record repo =
  rp_fs :: fs_store
  rp_ix :: index

text \<open>
  \<open>flt_write_block\<close> and \<open>flt_write_object\<close>: the backend's write fails. \<open>flt_after_reserve\<close>,
  \<open>flt_before_bind\<close>, \<open>flt_before_commit\<close>: the three named seams. \<open>flt_bind\<close>: the index
  transaction of the final bind fails and rolls back.
\<close>

record faults =
  flt_write_block :: "cid \<Rightarrow> nat \<Rightarrow> store_error option"
  flt_write_object :: "store_error option"
  flt_after_reserve :: "store_error option"
  flt_before_bind :: "store_error option"
  flt_before_commit :: "store_error option"
  flt_bind :: "store_error option"

definition no_faults :: faults where
  "no_faults = \<lparr>flt_write_block = (\<lambda>_ _. None), flt_write_object = None, flt_after_reserve = None,
     flt_before_bind = None, flt_before_commit = None, flt_bind = None\<rparr>"

definition repo_empty :: repo where
  "repo_empty = \<lparr>rp_fs = fs_empty, rp_ix = ix_empty\<rparr>"

text \<open>
  The retry loop ends because a failed reserve finds no available row, and the generation the mint
  then asks for is unused: with nobody in between, the mint cannot be refused.
\<close>

lemma next_free_unused: "next_free used g \<notin> set used"
  by (induction used g rule: next_free.induct) (subst next_free.simps, auto)

lemma mint_after_reserve:
  assumes "ix_reserve_block now h ix = (None, ix')"
  shows "fst (ix_mint_block now h (ix_next_generation h ix') ix')"
proof -
  let ?P = "\<lambda>b. bk_hash b = h \<and> bk_available b"
  from assms have none: "find ?P (ix_blocks ix) = None"
    and ix': "ix' = ix\<lparr>ix_blocks := upd_where ?P (\<lambda>b. b\<lparr>bk_refcount := bk_refcount b + 1, bk_touched := now\<rparr>) (ix_blocks ix)\<rparr>"
    by (auto simp: ix_reserve_block_def Let_def)
  then have same: "ix' = ix" by (simp add: upd_where_none find_None_iff)
  have "ix_next_generation h ix \<notin> set (map bk_generation (filter (\<lambda>b. bk_hash b = h) (ix_blocks ix)))"
    unfolding ix_next_generation_def by (rule next_free_unused)
  then have "\<not> (bk_hash b = h \<and> bk_generation b = ix_next_generation h ix)" if "b \<in> set (ix_blocks ix)" for b
    using that by (auto simp: image_iff)
  with none show ?thesis unfolding same ix_mint_block_def find_None_iff by simp
qed

function reserve_or_materialize ::
  "store_env \<Rightarrow> faults \<Rightarrow> int \<Rightarrow> cid \<Rightarrow> bytes \<Rightarrow> repo \<Rightarrow> nat result \<times> repo" where
  "reserve_or_materialize env flt now h b rp =
     (case ix_reserve_block now h (rp_ix rp) of
        (Some g, ix') \<Rightarrow> (Inr g, rp\<lparr>rp_ix := ix'\<rparr>)
      | (None, ix') \<Rightarrow>
          (let g = ix_next_generation h ix' in
           case flt_write_block flt h g of
             Some e \<Rightarrow> (Inl e, rp\<lparr>rp_ix := ix'\<rparr>)
           | None \<Rightarrow>
               (let fs' = write_block env now h g b (rp_fs rp); minted = ix_mint_block now h g ix' in
                if fst minted then (Inr g, \<lparr>rp_fs = fs', rp_ix = snd minted\<rparr>)
                else reserve_or_materialize env flt now h b \<lparr>rp_fs = fs', rp_ix = snd minted\<rparr>)))"
  by pat_completeness auto
termination
  by (relation "{}") (auto dest!: mint_after_reserve [OF sym])

declare reserve_or_materialize.simps [simp del]

text \<open>One turn per unique chunk; \<open>reserved\<close> doubles as the map of generations.\<close>

primrec reserve_chunks ::
  "store_env \<Rightarrow> faults \<Rightarrow> int \<Rightarrow> bytes \<Rightarrow> chunk list \<Rightarrow> (cid \<times> nat) list \<Rightarrow> repo \<Rightarrow> (cid \<times> nat) list result \<times> repo" where
  "reserve_chunks env flt now content [] reserved rp = (Inr reserved, rp)"
| "reserve_chunks env flt now content (ch # chs) reserved rp =
     (if ck_hash ch \<in> fst ` set reserved then reserve_chunks env flt now content chs reserved rp
      else
        (case reserve_or_materialize env flt now (ck_hash ch) (byte_slice (ck_offset ch) (ck_len ch) content) rp of
           (Inl e, rp') \<Rightarrow> (Inl e, rp')
         | (Inr g, rp') \<Rightarrow> reserve_chunks env flt now content chs (reserved @ [(ck_hash ch, g)]) rp'))"

definition MAX_RESERVE_ATTEMPTS :: nat where
  "MAX_RESERVE_ATTEMPTS = 128"

function reserve_attempts :: "int \<Rightarrow> cid \<Rightarrow> nat \<Rightarrow> index \<Rightarrow> int option \<times> index" where
  "reserve_attempts now c attempt ix =
     (case ix_reserve_object now c True ix of
        (Some prev_rc, ix') \<Rightarrow> (Some prev_rc, ix')
      | (None, ix') \<Rightarrow>
          if attempt + 1 \<ge> MAX_RESERVE_ATTEMPTS then (None, ix') else reserve_attempts now c (attempt + 1) ix')"
  by pat_completeness auto
termination
  by (relation "measure (\<lambda>(_, _, attempt, _). MAX_RESERVE_ATTEMPTS - attempt)") auto

declare reserve_attempts.simps [simp del]

definition release_reservations :: "(cid \<times> nat) list \<Rightarrow> repo \<Rightarrow> repo" where
  "release_reservations reserved rp = rp\<lparr>rp_ix := fold (\<lambda>(h, g). ix_release_block h g) reserved (rp_ix rp)\<rparr>"

text \<open>The clean-up of every failure past the object reserve.\<close>

definition give_back :: "cid \<Rightarrow> (cid \<times> nat) list \<Rightarrow> repo \<Rightarrow> repo" where
  "give_back c reserved rp = release_reservations reserved (rp\<lparr>rp_ix := ix_release_object c (rp_ix rp)\<rparr>)"

text \<open>The part of \<^verbatim>\<open>put\<close> after the object is reserved.\<close>

definition put_reserved ::
  "store_env \<Rightarrow> faults \<Rightarrow> int \<Rightarrow> name \<Rightarrow> cid \<Rightarrow> nat \<Rightarrow> (cid \<times> nat \<times> nat) list \<Rightarrow> (cid \<times> nat) list \<Rightarrow> int \<Rightarrow> repo \<Rightarrow> cid result \<times> repo" where
  "put_reserved env flt now n c sz blocks reserved prev_rc rp =
     (case flt_after_reserve flt of
        Some e \<Rightarrow> (Inl e, give_back c reserved rp)
      | None \<Rightarrow>
          (case flt_write_object flt of
             Some e \<Rightarrow> (Inl e, give_back c reserved rp)
           | None \<Rightarrow>
               (let rp' = rp\<lparr>rp_fs := write_object env now c sz blocks (rp_fs rp)\<rparr> in
                case flt_before_bind flt of
                  Some e \<Rightarrow> (Inl e, give_back c reserved rp')
                | None \<Rightarrow>
                    (case flt_bind flt of
                       Some e \<Rightarrow> (Inl e, give_back c reserved rp')
                     | None \<Rightarrow> (Inr c, rp'\<lparr>rp_ix := ix_bind n c reserved prev_rc (rp_ix rp')\<rparr>)))))"

definition repo_put :: "store_env \<Rightarrow> faults \<Rightarrow> int \<Rightarrow> name \<Rightarrow> bytes \<Rightarrow> repo \<Rightarrow> cid result \<times> repo" where
  "repo_put env flt now n content rp =
     (let c = se_hash env content; chunks = cs_chunk env content in
      case reserve_chunks env flt now content chunks [] rp of
        (Inl e, rp1) \<Rightarrow> (Inl e, rp1)
      | (Inr reserved, rp1) \<Rightarrow>
          (let blocks = map (\<lambda>ch. (ck_hash ch, the (map_of reserved (ck_hash ch)), ck_len ch)) chunks in
           case reserve_attempts now c 0 (rp_ix rp1) of
             (None, ix2) \<Rightarrow> (Inl Conflict, release_reservations reserved (rp1\<lparr>rp_ix := ix2\<rparr>))
           | (Some prev_rc, ix2) \<Rightarrow>
               put_reserved env flt now n c (length content) blocks reserved prev_rc (rp1\<lparr>rp_ix := ix2\<rparr>)))"

text \<open>Aliasing. A conflict in the block loop returns at once, without giving back what the loop reserved.\<close>

primrec reserve_blocks :: "int \<Rightarrow> cid list \<Rightarrow> (cid \<times> nat) list \<Rightarrow> index \<Rightarrow> (cid \<times> nat) list result \<times> index" where
  "reserve_blocks now [] reserved ix = (Inr reserved, ix)"
| "reserve_blocks now (h # hs) reserved ix =
     (case ix_reserve_block now h ix of
        (None, ix') \<Rightarrow> (Inl Conflict, ix')
      | (Some g, ix') \<Rightarrow> reserve_blocks now hs (reserved @ [(h, g)]) ix')"

definition repo_bind :: "store_env \<Rightarrow> faults \<Rightarrow> int \<Rightarrow> name \<Rightarrow> cid \<Rightarrow> repo \<Rightarrow> unit result \<times> repo" where
  "repo_bind env flt now n c rp =
     (case cs_blocks env (rp_fs rp) c of
        Inl e \<Rightarrow> (Inl e, rp)
      | Inr blocks \<Rightarrow>
          (case reserve_blocks now (remdups_adj (sort blocks)) [] (rp_ix rp) of
             (Inl e, ix1) \<Rightarrow> (Inl e, rp\<lparr>rp_ix := ix1\<rparr>)
           | (Inr reserved, ix1) \<Rightarrow>
               (case ix_reserve_object now c False ix1 of
                  (None, ix2) \<Rightarrow> (Inl Conflict, release_reservations reserved (rp\<lparr>rp_ix := ix2\<rparr>))
                | (Some prev_rc, ix2) \<Rightarrow>
                    (let rp2 = rp\<lparr>rp_ix := ix2\<rparr> in
                     if \<not> cs_has env (rp_fs rp2) c then (Inl Conflict, give_back c reserved rp2)
                     else
                       (case flt_before_commit flt of
                          Some e \<Rightarrow> (Inl e, give_back c reserved rp2)
                        | None \<Rightarrow>
                            (case flt_bind flt of
                               Some e \<Rightarrow> (Inl e, give_back c reserved rp2)
                             | None \<Rightarrow> (Inr (), rp2\<lparr>rp_ix := ix_bind n c reserved prev_rc (rp_ix rp2)\<rparr>)))))))"

definition repo_resolve :: "repo \<Rightarrow> name \<Rightarrow> cid option" where
  "repo_resolve rp n = ix_resolve (rp_ix rp) n"

definition repo_require :: "repo \<Rightarrow> name \<Rightarrow> cid result" where
  "repo_require rp n = (case ix_resolve (rp_ix rp) n of None \<Rightarrow> Inl (NameNotFound n) | Some c \<Rightarrow> Inr c)"

definition repo_get :: "store_env \<Rightarrow> repo \<Rightarrow> name \<Rightarrow> bytes result" where
  "repo_get env rp n = bindR (repo_require rp n) (cs_get env (rp_fs rp))"

definition repo_get_range :: "store_env \<Rightarrow> repo \<Rightarrow> name \<Rightarrow> nat \<Rightarrow> nat \<Rightarrow> bytes result" where
  "repo_get_range env rp n offset len = bindR (repo_require rp n) (\<lambda>c. cs_get_range env (rp_fs rp) c offset len)"

definition repo_unbind :: "name \<Rightarrow> repo \<Rightarrow> unit result \<times> repo" where
  "repo_unbind n rp = (case ix_unbind n (rp_ix rp) of Inl e \<Rightarrow> (Inl e, rp) | Inr ix' \<Rightarrow> (Inr (), rp\<lparr>rp_ix := ix'\<rparr>))"

definition repo_list :: "repo \<Rightarrow> name \<Rightarrow> name list" where
  "repo_list rp pre = ix_list (rp_ix rp) pre"

definition repo_history :: "repo \<Rightarrow> name \<Rightarrow> cid list" where
  "repo_history rp n = ix_history (rp_ix rp) n"

end
