(* ===== verification/Repository_Invariant.thy ===== *)
theory Repository_Invariant
  imports Repository
begin

text \<open>
  The repository invariant and how each operation keeps it, for calls that run one at a time. With
  \<open>U\<close> a collision-free universe of byte strings, \<open>repo_inv env U R Q rp\<close> says: the index is counted
  with outstanding reservations \<open>R\<close> and \<open>Q\<close>, nothing is claimed, every manifest on disk is the one of
  its content with all its blocks on disk, block rows and block files correspond, and the edges are
  exactly the chunks of the named objects.
\<close>

section \<open>Version histories\<close>

definition bindings :: "index \<Rightarrow> (name \<times> cid) list" where
  "bindings ix = map (\<lambda>r. (vr_name r, vr_cid r)) (ix_versions ix)"

definition names_ok :: "index \<Rightarrow> bool" where
  "names_ok ix \<longleftrightarrow> (\<forall>n. sorted_wrt (<) (map vr_seq (filter (\<lambda>r. vr_name r = n) (ix_versions ix))))"

lemma sorted_wrt_less_sorted: "sorted_wrt (<) (xs :: nat list) \<Longrightarrow> sorted xs"
  by (rule sorted_wrt_mono_rel [of _ "(<)"]) auto

lemma versions_desc_eq:
  "names_ok ix \<Longrightarrow> versions_desc ix n = rev (filter (\<lambda>r. vr_name r = n) (ix_versions ix))"
  by (simp add: versions_desc_def names_ok_def sort_key_id_if_sorted sorted_wrt_less_sorted)

lemma history_bindings:
  "names_ok ix \<Longrightarrow> ix_history ix n = rev (map snd (filter (\<lambda>b. fst b = n) (bindings ix)))"
  by (simp add: ix_history_def versions_desc_eq rev_map filter_map comp_def bindings_def)

lemma resolve_history: "ix_resolve ix n = (case ix_history ix n of [] \<Rightarrow> None | c # _ \<Rightarrow> Some c)"
  by (simp add: ix_resolve_def ix_history_def split: list.split)

lemma name_refs_bindings: "name_refs ix c = count_list (map snd (bindings ix)) c"
  by (simp add: name_refs_def bindings_def comp_def)

lemma name_refs_pos: "0 < name_refs ix c \<longleftrightarrow> c \<in> snd ` set (bindings ix)"
  using count_list_0_iff [of "map snd (bindings ix)" c] by (simp only: name_refs_bindings neq0_conv [symmetric] set_map simp_thms)

lemma next_seq_above:
  assumes "r \<in> set (ix_versions ix)" "vr_name r = n"
  shows "vr_seq r < next_seq ix n"
proof -
  let ?rs = "filter (\<lambda>r. vr_name r = n) (ix_versions ix)"
  from assms have r: "r \<in> set ?rs" by simp
  then obtain y ys where "?rs = y # ys" by (cases ?rs) auto
  then have "next_seq ix n = Max (vr_seq ` set ?rs) + 1" by (simp add: next_seq_def)
  moreover have "vr_seq r \<le> Max (vr_seq ` set ?rs)" using r by (intro Max_ge) auto
  ultimately show ?thesis by simp
qed

lemma names_ok_append:
  assumes "names_ok ix"
    and "ix_versions ix' = ix_versions ix @ [\<lparr>vr_name = n, vr_seq = next_seq ix n, vr_cid = c\<rparr>]"
  shows "names_ok ix'" "bindings ix' = bindings ix @ [(n, c)]"
  using assms next_seq_above [of _ ix n] by (auto simp: names_ok_def bindings_def sorted_wrt_append)

lemma names_ok_same: "ix_versions ix' = ix_versions ix \<Longrightarrow> names_ok ix' = names_ok ix \<and> bindings ix' = bindings ix"
  by (simp add: names_ok_def bindings_def)

lemma names_ok_del:
  assumes "names_ok ix" "ix_versions ix' = del_where (\<lambda>r. vr_name r = n) (ix_versions ix)"
  shows "names_ok ix'" "bindings ix' = filter (\<lambda>b. fst b \<noteq> n) (bindings ix)"
proof -
  have "filter (\<lambda>r. vr_name r = m) (ix_versions ix') = (if m = n then [] else filter (\<lambda>r. vr_name r = m) (ix_versions ix))" for m
    using assms(2) by (auto simp: del_where_def filter_empty_conv intro: filter_cong)
  with assms(1) show "names_ok ix'" by (simp add: names_ok_def)
  show "bindings ix' = filter (\<lambda>b. fst b \<noteq> n) (bindings ix)"
    using assms(2) by (simp add: bindings_def del_where_def filter_map comp_def)
qed

lemma bind_bindings:
  assumes "names_ok ix"
  shows "names_ok (ix_bind n c reserved prev ix)"
    "bindings (ix_bind n c reserved prev ix) = (if ix_resolve ix n = Some c then bindings ix else bindings ix @ [(n, c)])"
proof -
  show "names_ok (ix_bind n c reserved prev ix)"
  proof (cases "ix_resolve ix n = Some c")
    case True
    with assms show ?thesis by (simp add: ix_bind_def names_ok_def)
  next
    case False
    with names_ok_append(1) [OF assms, of "ix_bind n c reserved prev ix" n c] show ?thesis
      by (simp add: ix_bind_def Let_def)
  qed
  show "bindings (ix_bind n c reserved prev ix) = (if ix_resolve ix n = Some c then bindings ix else bindings ix @ [(n, c)])"
    by (simp add: ix_bind_def bindings_def Let_def)
qed

section \<open>The invariant\<close>

definition chunk_hashes :: "store_env \<Rightarrow> bytes \<Rightarrow> cid set" where
  "chunk_hashes env x = ck_hash ` set (cs_chunk env x)"

definition edges_exact :: "store_env \<Rightarrow> bytes set \<Rightarrow> index \<Rightarrow> bool" where
  "edges_exact env U ix \<longleftrightarrow> (\<forall>e. e \<in> set (ix_edges ix) \<longleftrightarrow>
     (\<exists>x \<in> U. 0 < name_refs ix (se_hash env x) \<and> ed_object e = se_hash env x
        \<and> ed_generation e = 0 \<and> ed_block e \<in> chunk_hashes env x))"

definition rows_files :: "store_env \<Rightarrow> fs_store \<Rightarrow> index \<Rightarrow> bool" where
  "rows_files env fs ix \<longleftrightarrow>
     (\<forall>h g. \<not> bclaimed ix h g \<and> (bavail ix h g \<longleftrightarrow> block_data env fs h g \<noteq> None) \<and> (bavail ix h g \<longrightarrow> g = 0))
     \<and> (\<forall>c. \<not> oclaimed ix c \<and> (cs_has env fs c \<longrightarrow> oavail ix c) \<and> (0 < name_refs ix c \<longrightarrow> cs_has env fs c))"

definition repo_inv :: "store_env \<Rightarrow> bytes set \<Rightarrow> (cid \<times> nat \<Rightarrow> nat) \<Rightarrow> (cid \<Rightarrow> nat) \<Rightarrow> repo \<Rightarrow> bool" where
  "repo_inv env U R Q rp \<longleftrightarrow> counted (rp_ix rp) R Q \<and> cas_inv env U (rp_fs rp)
     \<and> rows_files env (rp_fs rp) (rp_ix rp) \<and> edges_exact env U (rp_ix rp) \<and> names_ok (rp_ix rp)"

lemma repo_invD:
  assumes "repo_inv env U R Q rp"
  shows "counted (rp_ix rp) R Q" "cas_inv env U (rp_fs rp)" "rows_files env (rp_fs rp) (rp_ix rp)"
    "edges_exact env U (rp_ix rp)" "names_ok (rp_ix rp)"
  using assms by (simp_all add: repo_inv_def)

lemma rows_filesD:
  assumes "rows_files env fs ix"
  shows "\<not> bclaimed ix h g" "bavail ix h g \<longleftrightarrow> block_data env fs h g \<noteq> None" "bavail ix h g \<Longrightarrow> g = 0"
    "\<not> oclaimed ix c" "cs_has env fs c \<Longrightarrow> oavail ix c" "0 < name_refs ix c \<Longrightarrow> cs_has env fs c"
  using assms by (auto simp: rows_files_def)

lemma edges_exact_same:
  assumes "ix_edges ix' = ix_edges ix" "ix_versions ix' = ix_versions ix"
  shows "edges_exact env U ix' = edges_exact env U ix"
  unfolding edges_exact_def views_same(10) [OF assms(2)] assms(1) ..

lemma brow_none_iff: "brow ix h g = None \<longleftrightarrow> \<not> bavail ix h g \<and> \<not> bclaimed ix h g"
  by (cases ix h g rule: bview_cases) auto

lemma orow_none_iff: "orow ix c = None \<longleftrightarrow> \<not> oavail ix c \<and> \<not> oclaimed ix c"
  by (auto simp: oview split: option.splits)

text \<open>The starting point.\<close>

lemma repo_inv_empty: "repo_inv env U (\<lambda>_. 0) (\<lambda>_. 0) repo_empty"
  by (simp add: repo_inv_def repo_empty_def ix_empty_def fs_empty_def counted_def keys_ok_def block_keys_def
      bview oview brow_def orow_def edge_refs_def name_refs_def cas_inv_def blocks_ok_def block_data_def cs_has_def
      rows_files_def edges_exact_def names_ok_def)

section \<open>Reserving blocks\<close>

text \<open>What a step that only takes or materialises blocks leaves alone.\<close>

definition block_step :: "store_env \<Rightarrow> repo \<Rightarrow> repo \<Rightarrow> bool" where
  "block_step env rp rp' \<longleftrightarrow> ix_versions (rp_ix rp') = ix_versions (rp_ix rp)
     \<and> ix_objects (rp_ix rp') = ix_objects (rp_ix rp) \<and> ix_edges (rp_ix rp') = ix_edges (rp_ix rp)
     \<and> cs_has env (rp_fs rp') = cs_has env (rp_fs rp)
     \<and> read_manifest env (rp_fs rp') = read_manifest env (rp_fs rp) \<and> blocks_grow env (rp_fs rp) (rp_fs rp')"

lemma block_step_refl: "block_step env rp rp"
  by (simp add: block_step_def blocks_grow_refl)

lemma block_step_trans: "block_step env a b \<Longrightarrow> block_step env b c \<Longrightarrow> block_step env a c"
  by (auto simp: block_step_def intro: blocks_grow_trans)

lemma block_step_inv:
  assumes inv: "repo_inv env U R Q rp" and step: "block_step env rp rp'"
    and c: "counted (rp_ix rp') R' Q" and ok: "blocks_ok env U (rp_fs rp')"
    and rows: "\<And>h g. \<not> bclaimed (rp_ix rp') h g"
      "\<And>h g. bavail (rp_ix rp') h g \<longleftrightarrow> block_data env (rp_fs rp') h g \<noteq> None"
      "\<And>h g. bavail (rp_ix rp') h g \<Longrightarrow> g = 0"
  shows "repo_inv env U R' Q rp'"
proof -
  note d = repo_invD [OF inv]
  from step have s: "ix_versions (rp_ix rp') = ix_versions (rp_ix rp)" "ix_objects (rp_ix rp') = ix_objects (rp_ix rp)"
    "ix_edges (rp_ix rp') = ix_edges (rp_ix rp)" "cs_has env (rp_fs rp') = cs_has env (rp_fs rp)"
    "read_manifest env (rp_fs rp') = read_manifest env (rp_fs rp)" "blocks_grow env (rp_fs rp) (rp_fs rp')"
    by (auto simp: block_step_def)
  have cas: "cas_inv env U (rp_fs rp')"
    using d(2) ok unfolding cas_inv_def s by (meson chunks_at_grow s(6))
  have "rows_files env (rp_fs rp') (rp_ix rp')"
    unfolding rows_files_def s views_same(3,4) [OF s(2)] views_same(10) [OF s(1)]
    using rows rows_filesD(4-6) [OF d(3)] by blast
  with c cas d(4,5) edges_exact_same [OF s(3,1)] names_ok_same [OF s(1)] show ?thesis by (simp add: repo_inv_def)
qed

lemma reserve_none_same: "ix_reserve_block now h ix = (None, ix') \<Longrightarrow> ix' = ix"
  by (auto simp: ix_reserve_block_def Let_def upd_where_none find_None_iff)

lemma reserve_seq:
  assumes c: "counted ix R Q" and f: "rows_files env fs ix"
  shows "bavail ix h 0 \<Longrightarrow> fst (ix_reserve_block now h ix) = Some 0"
    "\<not> bavail ix h 0 \<Longrightarrow> ix_reserve_block now h ix = (None, ix) \<and> ix_next_generation h ix = 0"
proof -
  note keys = countedD(1) [OF c] and r = reserve_block_result [OF countedD(1) [OF c], where now = now and h = h]
  show "fst (ix_reserve_block now h ix) = Some 0" if "bavail ix h 0"
    using that r(2) [of 0] r(1) rows_filesD(3) [OF f] by (cases "fst (ix_reserve_block now h ix)") auto
  show "ix_reserve_block now h ix = (None, ix) \<and> ix_next_generation h ix = 0" if no: "\<not> bavail ix h 0"
  proof -
    have none: "fst (ix_reserve_block now h ix) = None"
      using no r(1) rows_filesD(3) [OF f] by (cases "fst (ix_reserve_block now h ix)") auto
    then have res: "ix_reserve_block now h ix = (None, ix)"
      using reserve_none_same [of now h ix] by (metis prod.collapse)
    have "bk_hash b \<noteq> h" if "b \<in> set (ix_blocks ix)" for b
    proof
      assume "bk_hash b = h"
      with that keys have "brow ix h (bk_generation b) = Some b" by (simp add: keys_ok_def brow_iff)
      then have "brow ix h (bk_generation b) \<noteq> None" by simp
      then have av: "bavail ix h (bk_generation b)" using rows_filesD(1) [OF f] by (simp add: brow_none_iff)
      with rows_filesD(3) [OF f av] no show False by simp
    qed
    then have "filter (\<lambda>b. bk_hash b = h) (ix_blocks ix) = []" by (simp add: filter_empty_conv)
    with res show ?thesis by (simp add: ix_next_generation_def next_free.simps)
  qed
qed

lemma materialize_cases:
  assumes env: "env_ok env" and inj: "inj_on (se_hash env) U" and b: "b \<in> U"
    and inv: "repo_inv env U R Q rp"
  defines "h \<equiv> se_hash env b"
  obtains (fault) e where "flt_write_block flt h 0 = Some e" "reserve_or_materialize env flt now h b rp = (Inl e, rp)"
  | (landed) rp' where "reserve_or_materialize env flt now h b rp = (Inr 0, rp')" "block_step env rp rp'"
      "repo_inv env U (R((h, 0) := Suc (R (h, 0)))) Q rp'" "block_data env (rp_fs rp') h 0 = Some b"
proof -
  let ?ix = "rp_ix rp" and ?fs = "rp_fs rp"
  note d = repo_invD [OF inv] and seq = reserve_seq [OF repo_invD(1,3) [OF inv], where now = now and h = h]
  have ok: "blocks_ok env U ?fs" using d(2) by (simp add: cas_inv_def)
  note r = rows_filesD [OF d(3)]
  show thesis
  proof (cases "bavail ?ix h 0")
    case True
    then obtain ix' where res: "ix_reserve_block now h ?ix = (Some 0, ix')"
      using seq(1) by (cases "ix_reserve_block now h ?ix") auto
    note v = reserve_block_view [where now = now and h = h and ix = ?ix, unfolded res snd_conv]
    have run: "reserve_or_materialize env flt now h b rp = (Inr 0, rp\<lparr>rp_ix := ix'\<rparr>)"
      by (simp add: reserve_or_materialize.simps res)
    have step: "block_step env rp (rp\<lparr>rp_ix := ix'\<rparr>)" by (simp add: block_step_def v blocks_grow_refl)
    from True r(2) obtain y where y: "block_data env ?fs h 0 = Some y" by blast
    with ok inj b have "y = b" unfolding blocks_ok_def h_def by (metis inj_onD)
    moreover have "repo_inv env U (R((h, 0) := Suc (R (h, 0)))) Q (rp\<lparr>rp_ix := ix'\<rparr>)"
      by (rule block_step_inv [OF inv step])
         (use reserve_block_counted(1) [OF d(1) res] ok r(1-3) in \<open>simp_all add: v\<close>)
    ultimately show thesis using landed run step y by simp
  next
    case False
    with seq(2) have res: "ix_reserve_block now h ?ix = (None, ?ix)" and gen: "ix_next_generation h ?ix = 0" by auto
    show thesis
    proof (cases "flt_write_block flt h 0")
      case (Some e)
      have "reserve_or_materialize env flt now h b rp = (Inl e, rp)"
        by (simp add: reserve_or_materialize.simps res gen Some)
      with Some show thesis by (rule fault)
    next
      case None
      obtain ix' where m: "ix_mint_block now h 0 ?ix = (True, ix')"
        using mint_after_reserve [OF res] by (cases "ix_mint_block now h 0 ?ix") (simp add: gen)
      let ?rp = "\<lparr>rp_fs = write_block env now h 0 b ?fs, rp_ix = ix'\<rparr>"
      have run: "reserve_or_materialize env flt now h b rp = (Inr 0, ?rp)"
        by (simp add: reserve_or_materialize.simps res gen None m)
      note w = write_block_ok [OF env inj b ok, of now 0, folded h_def]
      note mc = mint_block_counted [OF d(1) m]
      have step: "block_step env rp ?rp"
        using w(2) m by (auto simp: block_step_def tbl ix_mint_block_def split: if_splits)
      have row: "bavail ix' h' g \<longleftrightarrow> bavail ?ix h' g \<or> h' = h \<and> g = 0" "\<not> bclaimed ix' h' g" for h' g
        using r(1) [of h' g] by (auto simp: bavail_def bclaimed_def mc(3) split: option.splits)
      have "repo_inv env U (R((h, 0) := Suc (R (h, 0)))) Q ?rp"
      proof (rule block_step_inv [OF inv step])
        show "bavail (rp_ix ?rp) h' g \<longleftrightarrow> block_data env (rp_fs ?rp) h' g \<noteq> None" for h' g
          using r(2) [of h' g] w(3) by (auto simp: row block_data_write_block [OF env])
      qed (use mc(1) w(1) r(3) in \<open>auto simp: row\<close>)
      with landed run step w(3) show thesis by simp
    qed
  qed
qed

lemma referenced_available:
  assumes "counted ix R Q" "rows_files env fs ix" "0 < edge_refs ix h g + R (h, g)"
  shows "bavail ix h g" "g = 0" "block_data env fs h g \<noteq> None"
proof -
  from assms countedD(2) [OF assms(1), of h g] have "brc ix h g \<noteq> 0" by linarith
  then have "brow ix h g \<noteq> None" by (cases "brow ix h g") (simp_all add: brc_def)
  with rows_filesD(1) [OF assms(2)] show "bavail ix h g" by (simp add: brow_none_iff)
  with rows_filesD(2,3) [OF assms(2)] show "g = 0" "block_data env fs h g \<noteq> None" by blast+
qed

lemma reserved_data:
  assumes inj: "inj_on (se_hash env) U" and inv: "repo_inv env U R Q rp" and "b \<in> U" "0 < R (se_hash env b, 0)"
  shows "block_data env (rp_fs rp) (se_hash env b) 0 = Some b"
proof -
  from assms referenced_available(3) [OF repo_invD(1,3) [OF inv], of "se_hash env b" 0] obtain y
    where y: "block_data env (rp_fs rp) (se_hash env b) 0 = Some y" by auto
  with repo_invD(2) [OF inv] have "y \<in> U" "se_hash env y = se_hash env b" by (auto simp: cas_inv_def blocks_ok_def)
  with inj assms(3) y show ?thesis by (auto dest: inj_onD)
qed

definition reserved_ok :: "(cid \<times> nat) list \<Rightarrow> bool" where
  "reserved_ok rs \<longleftrightarrow> distinct (map fst rs) \<and> snd ` set rs \<subseteq> {0}"

lemma reserved_ok_snoc: "reserved_ok rs \<Longrightarrow> h \<notin> fst ` set rs \<Longrightarrow> reserved_ok (rs @ [(h, 0)])"
  by (auto simp: reserved_ok_def)

lemma reserved_ok_map_of: "reserved_ok rs \<Longrightarrow> h \<in> fst ` set rs \<Longrightarrow> map_of rs h = Some 0"
  by (auto simp: reserved_ok_def)

lemma reserved_ok_count: "reserved_ok rs \<Longrightarrow> count_list rs (h, g) = (if g = 0 \<and> h \<in> fst ` set rs then 1 else 0)"
proof (induction rs)
  case (Cons r rs)
  then have "reserved_ok rs" "snd r = 0" "fst r \<notin> fst ` set rs" by (auto simp: reserved_ok_def)
  with Cons.IH show ?case by (cases r; cases "g = 0"; cases "fst r = h") simp_all
qed simp

lemma reserve_chunks_cases:
  assumes env: "env_ok env" and inj: "inj_on (se_hash env) U"
    and U: "chunk_bytes content ` set (cs_chunk env content) \<subseteq> U"
    and sub: "set chs \<subseteq> set (cs_chunk env content)"
    and inv: "repo_inv env U (\<lambda>k. R k + count_list rs k) Q rp" and rs: "reserved_ok rs"
  shows "(\<exists>rs' rp'. reserve_chunks env flt now content chs rs rp = (Inr rs', rp') \<and> block_step env rp rp'
      \<and> repo_inv env U (\<lambda>k. R k + count_list rs' k) Q rp' \<and> reserved_ok rs'
      \<and> fst ` set rs' = fst ` set rs \<union> ck_hash ` set chs)
    \<or> (\<exists>e h rp' R'. reserve_chunks env flt now content chs rs rp = (Inl e, rp') \<and> block_step env rp rp'
      \<and> flt_write_block flt h 0 = Some e \<and> repo_inv env U R' Q rp' \<and> (\<forall>k. R k \<le> R' k))"
  using sub inv rs
proof (induction chs arbitrary: rs rp)
  case Nil
  then show ?case using block_step_refl [of env rp] by simp
next
  case (Cons ch chs)
  have rest: "set chs \<subseteq> set (cs_chunk env content)" using Cons.prems(1) by simp
  show ?case
  proof (cases "ck_hash ch \<in> fst ` set rs")
    case True
    with Cons.IH [OF rest Cons.prems(2,3)] show ?thesis by (auto simp: insert_absorb)
  next
    case False
    let ?b = "chunk_bytes content ch"
    have b: "?b \<in> U" "ck_hash ch = se_hash env ?b"
      using U Cons.prems(1) chunk_tiles(3) [OF env, of ch content] by auto
    note run = reserve_chunks.simps(2) [where env = env and flt = flt and now = now and content = content and ch = ch
        and chs = chs and reserved = rs and rp = rp, folded chunk_bytes_def, unfolded b(2), folded b(2)]
    show ?thesis
    proof (rule materialize_cases [OF env inj b(1) Cons.prems(2), where flt = flt and now = now, folded b(2)])
      fix e assume e: "flt_write_block flt (ck_hash ch) 0 = Some e"
        "reserve_or_materialize env flt now (ck_hash ch) ?b rp = (Inl e, rp)"
      from run e False have "reserve_chunks env flt now content (ch # chs) rs rp = (Inl e, rp)" by simp
      with e(1) Cons.prems(2) block_step_refl [of env rp] show ?thesis
        by (intro disjI2 exI [of _ e] exI [of _ "ck_hash ch"] exI [of _ rp] exI [of _ "\<lambda>k. R k + count_list rs k"]) simp
    next
      fix rp1 assume l: "reserve_or_materialize env flt now (ck_hash ch) ?b rp = (Inr 0, rp1)" "block_step env rp rp1"
        "repo_inv env U ((\<lambda>k. R k + count_list rs k)((ck_hash ch, 0) := Suc (R (ck_hash ch, 0) + count_list rs (ck_hash ch, 0)))) Q rp1"
      let ?rs = "rs @ [(ck_hash ch, 0)]"
      have "(\<lambda>k. R k + count_list rs k)((ck_hash ch, 0) := Suc (R (ck_hash ch, 0) + count_list rs (ck_hash ch, 0)))
          = (\<lambda>k. R k + count_list ?rs k)" by (auto simp: fun_eq_iff)
      with l(3) have inv1: "repo_inv env U (\<lambda>k. R k + count_list ?rs k) Q rp1" by simp
      from run l(1) False have eq: "reserve_chunks env flt now content (ch # chs) rs rp = reserve_chunks env flt now content chs ?rs rp1"
        by simp
      have sets: "fst ` set ?rs \<union> ck_hash ` set chs = fst ` set rs \<union> ck_hash ` set (ch # chs)" by auto
      from Cons.IH [OF rest inv1 reserved_ok_snoc [OF Cons.prems(3) False], unfolded sets] block_step_trans [OF l(2)]
      show ?thesis unfolding eq by (elim disjE exE conjE) (blast, blast)
    qed
  qed
qed

section \<open>Reserving, writing and binding objects\<close>

text \<open>Steps on the index that touch neither names nor edges and keep what is available.\<close>

lemma index_step_inv:
  assumes inv: "repo_inv env U R Q rp" and c: "counted ix' R' Q'"
    and same: "ix_versions ix' = ix_versions (rp_ix rp)" "ix_edges ix' = ix_edges (rp_ix rp)"
    and b: "bavail ix' = bavail (rp_ix rp)" "bclaimed ix' = bclaimed (rp_ix rp)"
    and ob: "\<And>x. \<not> oclaimed ix' x" "\<And>x. oavail (rp_ix rp) x \<Longrightarrow> oavail ix' x"
  shows "repo_inv env U R' Q' (rp\<lparr>rp_ix := ix'\<rparr>)"
proof -
  note d = repo_invD [OF inv]
  have "rows_files env (rp_fs rp) ix'"
    unfolding rows_files_def b views_same(10) [OF same(1)] using rows_filesD [OF d(3)] ob by blast
  with c d(2,4,5) edges_exact_same [OF same(2,1)] names_ok_same [OF same(1)] show ?thesis by (simp add: repo_inv_def)
qed

lemma reserve_object_view:
  assumes "ix_reserve_object now x create ix = (Some prev, ix')"
  shows "oavail ix' y \<longleftrightarrow> oavail ix y \<or> y = x" "oclaimed ix' y \<longleftrightarrow> oclaimed ix y"
    "ix_versions ix' = ix_versions ix" "ix_edges ix' = ix_edges ix" "ix_blocks ix' = ix_blocks ix"
proof -
  let ?f = "\<lambda>ob. ob\<lparr>ob_refcount := ob_refcount ob + 1, ob_touched := now\<rparr>"
  let ?new = "\<lparr>ob_cid = x, ob_refcount = 1, ob_available = True, ob_touched = now\<rparr>"
  have "(oavail ix' y \<longleftrightarrow> oavail ix y \<or> y = x) \<and> (oclaimed ix' y \<longleftrightarrow> oclaimed ix y)"
  proof (cases "orow ix x")
    case None
    with assms have "ix' = ix\<lparr>ix_objects := ix_objects ix @ [?new]\<rparr>"
      by (auto simp: ix_reserve_object_def orow_def split: if_splits)
    with None show ?thesis by (auto simp: oview orow_def find_append split: option.splits)
  next
    case (Some ob)
    with assms have ix': "ix' = ix\<lparr>ix_objects := upd_where (\<lambda>ob. ob_cid ob = x) ?f (ix_objects ix)\<rparr>" and av: "ob_available ob"
      by (auto simp: ix_reserve_object_def orow_def split: if_splits)
    have "orow ix' y = map_option (\<lambda>ob. if y = x then ?f ob else ob) (orow ix y)"
      unfolding ix' by (rule orow_upd) auto
    with Some av show ?thesis by (auto simp: oview split: option.splits)
  qed
  then show "oavail ix' y \<longleftrightarrow> oavail ix y \<or> y = x" "oclaimed ix' y \<longleftrightarrow> oclaimed ix y" by simp_all
qed (use assms in \<open>auto simp: ix_reserve_object_def split: option.splits if_splits\<close>)

lemma reserve_object_seq:
  assumes inv: "repo_inv env U R Q rp" and ok: "create \<or> oavail (rp_ix rp) x"
  obtains ix' where "ix_reserve_object now x create (rp_ix rp) = (Some (orc (rp_ix rp) x), ix')"
    "repo_inv env U R (Q(x := Suc (Q x))) (rp\<lparr>rp_ix := ix'\<rparr>)" "oavail ix' x"
    "ix_versions ix' = ix_versions (rp_ix rp)" "ix_edges ix' = ix_edges (rp_ix rp)"
proof -
  note d = repo_invD [OF inv] and r = rows_filesD [OF repo_invD(3) [OF inv]]
  have "fst (ix_reserve_object now x create (rp_ix rp)) \<noteq> None"
    using ok r(4) [of x] by (auto simp: ix_reserve_object_def oview orow_def split: option.splits)
  then obtain prev ix' where res: "ix_reserve_object now x create (rp_ix rp) = (Some prev, ix')"
    by (cases "ix_reserve_object now x create (rp_ix rp)") auto
  note v = reserve_object_view [OF res] and c = reserve_object_counted [OF d(1) res]
  have "repo_inv env U R (Q(x := Suc (Q x))) (rp\<lparr>rp_ix := ix'\<rparr>)"
    by (rule index_step_inv [OF inv c(1) v(3,4) views_same(7,8) [OF v(5)]]) (use r(4) v(1,2) in auto)
  with that res c(2) v show thesis by simp
qed

lemma reserve_attempts_seq:
  "ix_reserve_object now c True ix = (Some prev, ix') \<Longrightarrow> reserve_attempts now c attempt ix = (Some prev, ix')"
  by (simp add: reserve_attempts.simps)

lemma release_blocks_fold:
  "fold (\<lambda>(h, g). ix_release_block h g) rs ix = ix\<lparr>ix_blocks := ix_release_reservations rs (ix_blocks ix)\<rparr>"
proof (induction rs arbitrary: ix)
  case (Cons r rs)
  then show ?case by (cases r) (simp add: ix_release_block_def ix_release_reservations_def)
qed (simp add: ix_release_reservations_def)

lemma release_reservations_inv:
  assumes inv: "repo_inv env U (\<lambda>k. R k + count_list rs k) Q rp"
  shows "repo_inv env U R Q (release_reservations rs rp)"
proof -
  note d = repo_invD [OF inv] and r = rows_filesD [OF repo_invD(3) [OF inv]]
  let ?ix = "(rp_ix rp)\<lparr>ix_blocks := ix_release_reservations rs (ix_blocks (rp_ix rp))\<rparr>"
  have "counted ?ix (\<lambda>k. R k + count_list rs k - count_list rs k) Q"
    by (rule release_list_counted [OF d(1)]) simp
  then have c: "counted ?ix R Q" by simp
  have eq: "?ix = (rp_ix rp)\<lparr>ix_blocks := fold (\<lambda>(h, g). dec_block h g) rs (ix_blocks (rp_ix rp))\<rparr>"
    by (simp add: ix_release_reservations_def)
  have o: "oavail ?ix = oavail (rp_ix rp)" "oclaimed ?ix = oclaimed (rp_ix rp)"
    by (rule views_same; simp)+
  have "repo_inv env U R Q (rp\<lparr>rp_ix := ?ix\<rparr>)"
    by (rule index_step_inv [OF inv c])
       (use r(4) dec_list_view [where ix = "rp_ix rp" and rs = rs, folded eq] in \<open>simp_all add: o fun_eq_iff\<close>)
  then show ?thesis by (simp add: release_reservations_def release_blocks_fold)
qed

lemma give_back_inv:
  assumes inv: "repo_inv env U (\<lambda>k. R k + count_list rs k) (Q(c := Suc (Q c))) rp"
  shows "repo_inv env U R Q (give_back c rs rp)"
    "bindings (rp_ix (give_back c rs rp)) = bindings (rp_ix rp)" "rp_fs (give_back c rs rp) = rp_fs rp"
proof -
  note d = repo_invD [OF inv] and r = rows_filesD [OF repo_invD(3) [OF inv]]
  let ?ix = "ix_release_object c (rp_ix rp)"
  have cnt: "counted ?ix (\<lambda>k. R k + count_list rs k) Q"
    using release_object_counted [OF d(1), of c] by simp
  have row: "orow ?ix y = map_option (\<lambda>ob. if y = c then ob\<lparr>ob_refcount := ob_refcount ob - 1\<rparr> else ob) (orow (rp_ix rp) y)" for y
    unfolding ix_release_object_def sub_object_def by (rule orow_upd) auto
  have o: "oavail ?ix y = oavail (rp_ix rp) y" "oclaimed ?ix y = oclaimed (rp_ix rp) y" for y
    by (auto simp: oview row split: option.splits)
  have b: "bavail ?ix = bavail (rp_ix rp)" "bclaimed ?ix = bclaimed (rp_ix rp)"
    by (rule views_same; simp add: ix_release_object_def)+
  have "repo_inv env U (\<lambda>k. R k + count_list rs k) Q (rp\<lparr>rp_ix := ?ix\<rparr>)"
    by (rule index_step_inv [OF inv cnt _ _ b]) (use r(4) in \<open>simp_all add: ix_release_object_def o [unfolded ix_release_object_def]\<close>)
  then show "repo_inv env U R Q (give_back c rs rp)"
    unfolding give_back_def by (rule release_reservations_inv)
  show "bindings (rp_ix (give_back c rs rp)) = bindings (rp_ix rp)" "rp_fs (give_back c rs rp) = rp_fs rp"
    by (simp_all add: give_back_def release_reservations_def release_blocks_fold bindings_def ix_release_object_def)
qed

lemma write_object_inv:
  fixes now :: int
  assumes env: "env_ok env" and inv: "repo_inv env U R Q rp" and x: "x \<in> U"
    and data: "chunks_at env (\<lambda>_. 0) (rp_fs rp) x" and av: "oavail (rp_ix rp) (se_hash env x)"
  defines "fs' \<equiv> write_object env now (se_hash env x) (length x) (map (\<lambda>ch. (ck_hash ch, 0, ck_len ch)) (cs_chunk env x)) (rp_fs rp)"
  shows "repo_inv env U R Q (rp\<lparr>rp_fs := fs'\<rparr>)" "cs_has env fs' c \<longleftrightarrow> c = se_hash env x \<or> cs_has env (rp_fs rp) c"
proof -
  note d = repo_invD [OF inv]
  show has: "cs_has env fs' c \<longleftrightarrow> c = se_hash env x \<or> cs_has env (rp_fs rp) c" for c
    using env by (simp add: fs'_def tbl)
  have bd: "block_data env fs' = block_data env (rp_fs rp)" by (simp add: fs'_def tbl)
  have man: "read_manifest env fs' c = (if c = se_hash env x then Inr (manifest_of env (\<lambda>_. 0) x) else read_manifest env (rp_fs rp) c)" for c
    using env by (simp add: fs'_def tbl manifest_of_def comp_def)
  have at: "chunks_at env (\<lambda>_. 0) fs' y = chunks_at env (\<lambda>_. 0) (rp_fs rp) y" for y
    by (simp add: chunks_at_def bd)
  have "cas_inv env U fs'"
    using d(2) x data unfolding cas_inv_def blocks_ok_def bd has man at by metis
  moreover have "rows_files env fs' (rp_ix rp)"
    unfolding rows_files_def bd has using rows_filesD [OF d(3)] av by blast
  ultimately show "repo_inv env U R Q (rp\<lparr>rp_fs := fs'\<rparr>)" using d by (simp add: repo_inv_def)
qed

lemma edge_objects:
  assumes "edges_exact env U ix" "inj_on (se_hash env) U" "x \<in> U"
  shows "has_edge (ix_edges ix) (se_hash env x) h \<longleftrightarrow> 0 < name_refs ix (se_hash env x) \<and> h \<in> chunk_hashes env x"
    (is "?L \<longleftrightarrow> ?R")
proof
  assume ?L
  then obtain e where e: "e \<in> set (ix_edges ix)" "ed_object e = se_hash env x" "ed_block e = h" by (auto simp: has_edge_def)
  from e(1) assms(1) obtain y where y: "y \<in> U" "0 < name_refs ix (se_hash env y)"
    "ed_object e = se_hash env y" "ed_block e \<in> chunk_hashes env y" unfolding edges_exact_def by blast
  with e assms(2,3) have "y = x" by (auto dest: inj_onD)
  with y e show ?R by simp
next
  assume ?R
  with assms(1,3) have "\<lparr>ed_object = se_hash env x, ed_block = h, ed_generation = 0\<rparr> \<in> set (ix_edges ix)"
    unfolding edges_exact_def by force
  then show ?L by (force simp: has_edge_def)
qed

lemma set_insert_edges:
  "set (fold (insert_edge c) rs es) \<subseteq> set es \<union> {\<lparr>ed_object = c, ed_block = h, ed_generation = g\<rparr> | h g. (h, g) \<in> set rs}"
  "set es \<subseteq> set (fold (insert_edge c) rs es)"
proof (induction rs arbitrary: es)
  case (Cons r rs)
  obtain h g where r: "r = (h, g)" by force
  { case 1 show ?case using Cons(1) [of "insert_edge c (h, g) es"] by (auto simp: r insert_edge_def split: if_splits) }
  { case 2 show ?case using Cons(2) [of "insert_edge c (h, g) es"] by (auto simp: r insert_edge_def split: if_splits) }
qed auto

lemma bind_edges_exact:
  assumes inj: "inj_on (se_hash env) U" and ex: "edges_exact env U ix" and x: "x \<in> U"
    and rs: "reserved_ok rs" "fst ` set rs = chunk_hashes env x" and prev: "prev = int (name_refs ix (se_hash env x))"
    and nm: "names_ok ix"
  shows "edges_exact env U (ix_bind n (se_hash env x) rs prev ix)" (is "edges_exact env U ?ix'")
proof (cases "0 < name_refs ix (se_hash env x)")
  case True
  then have edges: "ix_edges ?ix' = ix_edges ix" using prev by (simp add: ix_bind_def Let_def)
  have "0 < name_refs ?ix' c \<longleftrightarrow> 0 < name_refs ix c" for c
    using True unfolding name_refs_pos bind_bindings [OF nm] by auto
  with ex show ?thesis unfolding edges_exact_def edges by simp
next
  case False
  let ?c = "se_hash env x"
  have nres: "ix_resolve ix n \<noteq> Some ?c"
  proof
    assume "ix_resolve ix n = Some ?c"
    then have "?c \<in> set (ix_history ix n)" by (auto simp: resolve_history split: list.splits)
    then have "0 < name_refs ix ?c" unfolding name_refs_pos by (auto simp: history_bindings [OF nm])
    with False show False by simp
  qed
  then have edges: "ix_edges ?ix' = fold (insert_edge ?c) rs (ix_edges ix)" using False prev by (simp add: ix_bind_def Let_def)
  have refs: "0 < name_refs ?ix' c \<longleftrightarrow> c = ?c \<or> 0 < name_refs ix c" for c
    using nres unfolding name_refs_pos bind_bindings [OF nm] by auto
  have he: "has_edge (ix_edges ?ix') ?c h \<longleftrightarrow> h \<in> chunk_hashes env x" for h
    unfolding edges has_edge_fold using False rs(2) by (auto simp: edge_objects [OF ex inj x])
  have new: "e \<in> set (ix_edges ?ix') \<longleftrightarrow> e \<in> set (ix_edges ix)
      \<or> ed_object e = ?c \<and> ed_generation e = 0 \<and> ed_block e \<in> chunk_hashes env x" (is "?A \<longleftrightarrow> ?B") for e
  proof
    assume ?A
    with set_insert_edges(1) [of ?c rs "ix_edges ix"] consider "e \<in> set (ix_edges ix)"
      | h g where "e = \<lparr>ed_object = ?c, ed_block = h, ed_generation = g\<rparr>" "(h, g) \<in> set rs"
      unfolding edges by blast
    then show ?B
    proof cases
      case 2
      with rs have "g = 0" "h \<in> chunk_hashes env x" by (force simp: reserved_ok_def)+
      with 2 show ?thesis by simp
    qed simp
  next
    assume ?B
    then show ?A
    proof
      assume "e \<in> set (ix_edges ix)"
      with set_insert_edges(2) show ?A unfolding edges by blast
    next
      assume e: "ed_object e = ?c \<and> ed_generation e = 0 \<and> ed_block e \<in> chunk_hashes env x"
      with he obtain e' where e': "e' \<in> set (ix_edges ?ix')" "ed_object e' = ?c" "ed_block e' = ed_block e"
        by (auto simp: has_edge_def)
      have "e' \<notin> set (ix_edges ix)"
        using e' edge_objects [OF ex inj x, of "ed_block e"] False by (auto simp: has_edge_def)
      with e'(1) set_insert_edges(1) [of ?c rs "ix_edges ix"] rs have "ed_generation e' = 0"
        unfolding edges by (force simp: reserved_ok_def)
      with e e' have "e' = e" by simp
      with e'(1) show ?A by simp
    qed
  qed
  show ?thesis
    unfolding edges_exact_def new refs using ex [unfolded edges_exact_def] x inj by (metis inj_onD)
qed

lemma bind_view:
  "bavail (ix_bind n c rs prev ix) = bavail ix" "bclaimed (ix_bind n c rs prev ix) = bclaimed ix"
  "oavail (ix_bind n c rs prev ix) = oavail ix" "oclaimed (ix_bind n c rs prev ix) = oclaimed ix"
proof -
  let ?ix' = "ix_bind n c rs prev ix"
  have blocks: "ix_blocks ?ix' = ix_blocks ix \<or> ix_blocks ?ix' = fold (\<lambda>(h, g). dec_block h g) rs (ix_blocks ix)"
    by (simp add: ix_bind_def Let_def ix_release_reservations_def)
  have dec: "bavail ?ix' = bavail (ix\<lparr>ix_blocks := ix_blocks ?ix'\<rparr>)" "bclaimed ?ix' = bclaimed (ix\<lparr>ix_blocks := ix_blocks ?ix'\<rparr>)"
    by (rule views_same; simp)+
  show "bavail ?ix' = bavail ix" "bclaimed ?ix' = bclaimed ix"
    using blocks dec_list_view(1,2) [where ix = ix and rs = rs] unfolding dec by (elim disjE; simp add: fun_eq_iff)+
  have row: "orow (ix\<lparr>ix_objects := sub_object c 1 (ix_objects ix)\<rparr>) y
      = map_option (\<lambda>ob. if y = c then ob\<lparr>ob_refcount := ob_refcount ob - 1\<rparr> else ob) (orow ix y)" for y
    unfolding sub_object_def by (rule orow_upd) auto
  have obs: "ix_objects ?ix' = ix_objects ix \<or> ix_objects ?ix' = sub_object c 1 (ix_objects ix)"
    by (simp add: ix_bind_def Let_def)
  have same: "oavail ?ix' = oavail (ix\<lparr>ix_objects := ix_objects ?ix'\<rparr>)" "oclaimed ?ix' = oclaimed (ix\<lparr>ix_objects := ix_objects ?ix'\<rparr>)"
    by (rule views_same; simp)+
  show "oavail ?ix' = oavail ix" "oclaimed ?ix' = oclaimed ix"
    using obs unfolding same by (elim disjE; simp add: fun_eq_iff oview row split: option.splits)+
qed

lemma bind_inv:
  assumes inj: "inj_on (se_hash env) U" and x: "x \<in> U" and has: "cs_has env (rp_fs rp) (se_hash env x)"
    and inv: "repo_inv env U (\<lambda>k. R k + count_list rs k) (Q(se_hash env x := Suc (Q (se_hash env x)))) rp"
    and rs: "reserved_ok rs" "fst ` set rs = chunk_hashes env x"
    and prev: "prev = int (name_refs (rp_ix rp) (se_hash env x))"
  shows "repo_inv env U R Q (rp\<lparr>rp_ix := ix_bind n (se_hash env x) rs prev (rp_ix rp)\<rparr>)"
proof -
  let ?c = "se_hash env x" and ?ix = "rp_ix rp"
  let ?ix' = "ix_bind n ?c rs prev ?ix"
  note d = repo_invD [OF inv] and r = rows_filesD [OF repo_invD(3) [OF inv]]
  have "counted ?ix' (after_bind ?ix n ?c rs prev (\<lambda>k. R k + count_list rs k))
      ((Q(?c := Suc (Q ?c)))(?c := (Q(?c := Suc (Q ?c))) ?c - 1))"
    by (rule bind_counted [OF d(1)]) (use rs(1) in \<open>simp_all add: reserved_ok_def\<close>)
  moreover have "after_bind ?ix n ?c rs prev (\<lambda>k. R k + count_list rs k) = R"
    using prev edge_objects [OF d(4) inj x] by (auto simp: after_bind_def fun_eq_iff)
  ultimately have c: "counted ?ix' R Q" by simp
  have "0 < name_refs ?ix' y \<Longrightarrow> y = ?c \<or> 0 < name_refs ?ix y" for y
    unfolding name_refs_pos bind_bindings [OF d(5)] by (auto split: if_splits)
  then have "rows_files env (rp_fs rp) ?ix'"
    unfolding rows_files_def bind_view using r has by blast
  with c d(2) bind_edges_exact [OF inj d(4) x rs prev d(5)] bind_bindings(1) [OF d(5)] show ?thesis
    by (simp add: repo_inv_def)
qed

section \<open>Put and alias\<close>

definition flt_raises :: "faults \<Rightarrow> store_error \<Rightarrow> bool" where
  "flt_raises flt e \<longleftrightarrow> flt_write_object flt = Some e \<or> flt_after_reserve flt = Some e \<or> flt_before_bind flt = Some e
     \<or> flt_before_commit flt = Some e \<or> flt_bind flt = Some e"

lemma no_faults_simps [simp]:
  "flt_write_block no_faults h g = None" "flt_write_object no_faults = None" "flt_after_reserve no_faults = None"
  "flt_before_bind no_faults = None" "flt_before_commit no_faults = None" "flt_bind no_faults = None"
  by (simp_all add: no_faults_def)

definition bound :: "(name \<times> cid) list \<Rightarrow> name \<Rightarrow> cid \<Rightarrow> (name \<times> cid) list" where
  "bound bs n c = (case rev (filter (\<lambda>b. fst b = n) bs) of
     b # _ \<Rightarrow> if snd b = c then bs else bs @ [(n, c)] | [] \<Rightarrow> bs @ [(n, c)])"

lemma bind_bound: "names_ok ix \<Longrightarrow> bindings (ix_bind n c rs prev ix) = bound (bindings ix) n c"
  by (simp add: bind_bindings(2) bound_def resolve_history history_bindings rev_map split: list.split)

lemma reserved_chunks_at:
  assumes env: "env_ok env" and inj: "inj_on (se_hash env) U" and x: "chunk_bytes x ` set (cs_chunk env x) \<subseteq> U"
    and inv: "repo_inv env U (\<lambda>k. R k + count_list rs k) Q rp" and rs: "reserved_ok rs" "fst ` set rs = chunk_hashes env x"
  shows "chunks_at env (\<lambda>_. 0) (rp_fs rp) x"
  unfolding chunks_at_def
proof
  fix ch assume ch: "ch \<in> set (cs_chunk env x)"
  let ?b = "chunk_bytes x ch"
  have h: "ck_hash ch = se_hash env ?b" by (rule chunk_tiles(3) [OF env ch])
  have "ck_hash ch \<in> fst ` set rs" using ch rs(2) by (simp add: chunk_hashes_def)
  then have "0 < R (ck_hash ch, 0) + count_list rs (ck_hash ch, 0)" using reserved_ok_count [OF rs(1)] by simp
  with reserved_data [OF inj inv, of ?b] x ch show "block_data env (rp_fs rp) (ck_hash ch) 0 = Some ?b"
    by (auto simp: h)
qed

lemma put_reserved_cases:
  assumes env: "env_ok env" and inj: "inj_on (se_hash env) U" and x: "x \<in> U" "chunk_bytes x ` set (cs_chunk env x) \<subseteq> U"
    and inv: "repo_inv env U (\<lambda>k. R k + count_list rs k) (Q(c := Suc (Q c))) rp" and c: "c = se_hash env x"
    and rs: "reserved_ok rs" "fst ` set rs = chunk_hashes env x"
    and prev: "prev = int (name_refs (rp_ix rp) c)" and av: "oavail (rp_ix rp) c"
    and blocks: "blocks = map (\<lambda>ch. (ck_hash ch, the (map_of rs (ck_hash ch)), ck_len ch)) (cs_chunk env x)"
  obtains (stored) rp' where "put_reserved env flt now n c (length x) blocks rs prev rp = (Inr c, rp')"
      "repo_inv env U R Q rp'" "bindings (rp_ix rp') = bound (bindings (rp_ix rp)) n c"
      "\<And>d. cs_has env (rp_fs rp') d \<longleftrightarrow> d = c \<or> cs_has env (rp_fs rp) d"
  | (failed) e rp' where "put_reserved env flt now n c (length x) blocks rs prev rp = (Inl e, rp')" "flt_raises flt e"
      "repo_inv env U R Q rp'" "bindings (rp_ix rp') = bindings (rp_ix rp)"
proof -
  have gens: "blocks = map (\<lambda>ch. (ck_hash ch, 0, ck_len ch)) (cs_chunk env x)"
    unfolding blocks using reserved_ok_map_of [OF rs(1)] rs(2) by (simp add: chunk_hashes_def)
  note data = reserved_chunks_at [OF env inj x(2) inv rs]
  let ?rp = "rp\<lparr>rp_fs := write_object env now c (length x) blocks (rp_fs rp)\<rparr>"
  note w = write_object_inv [OF env inv x(1) data, folded c gens, OF av, of now]
  note gb = give_back_inv [OF inv] and gb' = give_back_inv [OF w(1)]
  note pr = put_reserved_def [of env flt now n c "length x" blocks rs prev rp]
  show thesis
  proof (cases "flt_after_reserve flt")
    case (Some e)
    then show thesis using pr gb by (intro failed [of e "give_back c rs rp"]) (auto simp: flt_raises_def)
  next
    case a: None
    show thesis
    proof (cases "flt_write_object flt")
      case (Some e)
      then show thesis using pr gb a by (intro failed [of e "give_back c rs rp"]) (auto simp: flt_raises_def)
    next
      case b: None
      show thesis
      proof (cases "(case flt_before_bind flt of None \<Rightarrow> flt_bind flt | Some e \<Rightarrow> Some e)")
        case (Some e)
        then show thesis using pr gb' a b
          by (intro failed [of e "give_back c rs ?rp"]) (auto simp: flt_raises_def Let_def split: option.splits)
      next
        case None
        have "repo_inv env U R Q (?rp\<lparr>rp_ix := ix_bind n (se_hash env x) rs prev (rp_ix ?rp)\<rparr>)"
          by (rule bind_inv [OF inj x(1) _ _ rs]) (use w prev in \<open>simp_all add: c\<close>)
        with None show thesis using pr a b w(2) bind_bound [OF repo_invD(5) [OF inv]]
          by (intro stored [of "?rp\<lparr>rp_ix := ix_bind n (se_hash env x) rs prev (rp_ix ?rp)\<rparr>"]) (auto simp: Let_def c split: option.splits)
      qed
    qed
  qed
qed

lemma repo_put_cases:
  assumes env: "env_ok env" and inj: "inj_on (se_hash env) U" and x: "x \<in> U" "chunk_bytes x ` set (cs_chunk env x) \<subseteq> U"
    and inv: "repo_inv env U R (\<lambda>_. 0) rp"
  obtains (stored) rp' where "repo_put env flt now n x rp = (Inr (se_hash env x), rp')"
      "repo_inv env U R (\<lambda>_. 0) rp'" "bindings (rp_ix rp') = bound (bindings (rp_ix rp)) n (se_hash env x)"
      "\<And>d. cs_has env (rp_fs rp') d \<longleftrightarrow> d = se_hash env x \<or> cs_has env (rp_fs rp) d"
  | (failed) e rp' where "repo_put env flt now n x rp = (Inl e, rp')" "flt_raises flt e"
      "repo_inv env U R (\<lambda>_. 0) rp'" "bindings (rp_ix rp') = bindings (rp_ix rp)"
  | (no_block) e h rp' R' where "repo_put env flt now n x rp = (Inl e, rp')" "flt_write_block flt h 0 = Some e"
      "repo_inv env U R' (\<lambda>_. 0) rp'" "bindings (rp_ix rp') = bindings (rp_ix rp)"
proof -
  let ?c = "se_hash env x"
  from inv have inv0: "repo_inv env U (\<lambda>k. R k + count_list [] k) (\<lambda>_. 0) rp" by simp
  have "reserved_ok []" by (simp add: reserved_ok_def)
  from reserve_chunks_cases [OF env inj x(2) order_refl inv0 this, where flt = flt and now = now]
  show thesis
  proof (elim disjE exE conjE)
    fix e h rp' R'
    assume "reserve_chunks env flt now x (cs_chunk env x) [] rp = (Inl e, rp')" "flt_write_block flt h 0 = Some e"
      "repo_inv env U R' (\<lambda>_. 0) rp'" "block_step env rp rp'"
    then show thesis
      by (intro no_block [of e rp' h R']) (simp_all add: repo_put_def Let_def block_step_def bindings_def)
  next
    fix rs rp1
    assume run: "reserve_chunks env flt now x (cs_chunk env x) [] rp = (Inr rs, rp1)"
      and step: "block_step env rp rp1"
      and inv1: "repo_inv env U (\<lambda>k. R k + count_list rs k) (\<lambda>_. 0) rp1" and rs: "reserved_ok rs"
      and set: "fst ` set rs = fst ` set [] \<union> ck_hash ` set (cs_chunk env x)"
    obtain ix2 where ob: "ix_reserve_object now ?c True (rp_ix rp1) = (Some (orc (rp_ix rp1) ?c), ix2)"
      and inv2: "repo_inv env U (\<lambda>k. R k + count_list rs k) ((\<lambda>_. 0)(?c := Suc 0)) (rp1\<lparr>rp_ix := ix2\<rparr>)"
      and av: "oavail ix2 ?c" and same: "ix_versions ix2 = ix_versions (rp_ix rp1)"
      using reserve_object_seq [OF inv1, of True ?c now] by auto
    let ?prev = "orc (rp_ix rp1) ?c" and ?rp2 = "rp1\<lparr>rp_ix := ix2\<rparr>"
    let ?blocks = "map (\<lambda>ch. (ck_hash ch, the (map_of rs (ck_hash ch)), ck_len ch)) (cs_chunk env x)"
    have put: "repo_put env flt now n x rp = put_reserved env flt now n ?c (length x) ?blocks rs ?prev ?rp2"
      by (simp add: repo_put_def Let_def run reserve_attempts_seq [OF ob])
    have prev: "?prev = int (name_refs (rp_ix ?rp2) ?c)"
      using countedD(3) [OF repo_invD(1) [OF inv1], of ?c] views_same(10) [OF same] by simp
    have fst: "fst ` set rs = chunk_hashes env x" using set by (simp add: chunk_hashes_def)
    have b: "bindings ix2 = bindings (rp_ix rp)" using same step by (simp add: bindings_def block_step_def)
    have has: "cs_has env (rp_fs rp1) = cs_has env (rp_fs rp)" using step by (simp add: block_step_def)
    show thesis
    proof (rule put_reserved_cases [where Q = "\<lambda>_. 0", OF env inj x inv2 refl rs fst prev _ refl, where flt = flt and now = now and n = n])
      show "oavail (rp_ix ?rp2) ?c" using av by simp
    qed (use stored failed in \<open>auto simp: put b has\<close>)
  qed
qed

lemma reserve_blocks_seq:
  assumes inv: "repo_inv env U (\<lambda>k. R k + count_list rs k) Q rp" and data: "\<And>h. h \<in> set hs \<Longrightarrow> block_data env (rp_fs rp) h 0 \<noteq> None"
  shows "\<exists>ix'. reserve_blocks now hs rs (rp_ix rp) = (Inr (rs @ map (\<lambda>h. (h, 0)) hs), ix')
     \<and> repo_inv env U (\<lambda>k. R k + count_list (rs @ map (\<lambda>h. (h, 0)) hs) k) Q (rp\<lparr>rp_ix := ix'\<rparr>)
     \<and> ix_versions ix' = ix_versions (rp_ix rp)"
  using inv data
proof (induction hs arbitrary: rs rp)
  case Nil
  then show ?case by simp
next
  case (Cons h hs)
  note d = repo_invD [OF Cons.prems(1)] and r = rows_filesD [OF repo_invD(3) [OF Cons.prems(1)]]
  have av: "bavail (rp_ix rp) h 0" using r(2) [of h 0] Cons.prems(2) [of h] by simp
  then obtain ix1 where res: "ix_reserve_block now h (rp_ix rp) = (Some 0, ix1)"
    using reserve_seq(1) [OF d(1,3), of h now] by (cases "ix_reserve_block now h (rp_ix rp)") auto
  note v = reserve_block_view [where now = now and h = h and ix = "rp_ix rp", unfolded res snd_conv]
  have step: "block_step env rp (rp\<lparr>rp_ix := ix1\<rparr>)" by (simp add: block_step_def v blocks_grow_refl)
  have eq: "(\<lambda>k. R k + count_list rs k)((h, 0) := Suc (R (h, 0) + count_list rs (h, 0))) = (\<lambda>k. R k + count_list (rs @ [(h, 0)]) k)"
    by (auto simp: fun_eq_iff)
  have ok: "blocks_ok env U (rp_fs rp)" using d(2) by (simp add: cas_inv_def)
  have "repo_inv env U (\<lambda>k. R k + count_list (rs @ [(h, 0)]) k) Q (rp\<lparr>rp_ix := ix1\<rparr>)"
    by (rule block_step_inv [OF Cons.prems(1) step])
       (use reserve_block_counted(1) [OF d(1) res] ok r(1-3) in \<open>simp_all add: v eq\<close>)
  from Cons.IH [OF this] Cons.prems(2) show ?case by (simp add: res v)
qed

lemma traverse_unhex:
  assumes "env_ok env"
  shows "traverse (\<lambda>b. case se_unhex env (br_hash b) of None \<Rightarrow> Inl Corrupt | Some h \<Rightarrow> Inr h) (mf_blocks (manifest_of env gen x))
    = Inr (map ck_hash (cs_chunk env x))"
proof -
  let ?cs = "cs_chunk env x"
  have "traverse (\<lambda>ch. case se_unhex env (se_hex env (ck_hash ch)) of None \<Rightarrow> Inl Corrupt | Some h \<Rightarrow> Inr h) ?cs = Inr (map ck_hash ?cs)"
    by (rule traverse_all) (simp add: env_hex [OF assms])
  then show ?thesis by (simp add: manifest_of_def traverse_map)
qed

lemma distinct_remdups_adj_sort: "distinct (remdups_adj (sort (xs :: 'a :: linorder list)))"
proof -
  have "distinct (remdups_adj ys)" if "sorted ys" for ys :: "'a list"
    using that by (induction ys rule: remdups_adj.induct) auto
  then show ?thesis by simp
qed

lemma repo_bind_cases:
  assumes env: "env_ok env" and inj: "inj_on (se_hash env) U" and inv: "repo_inv env U R (\<lambda>_. 0) rp"
  obtains (absent) "repo_bind env flt now n c rp = (Inl (NotFound c), rp)" "\<not> cs_has env (rp_fs rp) c"
  | (aliased) rp' where "repo_bind env flt now n c rp = (Inr (), rp')" "cs_has env (rp_fs rp) c"
      "repo_inv env U R (\<lambda>_. 0) rp'" "bindings (rp_ix rp') = bound (bindings (rp_ix rp)) n c" "rp_fs rp' = rp_fs rp"
  | (failed) e rp' where "repo_bind env flt now n c rp = (Inl e, rp')" "flt_raises flt e" "cs_has env (rp_fs rp) c"
      "repo_inv env U R (\<lambda>_. 0) rp'" "bindings (rp_ix rp') = bindings (rp_ix rp)" "rp_fs rp' = rp_fs rp"
proof (cases "cs_has env (rp_fs rp) c")
  case False
  then have "cs_blocks env (rp_fs rp) c = Inl (NotFound c)"
    by (simp add: cs_blocks_def read_manifest_def cs_has_def)
  with False show thesis by (intro absent) (simp_all add: repo_bind_def)
next
  case True
  note d = repo_invD [OF inv]
  from True d(2) obtain x where x: "x \<in> U" "se_hash env x = c"
    "read_manifest env (rp_fs rp) c = Inr (manifest_of env (\<lambda>_. 0) x)" "chunks_at env (\<lambda>_. 0) (rp_fs rp) x"
    by (auto simp: cas_inv_def)
  let ?hs = "remdups_adj (sort (map ck_hash (cs_chunk env x)))"
  let ?rs = "map (\<lambda>h. (h, 0)) ?hs"
  have blocks: "cs_blocks env (rp_fs rp) c = Inr (map ck_hash (cs_chunk env x))"
    by (simp add: cs_blocks_def x(3) traverse_unhex [OF env])
  have rs: "reserved_ok ?rs" using distinct_remdups_adj_sort by (auto simp: reserved_ok_def comp_def)
  have fst: "fst ` set ?rs = chunk_hashes env x" by (simp add: chunk_hashes_def image_image)
  have "block_data env (rp_fs rp) h 0 \<noteq> None" if "h \<in> set ?hs" for h
    using that x(4) by (auto simp: chunks_at_def)
  then obtain ix1 where r1: "reserve_blocks now ?hs [] (rp_ix rp) = (Inr ?rs, ix1)"
    and inv1: "repo_inv env U (\<lambda>k. R k + count_list ?rs k) (\<lambda>_. 0) (rp\<lparr>rp_ix := ix1\<rparr>)"
    and v1: "ix_versions ix1 = ix_versions (rp_ix rp)"
    using reserve_blocks_seq [where rs = "[]" and R = R and hs = ?hs and now = now and rp = rp and env = env and U = U and Q = "\<lambda>_. 0"] inv
    by auto
  have "oavail ix1 c" using rows_filesD(5) [OF repo_invD(3) [OF inv1], of c] True by simp
  then obtain ix2 where r2: "ix_reserve_object now c False ix1 = (Some (orc ix1 c), ix2)"
    and inv2: "repo_inv env U (\<lambda>k. R k + count_list ?rs k) ((\<lambda>_. 0)(c := Suc 0)) (rp\<lparr>rp_ix := ix2\<rparr>)"
    and v2: "ix_versions ix2 = ix_versions ix1"
    using reserve_object_seq [OF inv1, of False c now] by auto
  have prev: "orc ix1 c = int (name_refs ix2 c)"
    using countedD(3) [OF repo_invD(1) [OF inv1], of c] views_same(10) [OF v2] by simp
  have b: "bindings ix2 = bindings (rp_ix rp)" by (simp add: bindings_def v1 v2)
  note run = repo_bind_def [of env flt now n c rp] and gb = give_back_inv [where Q = "\<lambda>_. 0", OF inv2]
  show thesis
  proof (cases "(case flt_before_commit flt of None \<Rightarrow> flt_bind flt | Some e \<Rightarrow> Some e)")
    case (Some e)
    then show thesis using run blocks r1 r2 True gb b
      by (intro failed [of e "give_back c ?rs (rp\<lparr>rp_ix := ix2\<rparr>)"]) (auto simp: flt_raises_def split: option.splits)
  next
    case None
    have "repo_inv env U R (\<lambda>_. 0) (rp\<lparr>rp_ix := ix_bind n c ?rs (orc ix1 c) ix2\<rparr>)"
      using bind_inv [where Q = "\<lambda>_. 0" and rp = "rp\<lparr>rp_ix := ix2\<rparr>", OF inj x(1) _ _ rs fst, unfolded x(2)] inv2 prev True by simp
    with None show thesis using run blocks r1 r2 True b bind_bound [OF repo_invD(5) [OF inv2]]
      by (intro aliased [of "rp\<lparr>rp_ix := ix_bind n c ?rs (orc ix1 c) ix2\<rparr>"]) (auto split: option.splits)
  qed
qed

section \<open>Unbind and reads\<close>

lemma repo_unbind_inv:
  assumes inv: "repo_inv env U R (\<lambda>_. 0) rp"
  obtains rp' where "repo_unbind n rp = (Inr (), rp')" "repo_inv env U R (\<lambda>_. 0) rp'" "rp_fs rp' = rp_fs rp"
    "bindings (rp_ix rp') = filter (\<lambda>b. fst b \<noteq> n) (bindings (rp_ix rp))"
proof -
  let ?ix = "rp_ix rp" and ?cids = "map vr_cid (filter (\<lambda>r. vr_name r = n) (ix_versions (rp_ix rp)))"
  note d = repo_invD [OF inv] and r = rows_filesD [OF repo_invD(3) [OF inv]]
  from unbind_counted [OF d(1), of n] obtain ix' where un: "ix_unbind n ?ix = Inr ix'" and c: "counted ix' R (\<lambda>_. 0)"
    and ver: "ix_versions ix' = del_where (\<lambda>r. vr_name r = n) (ix_versions ?ix)"
    and row: "\<And>y. orow ix' y = map_option (\<lambda>ob. ob\<lparr>ob_refcount := ob_refcount ob - int (count_list ?cids y)\<rparr>) (orow ?ix y)"
    and edges: "ix_edges ix' = filter (\<lambda>e. \<not> (ed_object e \<in> set ?cids \<and> orc ix' (ed_object e) = 0)) (ix_edges ?ix)"
    and b: "bavail ix' = bavail ?ix" "bclaimed ix' = bclaimed ?ix" by auto
  note nm = names_ok_del [OF d(5) ver]
  have o: "oavail ix' y = oavail ?ix y" "oclaimed ix' y = oclaimed ?ix y" for y
    by (simp_all add: oview row split: option.splits)
  have less: "0 < name_refs ix' y \<Longrightarrow> 0 < name_refs ?ix y" for y
    unfolding name_refs_pos nm(2) by auto
  have keep: "0 < name_refs ix' y" if "0 < name_refs ?ix y" "\<not> (y \<in> set ?cids \<and> orc ix' y = 0)" for y
  proof (cases "y \<in> set ?cids")
    case True
    with that countedD(3) [OF c, of y] show ?thesis by simp
  next
    case False
    with that(1) show ?thesis unfolding name_refs_pos nm(2) by (force simp: bindings_def)
  qed
  have drop: "\<not> (y \<in> set ?cids \<and> orc ix' y = 0)" if "0 < name_refs ix' y" for y
    using that countedD(3) [OF c, of y] by simp
  have iff: "0 < name_refs ix' y \<longleftrightarrow> 0 < name_refs ?ix y \<and> \<not> (y \<in> set ?cids \<and> orc ix' y = 0)" for y
    using less [of y] keep [of y] drop [of y] by blast
  define E where "E i e x \<longleftrightarrow> 0 < name_refs i (se_hash env x) \<and> ed_object e = se_hash env x \<and> ed_generation e = 0
    \<and> ed_block e \<in> chunk_hashes env x" for i and e :: edge and x
  have ex: "edges_exact env U i \<longleftrightarrow> (\<forall>e. e \<in> set (ix_edges i) \<longleftrightarrow> (\<exists>x \<in> U. E i e x))" for i
    by (simp add: edges_exact_def E_def)
  have E: "E ix' e x \<longleftrightarrow> E ?ix e x \<and> \<not> (ed_object e \<in> set ?cids \<and> orc ix' (ed_object e) = 0)" for e x
  proof (cases "ed_object e = se_hash env x")
    case True
    show ?thesis unfolding E_def True iff [of "se_hash env x"] by blast
  qed (simp add: E_def)
  have "e \<in> set (ix_edges ix') \<longleftrightarrow> (\<exists>x \<in> U. E ix' e x)" for e
    using d(4) unfolding ex E edges set_filter mem_Collect_eq by blast
  then have "edges_exact env U ix'" unfolding ex by blast
  moreover have "rows_files env (rp_fs rp) ix'"
    unfolding rows_files_def b o using d(3) [unfolded rows_files_def] less by (intro conjI allI impI) (simp_all only: simp_thms)
  ultimately have "repo_inv env U R (\<lambda>_. 0) (rp\<lparr>rp_ix := ix'\<rparr>)" using c d(2) nm(1) by (simp add: repo_inv_def)
  with that [of "rp\<lparr>rp_ix := ix'\<rparr>"] un nm(2) show thesis by (simp add: repo_unbind_def)
qed

lemma repo_holds:
  assumes env: "env_ok env" and inj: "inj_on (se_hash env) U" and inv: "repo_inv env U R Q rp"
    and x: "x \<in> U" "cs_has env (rp_fs rp) (se_hash env x)"
  shows "holds_object env (rp_fs rp) (se_hash env x) x"
  by (rule cas_inv_holds [OF env inj repo_invD(2) [OF inv] x])

lemma bound_holds:
  assumes env: "env_ok env" and inj: "inj_on (se_hash env) U" and inv: "repo_inv env U R Q rp"
    and x: "x \<in> U" "(n, se_hash env x) \<in> set (bindings (rp_ix rp))"
  shows "holds_object env (rp_fs rp) (se_hash env x) x"
proof (rule repo_holds [OF env inj inv x(1)])
  have "0 < name_refs (rp_ix rp) (se_hash env x)" unfolding name_refs_pos using x(2) by force
  then show "cs_has env (rp_fs rp) (se_hash env x)" by (rule rows_filesD(6) [OF repo_invD(3) [OF inv]])
qed

end
