(* ===== verification/Collector.thy ===== *)
theory Collector
  imports Repository_Invariant
begin

text \<open>
  The reference garbage collector, \<^verbatim>\<open>services/fq-store/src/collector.rs\<close>: one pass over the
  unreferenced objects, then over the unreferenced blocks, each claimed, unlinked and deleted. The
  lemmas show that a pass run by itself keeps the repository invariant and every named content, and
  leaves nothing unreferenced behind.
\<close>

section \<open>The pass\<close>

record reclaimed =
  rc_objects :: nat
  rc_blocks :: nat

primrec collect_objects :: "store_env \<Rightarrow> (cid \<times> bool) list \<Rightarrow> reclaimed \<Rightarrow> repo \<Rightarrow> reclaimed \<times> repo" where
  "collect_objects env [] acc rp = (acc, rp)"
| "collect_objects env (cand # cands) acc rp =
     (let c = fst cand;
          claim = (if snd cand then ix_claim_object c (rp_ix rp) else (True, rp_ix rp));
          rp' = rp\<lparr>rp_ix := snd claim\<rparr>
      in if fst claim
         then collect_objects env cands (acc\<lparr>rc_objects := rc_objects acc + 1\<rparr>)
                \<lparr>rp_fs = cs_remove env c (rp_fs rp'), rp_ix = ix_delete_object c (rp_ix rp')\<rparr>
         else collect_objects env cands acc rp')"

primrec collect_blocks :: "store_env \<Rightarrow> (cid \<times> nat \<times> bool) list \<Rightarrow> reclaimed \<Rightarrow> repo \<Rightarrow> reclaimed \<times> repo" where
  "collect_blocks env [] acc rp = (acc, rp)"
| "collect_blocks env (cand # cands) acc rp =
     (let h = fst cand; g = fst (snd cand);
          claim = (if snd (snd cand) then ix_claim_block h g (rp_ix rp) else (True, rp_ix rp));
          rp' = rp\<lparr>rp_ix := snd claim\<rparr>
      in if fst claim
         then collect_blocks env cands (acc\<lparr>rc_blocks := rc_blocks acc + 1\<rparr>)
                \<lparr>rp_fs = cs_remove_block env h g (rp_fs rp'), rp_ix = ix_delete_block h g (rp_ix rp')\<rparr>
         else collect_blocks env cands acc rp')"

definition collect :: "store_env \<Rightarrow> repo \<Rightarrow> reclaimed \<times> repo" where
  "collect env rp =
     (let (acc, rp1) = collect_objects env (ix_claimable_objects (rp_ix rp)) \<lparr>rc_objects = 0, rc_blocks = 0\<rparr> rp
      in collect_blocks env (ix_claimable_blocks (rp_ix rp1)) acc rp1)"

section \<open>Objects\<close>

lemma claim_object_wins:
  assumes "keys_ok ix" "oavail ix c" "orc ix c = 0"
  shows "fst (ix_claim_object c ix)"
proof -
  from assms obtain ob where ob: "orow ix c = Some ob" "ob_available ob" "ob_refcount ob = 0"
    by (auto simp: oview split: option.splits)
  have keys: "distinct (map ob_cid (ix_objects ix))" using assms(1) by (simp add: keys_ok_def)
  with ob(1) have "ob \<in> set (ix_objects ix)" "ob_cid ob = c" by (simp_all add: orow_iff)
  with ob rows_affected_key [OF keys, of c "\<lambda>ob. ob_refcount ob = 0 \<and> ob_available ob"] show ?thesis
    by (auto simp: ix_claim_object_def Let_def)
qed

lemma collect_object_step:
  assumes env: "env_ok env" and inv: "repo_inv env U R (\<lambda>_. 0) rp" and av: "oavail (rp_ix rp) c" and z: "orc (rp_ix rp) c = 0"
  defines "ix1 \<equiv> snd (ix_claim_object c (rp_ix rp))"
  defines "rp' \<equiv> \<lparr>rp_fs = cs_remove env c (rp_fs rp), rp_ix = ix_delete_object c ix1\<rparr>"
  shows "fst (ix_claim_object c (rp_ix rp))" "repo_inv env U R (\<lambda>_. 0) rp'"
    "ix_versions (rp_ix rp') = ix_versions (rp_ix rp)"
    "oavail (rp_ix rp') y \<longleftrightarrow> oavail (rp_ix rp) y \<and> y \<noteq> c" "y \<noteq> c \<Longrightarrow> orc (rp_ix rp') y = orc (rp_ix rp) y"
    "cs_has env (rp_fs rp') y \<longleftrightarrow> cs_has env (rp_fs rp) y \<and> y \<noteq> c"
proof -
  let ?ix = "rp_ix rp" and ?ix2 = "ix_delete_object c ix1"
  note d = repo_invD [OF inv] and r = rows_filesD [OF repo_invD(3) [OF inv]]
  show won: "fst (ix_claim_object c ?ix)" by (rule claim_object_wins [OF countedD(1) [OF d(1)] av z])
  have c1: "counted ix1 R (\<lambda>_. 0)" unfolding ix1_def by (rule claim_object_counted [OF d(1)])
  have s1: "ix_versions ix1 = ix_versions ?ix" "ix_edges ix1 = ix_edges ?ix" "ix_blocks ix1 = ix_blocks ?ix"
    by (simp_all add: ix1_def ix_claim_object_def Let_def)
  have refs: "name_refs ?ix c = 0" using countedD(3) [OF d(1), of c] z by simp
  have noedge: "ed_object e \<noteq> c" if "e \<in> set (ix_edges ?ix)" for e
    using that d(4) refs unfolding edges_exact_def by (metis less_irrefl)
  have oe: "object_edge_refs ix1 c k = 0" for k
    using noedge by (auto simp: object_edge_refs_def s1 filter_empty_conv)
  have row1: "orow ix1 y = map_option (\<lambda>ob. if y = c \<and> ob_refcount ob = 0 \<and> ob_available ob then ob\<lparr>ob_available := False\<rparr> else ob) (orow ?ix y)" for y
    unfolding ix1_def by (rule orow_claim_object)
  have cl: "oclaimed ix1 c" "orc ix1 c = 0"
    using av z by (auto simp: oview row1 split: option.splits)
  have c2: "counted ?ix2 R (\<lambda>_. 0)" using delete_object_counted(1) [OF c1, of c] by (simp add: cl oe)
  have row2: "orow ?ix2 y = (if y = c then None else orow ?ix y)" for y
    using delete_object_counted(2) [OF c1, of c y] row1 [of y] by (simp add: cl option.map_ident)
  have edges2: "ix_edges ?ix2 = ix_edges ?ix"
    using noedge by (auto simp: ix_delete_object_def s1 del_where_none)
  have vers2: "ix_versions ?ix2 = ix_versions ?ix" by (simp add: ix_delete_object_def s1)
  have blocks2: "ix_blocks ?ix2 = ix_blocks ?ix" by (simp add: ix_delete_object_def s1)
  show "ix_versions (rp_ix rp') = ix_versions ?ix" by (simp add: rp'_def vers2)
  have o2: "oavail ?ix2 y \<longleftrightarrow> oavail ?ix y \<and> y \<noteq> c" "\<not> oclaimed ?ix2 y" for y
    using r(4) [of y] by (simp_all add: oview row2)
  then show "oavail (rp_ix rp') y \<longleftrightarrow> oavail ?ix y \<and> y \<noteq> c" by (simp add: rp'_def)
  show "y \<noteq> c \<Longrightarrow> orc (rp_ix rp') y = orc ?ix y" by (simp add: rp'_def orc_def row2)
  have has: "cs_has env (cs_remove env c (rp_fs rp)) y \<longleftrightarrow> cs_has env (rp_fs rp) y \<and> y \<noteq> c" for y
    using env by (auto simp: tbl)
  then show "cs_has env (rp_fs rp') y \<longleftrightarrow> cs_has env (rp_fs rp) y \<and> y \<noteq> c" by (simp add: rp'_def)
  have bd: "block_data env (cs_remove env c (rp_fs rp)) = block_data env (rp_fs rp)" by (simp add: tbl)
  have man: "y \<noteq> c \<Longrightarrow> read_manifest env (cs_remove env c (rp_fs rp)) y = read_manifest env (rp_fs rp) y" for y
    using env by (simp add: tbl)
  have at: "chunks_at env g (cs_remove env c (rp_fs rp)) = chunks_at env g (rp_fs rp)" for g
    by (simp add: fun_eq_iff chunks_at_def bd)
  have "cas_inv env U (cs_remove env c (rp_fs rp))"
    using d(2) unfolding cas_inv_def blocks_ok_def bd has at by (auto simp: man)
  moreover have "rows_files env (cs_remove env c (rp_fs rp)) ?ix2"
    unfolding rows_files_def bd has views_same(7,8) [OF blocks2] views_same(10) [OF vers2] o2(1)
    using d(3) [unfolded rows_files_def] refs o2(2) by (metis less_irrefl)
  ultimately show "repo_inv env U R (\<lambda>_. 0) rp'"
    using c2 d(4,5) edges_exact_same [OF edges2 vers2] names_ok_same [OF vers2] by (simp add: repo_inv_def rp'_def)
qed

lemma collect_objects_inv:
  assumes env: "env_ok env" and inv: "repo_inv env U R (\<lambda>_. 0) rp" and d: "distinct (map fst cands)"
    and cand: "\<And>c a. (c, a) \<in> set cands \<Longrightarrow> a \<and> oavail (rp_ix rp) c \<and> orc (rp_ix rp) c = 0"
  shows "\<exists>rp'. collect_objects env cands acc rp = (acc\<lparr>rc_objects := rc_objects acc + length cands\<rparr>, rp')
    \<and> repo_inv env U R (\<lambda>_. 0) rp' \<and> bindings (rp_ix rp') = bindings (rp_ix rp)
    \<and> (\<forall>y. oavail (rp_ix rp') y \<longleftrightarrow> oavail (rp_ix rp) y \<and> y \<notin> fst ` set cands)
    \<and> (\<forall>y. cs_has env (rp_fs rp') y \<longleftrightarrow> cs_has env (rp_fs rp) y \<and> y \<notin> fst ` set cands)"
  using inv d cand
proof (induction cands arbitrary: rp acc)
  case Nil
  then show ?case by simp
next
  case (Cons cand cands)
  obtain c a where cd: "cand = (c, a)" by force
  from Cons.prems(3) [of c a] have a: "a" "oavail (rp_ix rp) c" "orc (rp_ix rp) c = 0" by (simp_all add: cd)
  let ?rp = "\<lparr>rp_fs = cs_remove env c (rp_fs rp), rp_ix = ix_delete_object c (snd (ix_claim_object c (rp_ix rp)))\<rparr>"
  note st = collect_object_step [OF env Cons.prems(1) a(2,3)]
  let ?acc = "acc\<lparr>rc_objects := rc_objects acc + 1\<rparr>"
  have run: "collect_objects env (cand # cands) acc rp = collect_objects env cands ?acc ?rp"
    using st(1) a(1) by (simp add: cd Let_def)
  have dist: "distinct (map fst cands)" using Cons.prems(2) by simp
  have rest: "b \<and> oavail (rp_ix ?rp) x \<and> orc (rp_ix ?rp) x = 0" if "(x, b) \<in> set cands" for x b
  proof -
    have "x \<noteq> c" using that Cons.prems(2) by (force simp: cd)
    with that Cons.prems(3) [of x b] st(4,5) [of x] show ?thesis by simp
  qed
  have bs: "bindings (rp_ix ?rp) = bindings (rp_ix rp)" using st(3) by (simp add: bindings_def)
  from Cons.IH [OF st(2) dist rest, of ?acc] obtain rp' where
    "collect_objects env cands ?acc ?rp = (?acc\<lparr>rc_objects := rc_objects ?acc + length cands\<rparr>, rp')"
    "repo_inv env U R (\<lambda>_. 0) rp'" "bindings (rp_ix rp') = bindings (rp_ix ?rp)"
    "\<forall>y. oavail (rp_ix rp') y \<longleftrightarrow> oavail (rp_ix ?rp) y \<and> y \<notin> fst ` set cands"
    "\<forall>y. cs_has env (rp_fs rp') y \<longleftrightarrow> cs_has env (rp_fs ?rp) y \<and> y \<notin> fst ` set cands" by blast
  then show ?case unfolding run using bs st(4,6) by (auto simp: cd)
qed

section \<open>Blocks\<close>

lemma claim_block_wins:
  assumes "keys_ok ix" "bavail ix h g" "brc ix h g = 0"
  shows "fst (ix_claim_block h g ix)"
proof -
  let ?k = "\<lambda>b. (bk_hash b, bk_generation b)"
  from assms obtain b where b: "brow ix h g = Some b" "bk_available b" "bk_refcount b = 0"
    by (cases ix h g rule: bview_cases) auto
  have keys: "distinct (map ?k (ix_blocks ix))" using assms(1) by (simp add: keys_ok_def block_keys_def)
  with b(1) have m: "b \<in> set (ix_blocks ix)" "bk_hash b = h" "bk_generation b = g"
    by (simp_all add: brow_iff block_keys_def)
  have "rows_affected (\<lambda>r. ?k r = (h, g) \<and> bk_refcount r = 0 \<and> bk_available r) (ix_blocks ix) = 1"
    using rows_affected_key [OF keys, of "(h, g)" "\<lambda>r. bk_refcount r = 0 \<and> bk_available r"] m b by auto
  then show ?thesis by (simp add: ix_claim_block_def Let_def)
qed

lemma collect_block_step:
  assumes env: "env_ok env" and inv: "repo_inv env U R Q rp" and av: "bavail (rp_ix rp) h g" and z: "brc (rp_ix rp) h g = 0"
    and named: "\<And>c. cs_has env (rp_fs rp) c \<Longrightarrow> 0 < name_refs (rp_ix rp) c"
  defines "ix1 \<equiv> snd (ix_claim_block h g (rp_ix rp))"
  defines "rp' \<equiv> \<lparr>rp_fs = cs_remove_block env h g (rp_fs rp), rp_ix = ix_delete_block h g ix1\<rparr>"
  shows "fst (ix_claim_block h g (rp_ix rp))" "repo_inv env U R Q rp'"
    "ix_versions (rp_ix rp') = ix_versions (rp_ix rp)" "ix_objects (rp_ix rp') = ix_objects (rp_ix rp)"
    "ix_edges (rp_ix rp') = ix_edges (rp_ix rp)" "cs_has env (rp_fs rp') = cs_has env (rp_fs rp)"
    "bavail (rp_ix rp') h' g' \<longleftrightarrow> bavail (rp_ix rp) h' g' \<and> (h', g') \<noteq> (h, g)"
proof -
  let ?ix = "rp_ix rp" and ?ix2 = "ix_delete_block h g ix1" and ?fs = "cs_remove_block env h g (rp_fs rp)"
  note d = repo_invD [OF inv] and r = rows_filesD [OF repo_invD(3) [OF inv]]
  show "fst (ix_claim_block h g ?ix)" by (rule claim_block_wins [OF countedD(1) [OF d(1)] av z])
  have c1: "counted ix1 R Q" unfolding ix1_def by (rule claim_block_counted [OF d(1)])
  have s2: "ix_versions ?ix2 = ix_versions ?ix" "ix_edges ?ix2 = ix_edges ?ix" "ix_objects ?ix2 = ix_objects ?ix"
    by (simp_all add: ix1_def ix_claim_block_def ix_delete_block_def Let_def)
  then show "ix_versions (rp_ix rp') = ix_versions ?ix" "ix_objects (rp_ix rp') = ix_objects ?ix" "ix_edges (rp_ix rp') = ix_edges ?ix"
    by (simp_all add: rp'_def)
  have row1: "brow ix1 h' g' = map_option (\<lambda>b. if h' = h \<and> g' = g \<and> bk_refcount b = 0 \<and> bk_available b
      then b\<lparr>bk_available := False\<rparr> else b) (brow ?ix h' g')" for h' g'
    unfolding ix1_def by (rule brow_claim_block)
  have cl: "bclaimed ix1 h g" "brc ix1 h g = 0" using av z by (auto simp: bview row1 split: option.splits)
  have row2: "brow ?ix2 h' g' = (if h' = h \<and> g' = g then None else brow ?ix h' g')" for h' g'
    using delete_block_row [OF c1, of h g h' g'] row1 [of h' g'] by (auto simp: cl option.map_ident)
  have b2: "bavail ?ix2 h' g' \<longleftrightarrow> bavail ?ix h' g' \<and> (h', g') \<noteq> (h, g)" "\<not> bclaimed ?ix2 h' g'" for h' g'
    using r(1) [of h' g'] by (auto simp: bview row2)
  then show "bavail (rp_ix rp') h' g' \<longleftrightarrow> bavail ?ix h' g' \<and> (h', g') \<noteq> (h, g)" by (simp add: rp'_def)
  have has: "cs_has env ?fs = cs_has env (rp_fs rp)" by (simp add: tbl)
  then show "cs_has env (rp_fs rp') = cs_has env (rp_fs rp)" by (simp add: rp'_def)
  have bd: "block_data env ?fs h' g' = (if (h', g') = (h, g) then None else block_data env (rp_fs rp) h' g')" for h' g'
    using env by (simp add: tbl)
  have man: "read_manifest env ?fs = read_manifest env (rp_fs rp)" by (simp add: tbl)
  have free: "(ck_hash ch, 0) \<noteq> (h, g)" if x: "x \<in> U" "cs_has env (rp_fs rp) (se_hash env x)" and ch: "ch \<in> set (cs_chunk env x)" for x ch
  proof
    assume hg: "(ck_hash ch, 0) = (h, g)"
    have "\<lparr>ed_object = se_hash env x, ed_block = h, ed_generation = g\<rparr> \<in> set (ix_edges ?ix)"
      using d(4) x named [OF x(2)] ch hg unfolding edges_exact_def chunk_hashes_def by force
    then have "edge_refs ?ix h g \<noteq> 0" by (force simp: edge_refs_def filter_empty_conv)
    with countedD(2) [OF d(1), of h g] z show False by simp
  qed
  have "cas_inv env U ?fs"
    unfolding cas_inv_def
  proof (intro conjI allI impI)
    show "blocks_ok env U ?fs" using d(2) by (auto simp: cas_inv_def blocks_ok_def bd split: if_splits)
    fix c assume "cs_has env ?fs c"
    then have c: "cs_has env (rp_fs rp) c" by (simp add: has)
    with d(2) obtain x where x: "x \<in> U" "se_hash env x = c" "read_manifest env (rp_fs rp) c = Inr (manifest_of env (\<lambda>_. 0) x)"
      "chunks_at env (\<lambda>_. 0) (rp_fs rp) x" unfolding cas_inv_def by blast
    then have "chunks_at env (\<lambda>_. 0) ?fs x"
      using free [of x] c unfolding chunks_at_def bd by simp
    with x man show "\<exists>x\<in>U. se_hash env x = c \<and> read_manifest env ?fs c = Inr (manifest_of env (\<lambda>_. 0) x) \<and> chunks_at env (\<lambda>_. 0) ?fs x"
      by auto
  qed
  moreover have "\<not> bclaimed ?ix2 x y \<and> (bavail ?ix2 x y \<longleftrightarrow> block_data env ?fs x y \<noteq> None) \<and> (bavail ?ix2 x y \<longrightarrow> y = 0)" for x y
    using r(2,3) [of x y] b2 [of x y] bd [of x y] by auto
  then have "rows_files env ?fs ?ix2"
    unfolding rows_files_def has views_same(3,4) [OF s2(3)] views_same(10) [OF s2(1)]
    using d(3) [unfolded rows_files_def] by (intro conjI allI impI) (simp_all only: simp_thms)
  ultimately show "repo_inv env U R Q rp'"
    using delete_block_counted [OF c1, of h g] d(4,5) edges_exact_same [OF s2(2,1)] names_ok_same [OF s2(1)]
    by (simp add: repo_inv_def rp'_def)
qed

lemma collect_blocks_inv:
  assumes env: "env_ok env" and inv: "repo_inv env U R Q rp" and d: "distinct (map (\<lambda>(h, g, _). (h, g)) cands)"
    and cand: "\<And>h g a. (h, g, a) \<in> set cands \<Longrightarrow> a \<and> bavail (rp_ix rp) h g \<and> brc (rp_ix rp) h g = 0"
    and named: "\<And>c. cs_has env (rp_fs rp) c \<Longrightarrow> 0 < name_refs (rp_ix rp) c"
  shows "\<exists>rp'. collect_blocks env cands acc rp = (acc\<lparr>rc_blocks := rc_blocks acc + length cands\<rparr>, rp')
    \<and> repo_inv env U R Q rp' \<and> ix_versions (rp_ix rp') = ix_versions (rp_ix rp)
    \<and> ix_objects (rp_ix rp') = ix_objects (rp_ix rp) \<and> ix_edges (rp_ix rp') = ix_edges (rp_ix rp)
    \<and> cs_has env (rp_fs rp') = cs_has env (rp_fs rp)
    \<and> (\<forall>h g. bavail (rp_ix rp') h g \<longleftrightarrow> bavail (rp_ix rp) h g \<and> (h, g) \<notin> (\<lambda>(h, g, _). (h, g)) ` set cands)"
  using inv d cand named
proof (induction cands arbitrary: rp acc)
  case Nil
  then show ?case by simp
next
  case (Cons cand cands)
  obtain h g a where cd: "cand = (h, g, a)" by (cases cand)
  from Cons.prems(3) [of h g a] have a: "a" "bavail (rp_ix rp) h g" "brc (rp_ix rp) h g = 0" by (simp_all add: cd)
  let ?rp = "\<lparr>rp_fs = cs_remove_block env h g (rp_fs rp), rp_ix = ix_delete_block h g (snd (ix_claim_block h g (rp_ix rp)))\<rparr>"
  note st = collect_block_step [OF env Cons.prems(1) a(2,3) Cons.prems(4)]
  let ?acc = "acc\<lparr>rc_blocks := rc_blocks acc + 1\<rparr>"
  have run: "collect_blocks env (cand # cands) acc rp = collect_blocks env cands ?acc ?rp"
    using st(1) a(1) by (simp add: cd Let_def)
  have dist: "distinct (map (\<lambda>(h, g, _). (h, g)) cands)" using Cons.prems(2) by simp
  have rc: "brc (rp_ix ?rp) x y = brc (rp_ix rp) x y" for x y
    using countedD(2) [OF repo_invD(1) [OF Cons.prems(1)], of x y] countedD(2) [OF repo_invD(1) [OF st(2)], of x y]
      views_same(9) [OF st(5)] by (simp only:)
  have rest: "b \<and> bavail (rp_ix ?rp) x y \<and> brc (rp_ix ?rp) x y = 0" if "(x, y, b) \<in> set cands" for x y b
  proof -
    have "(x, y) \<noteq> (h, g)" using that Cons.prems(2) by (force simp: cd)
    with that Cons.prems(3) [of x y b] st(7) [of x y] rc show ?thesis by simp
  qed
  have nm: "0 < name_refs (rp_ix ?rp) c" if "cs_has env (rp_fs ?rp) c" for c
    using that Cons.prems(4) [of c] st(6) views_same(10) [OF st(3)] by (simp only:)
  from Cons.IH [OF st(2) dist rest nm, of ?acc] obtain rp' where
    "collect_blocks env cands ?acc ?rp = (?acc\<lparr>rc_blocks := rc_blocks ?acc + length cands\<rparr>, rp')"
    "repo_inv env U R Q rp'" "ix_versions (rp_ix rp') = ix_versions (rp_ix ?rp)"
    "ix_objects (rp_ix rp') = ix_objects (rp_ix ?rp)" "ix_edges (rp_ix rp') = ix_edges (rp_ix ?rp)"
    "cs_has env (rp_fs rp') = cs_has env (rp_fs ?rp)"
    "\<forall>x y. bavail (rp_ix rp') x y \<longleftrightarrow> bavail (rp_ix ?rp) x y \<and> (x, y) \<notin> (\<lambda>(h, g, _). (h, g)) ` set cands" by blast
  then show ?case unfolding run using st(3-7) by (auto simp: cd)
qed

section \<open>A whole pass\<close>

lemma claimable_objects_ok:
  assumes inv: "repo_inv env U R Q rp"
  shows "distinct (map fst (ix_claimable_objects (rp_ix rp)))"
    "(c, a) \<in> set (ix_claimable_objects (rp_ix rp)) \<Longrightarrow> a \<and> oavail (rp_ix rp) c \<and> orc (rp_ix rp) c = 0"
    "c \<in> fst ` set (ix_claimable_objects (rp_ix rp)) \<longleftrightarrow> oavail (rp_ix rp) c \<and> orc (rp_ix rp) c = 0"
proof -
  let ?ix = "rp_ix rp"
  note d = repo_invD [OF inv] and r = rows_filesD [OF repo_invD(3) [OF inv]]
  have keys: "distinct (map ob_cid (ix_objects ?ix))" using countedD(1) [OF d(1)] by (simp add: keys_ok_def)
  then show "distinct (map fst (ix_claimable_objects ?ix))"
    by (simp add: ix_claimable_objects_def comp_def distinct_map_filter)
  have view: "(\<exists>ob. orow ?ix c = Some ob \<and> ob_refcount ob = 0 \<and> ob_available ob = a) \<longleftrightarrow> a \<and> oavail ?ix c \<and> orc ?ix c = 0" for c a
    using r(4) [of c] by (cases "orow ?ix c") (auto simp: oview)
  have row: "(\<exists>ob \<in> set (ix_objects ?ix). ob_cid ob = c \<and> ob_refcount ob = 0 \<and> ob_available ob = a)
      \<longleftrightarrow> a \<and> oavail ?ix c \<and> orc ?ix c = 0" for c a
    unfolding view [symmetric] orow_iff [OF keys] by blast
  have mem: "(c, a) \<in> set (ix_claimable_objects ?ix) \<longleftrightarrow> a \<and> oavail ?ix c \<and> orc ?ix c = 0" for c a
    unfolding row [symmetric] by (auto simp: ix_claimable_objects_def)
  show "(c, a) \<in> set (ix_claimable_objects ?ix) \<Longrightarrow> a \<and> oavail ?ix c \<and> orc ?ix c = 0" using mem [of c a] by simp
  show "c \<in> fst ` set (ix_claimable_objects ?ix) \<longleftrightarrow> oavail ?ix c \<and> orc ?ix c = 0"
  proof -
    have "c \<in> fst ` A \<longleftrightarrow> (\<exists>a. (c, a) \<in> A)" for A :: "(cid \<times> bool) set" by force
    then show ?thesis using mem [of c True] mem [of c False] by (simp add: ex_bool_eq)
  qed
qed

lemma claimable_blocks_ok:
  assumes inv: "repo_inv env U R Q rp"
  shows "distinct (map (\<lambda>(h, g, _). (h, g)) (ix_claimable_blocks (rp_ix rp)))"
    "(h, g, a) \<in> set (ix_claimable_blocks (rp_ix rp)) \<Longrightarrow> a \<and> bavail (rp_ix rp) h g \<and> brc (rp_ix rp) h g = 0"
    "(h, g) \<in> (\<lambda>(h, g, _). (h, g)) ` set (ix_claimable_blocks (rp_ix rp)) \<longleftrightarrow> bavail (rp_ix rp) h g \<and> brc (rp_ix rp) h g = 0"
proof -
  let ?ix = "rp_ix rp"
  note d = repo_invD [OF inv] and r = rows_filesD [OF repo_invD(3) [OF inv]]
  have keys: "distinct (block_keys ?ix)" using countedD(1) [OF d(1)] by (simp add: keys_ok_def)
  then show "distinct (map (\<lambda>(h, g, _). (h, g)) (ix_claimable_blocks ?ix))"
    by (simp add: ix_claimable_blocks_def comp_def distinct_map_filter block_keys_def)
  have view: "(\<exists>b. brow ?ix h g = Some b \<and> bk_refcount b = 0 \<and> bk_available b = a) \<longleftrightarrow> a \<and> bavail ?ix h g \<and> brc ?ix h g = 0" for h g a
    using r(1) [of h g] by (cases "brow ?ix h g") (auto simp: bview)
  have row: "(\<exists>b \<in> set (ix_blocks ?ix). bk_hash b = h \<and> bk_generation b = g \<and> bk_refcount b = 0 \<and> bk_available b = a)
      \<longleftrightarrow> a \<and> bavail ?ix h g \<and> brc ?ix h g = 0" for h g a
    unfolding view [symmetric] brow_iff [OF keys] by blast
  have mem: "(h, g, a) \<in> set (ix_claimable_blocks ?ix) \<longleftrightarrow> a \<and> bavail ?ix h g \<and> brc ?ix h g = 0" for h g a
    unfolding row [symmetric] by (auto simp: ix_claimable_blocks_def)
  show "(h, g, a) \<in> set (ix_claimable_blocks ?ix) \<Longrightarrow> a \<and> bavail ?ix h g \<and> brc ?ix h g = 0" using mem [of h g a] by simp
  show "(h, g) \<in> (\<lambda>(h, g, _). (h, g)) ` set (ix_claimable_blocks ?ix) \<longleftrightarrow> bavail ?ix h g \<and> brc ?ix h g = 0"
  proof -
    have "(h, g) \<in> (\<lambda>(h, g, _). (h, g)) ` A \<longleftrightarrow> (\<exists>a. (h, g, a) \<in> A)" for A :: "(cid \<times> nat \<times> bool) set" by force
    then show ?thesis using mem [of h g True] mem [of h g False] by (simp add: ex_bool_eq)
  qed
qed

lemma collect_inv:
  assumes env: "env_ok env" and inv: "repo_inv env U R (\<lambda>_. 0) rp"
  obtains acc rp' where "collect env rp = (acc, rp')" "repo_inv env U R (\<lambda>_. 0) rp'" "bindings (rp_ix rp') = bindings (rp_ix rp)"
    "\<And>c. oavail (rp_ix rp') c \<longleftrightarrow> 0 < name_refs (rp_ix rp') c" "\<And>c. cs_has env (rp_fs rp') c \<longleftrightarrow> 0 < name_refs (rp_ix rp') c"
    "\<And>h g. block_data env (rp_fs rp') h g \<noteq> None \<longleftrightarrow> 0 < edge_refs (rp_ix rp') h g + R (h, g)"
proof -
  let ?os = "ix_claimable_objects (rp_ix rp)"
  note os = claimable_objects_ok [OF inv]
  obtain rp1 where one: "collect_objects env ?os \<lparr>rc_objects = 0, rc_blocks = 0\<rparr> rp
      = (\<lparr>rc_objects = length ?os, rc_blocks = 0\<rparr>, rp1)"
    and inv1: "repo_inv env U R (\<lambda>_. 0) rp1" and b1: "bindings (rp_ix rp1) = bindings (rp_ix rp)"
    and o1: "\<And>y. oavail (rp_ix rp1) y \<longleftrightarrow> oavail (rp_ix rp) y \<and> y \<notin> fst ` set ?os"
    using collect_objects_inv [OF env inv os(1,2), of "\<lparr>rc_objects = 0, rc_blocks = 0\<rparr>"] by auto
  let ?bs = "ix_claimable_blocks (rp_ix rp1)"
  note bs = claimable_blocks_ok [OF inv1] and r1 = rows_filesD [OF repo_invD(3) [OF inv1]]
  have nr: "name_refs (rp_ix rp1) = name_refs (rp_ix rp)" by (simp add: fun_eq_iff name_refs_bindings b1)
  have live: "0 < name_refs (rp_ix rp1) c" if "oavail (rp_ix rp1) c" for c
    using that o1 [of c] os(3) [of c] countedD(3) [OF repo_invD(1) [OF inv], of c] by (simp add: nr)
  have named: "0 < name_refs (rp_ix rp1) c" if "cs_has env (rp_fs rp1) c" for c
    by (rule live [OF r1(5) [OF that]])
  obtain acc rp2 where two: "collect_blocks env ?bs \<lparr>rc_objects = length ?os, rc_blocks = 0\<rparr> rp1 = (acc, rp2)"
    and inv2: "repo_inv env U R (\<lambda>_. 0) rp2" and v2: "ix_versions (rp_ix rp2) = ix_versions (rp_ix rp1)"
    and ob2: "ix_objects (rp_ix rp2) = ix_objects (rp_ix rp1)" and e2: "ix_edges (rp_ix rp2) = ix_edges (rp_ix rp1)"
    and h2: "cs_has env (rp_fs rp2) = cs_has env (rp_fs rp1)"
    and a2: "\<And>h g. bavail (rp_ix rp2) h g \<longleftrightarrow> bavail (rp_ix rp1) h g \<and> (h, g) \<notin> (\<lambda>(h, g, _). (h, g)) ` set ?bs"
    using collect_blocks_inv [OF env inv1 bs(1,2) named] by blast
  note r2 = rows_filesD [OF repo_invD(3) [OF inv2]]
  note same = views_same(10) [OF v2] views_same(3) [OF ob2] h2
  have o2: "oavail (rp_ix rp2) c \<longleftrightarrow> 0 < name_refs (rp_ix rp2) c" for c
    unfolding same using live [of c] r1(5,6) [of c] by blast
  have c2: "cs_has env (rp_fs rp2) c \<longleftrightarrow> 0 < name_refs (rp_ix rp2) c" for c
    unfolding same using named [of c] r1(6) [of c] by blast
  have d2: "block_data env (rp_fs rp2) h g \<noteq> None \<longleftrightarrow> 0 < edge_refs (rp_ix rp2) h g + R (h, g)" for h g
  proof
    assume "block_data env (rp_fs rp2) h g \<noteq> None"
    then have "bavail (rp_ix rp1) h g" "brc (rp_ix rp1) h g \<noteq> 0" using r2(2) [of h g] a2 [of h g] bs(3) [of h g] by auto
    with countedD(2) [OF repo_invD(1) [OF inv1], of h g] show "0 < edge_refs (rp_ix rp2) h g + R (h, g)"
      unfolding views_same(9) [OF e2] by linarith
  qed (rule referenced_available(3) [OF repo_invD(1,3) [OF inv2]])
  show thesis
    by (rule that [of acc rp2]) (use one two inv2 o2 c2 d2 b1 v2 in \<open>auto simp: collect_def bindings_def\<close>)
qed

end
