(* ===== verification/Store_Spec.thy ===== *)
theory Store_Spec
  imports Collector
begin

text \<open>
  What the named object store promises, and that the repository of \<^verbatim>\<open>repository.rs\<close> with the
  collector of \<^verbatim>\<open>collector.rs\<close> delivers it. The specification is a log of bindings with the contents
  themselves and the contents still stored; chunks, hashes, manifests, generations, reference counts and the
  collector's claims do not appear in it. Also here: what an operation that fails leaves behind, and
  that a collection reclaims everything unreferenced.
\<close>

section \<open>Specification\<close>

record spec_store =
  sp_log :: "(name \<times> bytes) list"
  sp_stored :: "bytes list"

definition sp_empty :: spec_store where
  "sp_empty = \<lparr>sp_log = [], sp_stored = []\<rparr>"

definition sp_history :: "spec_store \<Rightarrow> name \<Rightarrow> bytes list" where
  "sp_history s n = rev (map snd (filter (\<lambda>b. fst b = n) (sp_log s)))"

text \<open>Binding a name to the content it already has adds no version.\<close>

definition sp_bind :: "name \<Rightarrow> bytes \<Rightarrow> spec_store \<Rightarrow> spec_store" where
  "sp_bind n x s = (case sp_history s n of
     y # _ \<Rightarrow> if y = x then s else s\<lparr>sp_log := sp_log s @ [(n, x)]\<rparr>
   | [] \<Rightarrow> s\<lparr>sp_log := sp_log s @ [(n, x)]\<rparr>)"

datatype store_cmd =
    SPut int name bytes
  | SBind int name cid
  | SGet name
  | SGetRange name nat nat
  | SResolve name
  | SHistory name
  | SList name
  | SUnbind name
  | SCollect

datatype store_out =
    OCid "cid result"
  | OUnit "unit result"
  | OBytes "bytes result"
  | OResolved "cid option"
  | OHistory "cid list"
  | ONames "name list"
  | OCollected

fun spec_step :: "store_env \<Rightarrow> store_cmd \<Rightarrow> spec_store \<Rightarrow> store_out \<times> spec_store" where
  "spec_step env (SPut now n x) s = (OCid (Inr (se_hash env x)), sp_bind n x (s\<lparr>sp_stored := List.insert x (sp_stored s)\<rparr>))"
| "spec_step env (SBind now n c) s =
     (case find (\<lambda>x. se_hash env x = c) (sp_stored s) of
        None \<Rightarrow> (OUnit (Inl (NotFound c)), s)
      | Some x \<Rightarrow> (OUnit (Inr ()), sp_bind n x s))"
| "spec_step env (SGet n) s = (OBytes (case sp_history s n of [] \<Rightarrow> Inl (NameNotFound n) | x # _ \<Rightarrow> Inr x), s)"
| "spec_step env (SGetRange n off len) s =
     (OBytes (case sp_history s n of [] \<Rightarrow> Inl (NameNotFound n) | x # _ \<Rightarrow> Inr (take len (drop off x))), s)"
| "spec_step env (SResolve n) s =
     (OResolved (case sp_history s n of [] \<Rightarrow> None | x # _ \<Rightarrow> Some (se_hash env x)), s)"
| "spec_step env (SHistory n) s = (OHistory (map (se_hash env) (sp_history s n)), s)"
| "spec_step env (SList pre) s =
     (ONames (sorted_list_of_set (set (filter (\<lambda>n. pre = [] \<or> namespace_covers pre n) (map fst (sp_log s))))), s)"
| "spec_step env (SUnbind n) s = (OUnit (Inr ()), s\<lparr>sp_log := filter (\<lambda>b. fst b \<noteq> n) (sp_log s)\<rparr>)"
| "spec_step env SCollect s = (OCollected, s\<lparr>sp_stored := filter (\<lambda>x. x \<in> snd ` set (sp_log s)) (sp_stored s)\<rparr>)"

section \<open>The repository as a machine\<close>

fun repo_step :: "store_env \<Rightarrow> store_cmd \<Rightarrow> repo \<Rightarrow> store_out \<times> repo" where
  "repo_step env (SPut now n x) rp = map_prod OCid id (repo_put env no_faults now n x rp)"
| "repo_step env (SBind now n c) rp = map_prod OUnit id (repo_bind env no_faults now n c rp)"
| "repo_step env (SGet n) rp = (OBytes (repo_get env rp n), rp)"
| "repo_step env (SGetRange n off len) rp = (OBytes (repo_get_range env rp n off len), rp)"
| "repo_step env (SResolve n) rp = (OResolved (repo_resolve rp n), rp)"
| "repo_step env (SHistory n) rp = (OHistory (repo_history rp n), rp)"
| "repo_step env (SList pre) rp = (ONames (repo_list rp pre), rp)"
| "repo_step env (SUnbind n) rp = map_prod OUnit id (repo_unbind n rp)"
| "repo_step env SCollect rp = (OCollected, snd (collect env rp))"

section \<open>Namespace listing\<close>

text \<open>The half-open byte range \<open>[ns., ns/)\<close> holds exactly the names below \<open>ns\<close>: the slash is the
  byte after the dot.\<close>

lemma dot_slash:
  assumes "CHR ''.'' \<le> c" "c < CHR ''/''"
  shows "c = CHR ''.''"
proof -
  have "of_char c = (46 :: nat)" using assms unfolding less_eq_char_def less_char_def by simp
  then have "(of_char c :: nat) = of_char (CHR ''.'')" by simp
  then show ?thesis by (simp only: of_char_eq_iff)
qed

lemma list_range: "ns @ ''.'' \<le> n \<and> n < ns @ ''/'' \<longleftrightarrow> (\<exists>t. n = ns @ CHR ''.'' # t)"
proof (induction ns arbitrary: n)
  case Nil
  show ?case
  proof (cases n)
    case (Cons c t)
    then show ?thesis using dot_slash [of c] by (auto simp: less_eq_char_def less_char_def)
  qed simp
next
  case (Cons a ns)
  then show ?case by (cases n) auto
qed

lemma ix_list_covers:
  "ix_list ix pre = sorted_list_of_set (set (filter (\<lambda>n. pre = [] \<or> namespace_covers pre n) (map fst (bindings ix))))"
  by (simp add: ix_list_def Let_def list_range namespace_covers_iff bindings_def comp_def)

section \<open>Refinement\<close>

text \<open>
  The relation, under an environment and the contents that clients put: no hash collision among the
  contents and their chunks, sizes that fit 64 bits, the repository invariant with nothing reserved,
  and the same names and stored contents on both sides.
\<close>

fun store_rel :: "store_env \<times> bytes list \<Rightarrow> repo \<Rightarrow> spec_store \<Rightarrow> bool" where
  "store_rel (env, cs) rp s \<longleftrightarrow> env_ok env \<and> inj_on (se_hash env) (hashed env cs)
     \<and> (\<forall>x \<in> set cs. length x < 2 ^ 64)
     \<and> repo_inv env (hashed env cs) (\<lambda>_. 0) (\<lambda>_. 0) rp
     \<and> bindings (rp_ix rp) = map (\<lambda>(n, x). (n, se_hash env x)) (sp_log s) \<and> snd ` set (sp_log s) \<subseteq> set cs
     \<and> set (sp_stored s) \<subseteq> set cs \<and> (\<forall>c. cs_has env (rp_fs rp) c \<longleftrightarrow> c \<in> se_hash env ` set (sp_stored s))"

fun cmd_ok :: "store_env \<times> bytes list \<Rightarrow> store_cmd \<Rightarrow> bool" where
  "cmd_ok (env, cs) (SPut now n x) \<longleftrightarrow> x \<in> set cs"
| "cmd_ok (env, cs) _ \<longleftrightarrow> True"

lemma hashed_contents: "x \<in> set cs \<Longrightarrow> x \<in> hashed env cs \<and> chunk_bytes x ` set (cs_chunk env x) \<subseteq> hashed env cs"
  by (auto simp: hashed_def)

lemma hash_eq:
  assumes "inj_on (se_hash env) (hashed env cs)" "x \<in> set cs" "y \<in> set cs"
  shows "se_hash env x = se_hash env y \<longleftrightarrow> x = y"
  using assms hashed_contents [of x cs env] hashed_contents [of y cs env] by (auto dest: inj_onD)

lemma history_rel:
  assumes "names_ok ix" "bindings ix = map (\<lambda>(n, x). (n, se_hash env x)) (sp_log s)"
  shows "ix_history ix n = map (se_hash env) (sp_history s n)"
  using history_bindings [OF assms(1), of n] assms(2)
  by (simp add: sp_history_def filter_map comp_def case_prod_beta rev_map)

lemma history_contents: "snd ` set (sp_log s) \<subseteq> A \<Longrightarrow> set (sp_history s n) \<subseteq> A"
  by (auto simp: sp_history_def)

lemma bound_rel:
  assumes inj: "inj_on (se_hash env) (hashed env cs)" and log: "snd ` set (sp_log s) \<subseteq> set cs" and x: "x \<in> set cs"
    and b: "bs = map (\<lambda>(n, x). (n, se_hash env x)) (sp_log s)"
  shows "bound bs n (se_hash env x) = map (\<lambda>(n, x). (n, se_hash env x)) (sp_log (sp_bind n x s))"
    "snd ` set (sp_log (sp_bind n x s)) \<subseteq> set cs" "sp_stored (sp_bind n x s) = sp_stored s"
proof -
  let ?f = "filter (\<lambda>b. fst b = n)" and ?h = "\<lambda>(n, x). (n, se_hash env x)"
  have hist: "rev (map snd (?f bs)) = map (se_hash env) (sp_history s n)"
    by (simp add: b sp_history_def filter_map comp_def case_prod_beta rev_map)
  have alt: "bound bs n c = (case rev (map snd (?f bs)) of d # _ \<Rightarrow> if d = c then bs else bs @ [(n, c)] | [] \<Rightarrow> bs @ [(n, c)])" for c
    by (simp add: bound_def rev_map [symmetric] split: list.split)
  show "bound bs n (se_hash env x) = map ?h (sp_log (sp_bind n x s))"
  proof (cases "sp_history s n")
    case Nil
    then show ?thesis unfolding alt hist by (simp add: sp_bind_def b)
  next
    case (Cons y ys)
    then have "y \<in> set cs" using history_contents [OF log, of n] by auto
    with Cons show ?thesis using hash_eq [OF inj _ x, of y] unfolding alt hist by (simp add: sp_bind_def b)
  qed
  show "snd ` set (sp_log (sp_bind n x s)) \<subseteq> set cs" "sp_stored (sp_bind n x s) = sp_stored s"
    using log x by (auto simp: sp_bind_def split: list.splits)
qed

lemma store_relD:
  assumes "store_rel (env, cs) rp s"
  shows "env_ok env" "inj_on (se_hash env) (hashed env cs)" "\<And>x. x \<in> set cs \<Longrightarrow> length x < 2 ^ 64"
    "repo_inv env (hashed env cs) (\<lambda>_. 0) (\<lambda>_. 0) rp"
    "bindings (rp_ix rp) = map (\<lambda>(n, x). (n, se_hash env x)) (sp_log s)" "snd ` set (sp_log s) \<subseteq> set cs"
    "set (sp_stored s) \<subseteq> set cs" "\<And>c. cs_has env (rp_fs rp) c \<longleftrightarrow> c \<in> se_hash env ` set (sp_stored s)"
  using assms by simp_all

text \<open>Reads: a bound name's object is whole on disk.\<close>

lemma read_rel:
  assumes rel: "store_rel (env, cs) rp s"
  shows "ix_resolve (rp_ix rp) n = (case sp_history s n of [] \<Rightarrow> None | x # _ \<Rightarrow> Some (se_hash env x))"
    "sp_history s n = x # xs \<Longrightarrow> holds_object env (rp_fs rp) (se_hash env x) x \<and> length x < 2 ^ 64"
proof -
  note d = store_relD [OF rel]
  note h = history_rel [OF repo_invD(5) [OF d(4)] d(5)]
  show "ix_resolve (rp_ix rp) n = (case sp_history s n of [] \<Rightarrow> None | x # _ \<Rightarrow> Some (se_hash env x))"
    by (simp add: resolve_history h split: list.split)
  assume x: "sp_history s n = x # xs"
  then have "(n, x) \<in> set (sp_log s)" unfolding sp_history_def by (metis (mono_tags, lifting) fst_conv imageE
      list.set_intros(1) list.set_map mem_Collect_eq prod.collapse set_filter set_rev)
  then have b: "(n, se_hash env x) \<in> set (bindings (rp_ix rp))" "x \<in> set cs" using d(5,6) by force+
  from bound_holds [OF d(1,2,4) _ b(1)] hashed_contents [OF b(2)] d(3) [OF b(2)]
  show "holds_object env (rp_fs rp) (se_hash env x) x \<and> length x < 2 ^ 64" by blast
qed

lemma put_rel:
  assumes rel: "store_rel (env, cs) rp s" and x: "x \<in> set cs"
  shows "fst (repo_step env (SPut now n x) rp) = fst (spec_step env (SPut now n x) s)
    \<and> store_rel (env, cs) (snd (repo_step env (SPut now n x) rp)) (snd (spec_step env (SPut now n x) s))"
proof -
  note d = store_relD [OF rel] and U = hashed_contents [OF x, of env]
  show ?thesis
  proof (rule repo_put_cases [OF d(1,2) conjunct1 [OF U] conjunct2 [OF U] d(4), where flt = no_faults and now = now and n = n])
    fix rp' assume p: "repo_put env no_faults now n x rp = (Inr (se_hash env x), rp')"
      "repo_inv env (hashed env cs) (\<lambda>_. 0) (\<lambda>_. 0) rp'"
      "bindings (rp_ix rp') = bound (bindings (rp_ix rp)) n (se_hash env x)"
      "\<And>c. cs_has env (rp_fs rp') c \<longleftrightarrow> c = se_hash env x \<or> cs_has env (rp_fs rp) c"
    let ?s = "s\<lparr>sp_stored := List.insert x (sp_stored s)\<rparr>"
    have "snd ` set (sp_log ?s) \<subseteq> set cs" "bindings (rp_ix rp) = map (\<lambda>(n, x). (n, se_hash env x)) (sp_log ?s)"
      using d(5,6) by simp_all
    note b = bound_rel [OF d(2) this(1) x this(2), of n]
    have "store_rel (env, cs) rp' (sp_bind n x ?s)"
      unfolding store_rel.simps using d(1-3,7,8) p(2-4) b x by auto
    with p(1) show ?thesis by simp
  qed (auto simp: flt_raises_def)
qed

lemma bind_rel:
  assumes rel: "store_rel (env, cs) rp s"
  shows "fst (repo_step env (SBind now n c) rp) = fst (spec_step env (SBind now n c) s)
    \<and> store_rel (env, cs) (snd (repo_step env (SBind now n c) rp)) (snd (spec_step env (SBind now n c) s))"
proof -
  note d = store_relD [OF rel]
  have has: "cs_has env (rp_fs rp) c \<longleftrightarrow> find (\<lambda>x. se_hash env x = c) (sp_stored s) \<noteq> None"
    using d(8) [of c] by (auto simp: find_None_iff image_iff)
  show ?thesis
  proof (rule repo_bind_cases [OF d(1,2,4), where flt = no_faults and now = now and n = n and c = c])
    assume "repo_bind env no_faults now n c rp = (Inl (NotFound c), rp)" "\<not> cs_has env (rp_fs rp) c"
    with rel has show ?thesis by (simp del: store_rel.simps)
  next
    fix rp' assume p: "repo_bind env no_faults now n c rp = (Inr (), rp')" "cs_has env (rp_fs rp) c"
      "repo_inv env (hashed env cs) (\<lambda>_. 0) (\<lambda>_. 0) rp'" "bindings (rp_ix rp') = bound (bindings (rp_ix rp)) n c"
      "rp_fs rp' = rp_fs rp"
    from p(2) has obtain x where f: "find (\<lambda>x. se_hash env x = c) (sp_stored s) = Some x" by auto
    then have x: "x \<in> set cs" "se_hash env x = c" using find_Some_in [OF f] d(7) by auto
    note b = bound_rel [OF d(2,6) x(1) d(5), of n, unfolded x(2)]
    have "store_rel (env, cs) rp' (sp_bind n x s)"
      unfolding store_rel.simps using d(1-3,7,8) p(3-5) b by auto
    with p(1) f show ?thesis by simp
  qed (auto simp: flt_raises_def)
qed

lemma unbind_rel:
  assumes rel: "store_rel (env, cs) rp s"
  shows "fst (repo_step env (SUnbind n) rp) = fst (spec_step env (SUnbind n) s)
    \<and> store_rel (env, cs) (snd (repo_step env (SUnbind n) rp)) (snd (spec_step env (SUnbind n) s))"
proof -
  note d = store_relD [OF rel]
  show ?thesis
  proof (rule repo_unbind_inv [OF d(4), of n])
    fix rp' assume p: "repo_unbind n rp = (Inr (), rp')" "repo_inv env (hashed env cs) (\<lambda>_. 0) (\<lambda>_. 0) rp'"
      "rp_fs rp' = rp_fs rp" "bindings (rp_ix rp') = filter (\<lambda>b. fst b \<noteq> n) (bindings (rp_ix rp))"
    have "store_rel (env, cs) rp' (s\<lparr>sp_log := filter (\<lambda>b. fst b \<noteq> n) (sp_log s)\<rparr>)"
      unfolding store_rel.simps using d p(2-4) by (auto simp: filter_map comp_def case_prod_beta)
    with p(1) show ?thesis by simp
  qed
qed

lemma swept_rel:
  assumes rel: "store_rel (env, cs) rp s" and p: "repo_inv env (hashed env cs) (\<lambda>_. 0) (\<lambda>_. 0) rp'"
    "bindings (rp_ix rp') = bindings (rp_ix rp)" "\<And>c. cs_has env (rp_fs rp') c \<longleftrightarrow> 0 < name_refs (rp_ix rp') c"
  shows "store_rel (env, cs) rp' (snd (spec_step env SCollect s))"
proof -
  note d = store_relD [OF rel]
  let ?live = "filter (\<lambda>x. x \<in> snd ` set (sp_log s)) (sp_stored s)"
  have "cs_has env (rp_fs rp') c \<longleftrightarrow> c \<in> se_hash env ` snd ` set (sp_log s)" for c
    unfolding p(3) name_refs_pos p(2) d(5) by (force simp: image_iff)
  moreover have "se_hash env ` snd ` set (sp_log s) = se_hash env ` set ?live"
  proof (intro equalityI subsetI)
    fix c assume "c \<in> se_hash env ` snd ` set (sp_log s)"
    then obtain x where x: "x \<in> snd ` set (sp_log s)" "c = se_hash env x" by blast
    then have "0 < name_refs (rp_ix rp) c" unfolding name_refs_pos d(5) by force
    then have "c \<in> se_hash env ` set (sp_stored s)"
      using rows_filesD(6) [OF repo_invD(3) [OF d(4)]] d(8) by blast
    then obtain y where y: "y \<in> set (sp_stored s)" "c = se_hash env y" by blast
    with x d(6,7) hash_eq [OF d(2), of x y] have "x = y" by blast
    with x y show "c \<in> se_hash env ` set ?live" by auto
  qed auto
  ultimately have "store_rel (env, cs) rp' (s\<lparr>sp_stored := ?live\<rparr>)"
    unfolding store_rel.simps using d(1-3,5-7) p(1,2) by auto
  then show ?thesis by simp
qed

lemma collect_rel:
  assumes rel: "store_rel (env, cs) rp s"
  shows "store_rel (env, cs) (snd (repo_step env SCollect rp)) (snd (spec_step env SCollect s))"
proof -
  note d = store_relD [OF rel]
  obtain acc rp' where "collect env rp = (acc, rp')" and
    "store_rel (env, cs) rp' (snd (spec_step env SCollect s))"
    by (rule collect_inv [OF d(1,4)]) (rule that, assumption, rule swept_rel [OF rel])
  then show ?thesis by simp
qed

interpretation store: simulation "\<lambda>e. repo_step (fst e)" "\<lambda>e. spec_step (fst e)" store_rel cmd_ok
proof
  fix e :: "store_env \<times> bytes list" and rp s k
  assume rel0: "store_rel e rp s" and k: "cmd_ok e k"
  obtain env cs where e: "e = (env, cs)" by force
  have rel: "store_rel (env, cs) rp s" using rel0 by (simp add: e)
  note d = store_relD [OF rel] and r = read_rel [OF rel]
  note h = history_rel [OF repo_invD(5) [OF d(4)] d(5)]
  show "fst (repo_step (fst e) k rp) = fst (spec_step (fst e) k s)
      \<and> store_rel e (snd (repo_step (fst e) k rp)) (snd (spec_step (fst e) k s))"
  proof (cases k)
    case (SPut now n x)
    with k put_rel [OF rel] show ?thesis by (simp add: e del: store_rel.simps repo_step.simps spec_step.simps)
  next
    case (SBind now n c)
    with bind_rel [OF rel] show ?thesis by (simp add: e del: store_rel.simps repo_step.simps spec_step.simps)
  next
    case (SGet n)
    with rel0 r get_holds show ?thesis
      by (cases "sp_history s n") (auto simp: e repo_get_def repo_require_def simp del: store_rel.simps)
  next
    case (SGetRange n off len)
    with rel0 r get_range_holds show ?thesis
      by (cases "sp_history s n") (auto simp: e repo_get_range_def repo_require_def byte_slice_def simp del: store_rel.simps)
  next
    case (SResolve n)
    with rel0 r(1) show ?thesis by (simp add: e repo_resolve_def del: store_rel.simps)
  next
    case (SHistory n)
    with rel0 h show ?thesis by (simp add: e repo_history_def del: store_rel.simps)
  next
    case (SList pre)
    with rel0 d(5) show ?thesis
      by (simp add: e repo_list_def ix_list_covers comp_def case_prod_beta del: store_rel.simps)
  next
    case (SUnbind n)
    with unbind_rel [OF rel] show ?thesis by (simp add: e del: store_rel.simps repo_step.simps spec_step.simps)
  next
    case SCollect
    with collect_rel [OF rel] show ?thesis by (simp add: e del: store_rel.simps)
  qed
qed

section \<open>Properties\<close>

text \<open>The contents a run puts.\<close>

fun cmd_contents :: "store_cmd list \<Rightarrow> bytes list" where
  "cmd_contents [] = []"
| "cmd_contents (SPut now n x # ks) = x # cmd_contents ks"
| "cmd_contents (k # ks) = cmd_contents ks"

lemma cmd_contents_ok: "set (cmd_contents ks) \<subseteq> set cs \<Longrightarrow> list_all (cmd_ok (env, cs)) ks"
  by (induction ks rule: cmd_contents.induct) auto

lemma store_rel_empty:
  assumes "env_ok env" "inj_on (se_hash env) (hashed env cs)" "\<forall>x \<in> set cs. length x < 2 ^ 64"
  shows "store_rel (env, cs) repo_empty sp_empty"
  unfolding store_rel.simps using assms repo_inv_empty [of env "hashed env cs"]
  by (simp add: sp_empty_def repo_empty_def bindings_def ix_empty_def cs_has_def fs_empty_def)

abbreviation run_repo :: "store_env \<Rightarrow> store_cmd list \<Rightarrow> store_out list \<times> repo" where
  "run_repo env ks \<equiv> run_cmds_from (repo_step env) ks repo_empty"

abbreviation run_spec :: "store_env \<Rightarrow> store_cmd list \<Rightarrow> store_out list \<times> spec_store" where
  "run_spec env ks \<equiv> run_cmds_from (spec_step env) ks sp_empty"

lemma run_rel:
  assumes "env_ok env" "inj_on (se_hash env) (hashed env cs)" "\<forall>x \<in> set cs. length x < 2 ^ 64" "set (cmd_contents ks) \<subseteq> set cs"
  shows "fst (run_repo env ks) = fst (run_spec env ks)" "store_rel (env, cs) (snd (run_repo env ks)) (snd (run_spec env ks))"
  using store.run_simulates [of "(env, cs)", OF store_rel_empty [OF assms(1-3)] cmd_contents_ok [OF assms(4)]]
  by (simp_all del: store_rel.simps)

text \<open>
  C1. The named object store refines its specification. For every sequence of puts, aliases, unbinds,
  reads, listings and garbage collections on an empty repository, every call returns exactly what the
  abstract versioned store returns: puts and aliases succeed, a read gives the last content bound to
  the name whole or by range, histories and namespace listings agree, and a collection is invisible.
  It assumes no hash collision among the contents and chunks involved.
\<close>

theorem store_refines_spec:
  assumes "env_ok env" "inj_on (se_hash env) (hashed env (cmd_contents ks))" "\<forall>x \<in> set (cmd_contents ks). length x < 2 ^ 64"
  shows "fst (run_cmds_from (repo_step env) ks repo_empty) = fst (run_cmds_from (spec_step env) ks sp_empty)"
  by (rule run_rel(1) [OF assms order_refl])

lemma plain_inj: "inj_on (se_hash plain_env) A"
  by (simp add: plain_env_def inj_on_def)

theorem store_refines_spec_witness:
  "fst (run_cmds_from (repo_step plain_env)
     [SPut 0 ''a.x'' [1, 2, 3], SBind 1 ''b'' (Cid [1, 2, 3]), SUnbind ''a.x'', SCollect, SGet ''b'', SList ''a''] repo_empty)
   = [OCid (Inr (Cid [1, 2, 3])), OUnit (Inr ()), OUnit (Inr ()), OCollected, OBytes (Inr [1, 2, 3]), ONames []]"
proof -
  let ?ks = "[SPut 0 ''a.x'' [1, 2, 3], SBind 1 ''b'' (Cid [1, 2, 3]), SUnbind ''a.x'', SCollect, SGet ''b'', SList ''a'']"
  have h: "se_hash plain_env = Cid" by (simp add: plain_env_def)
  have "fst (run_cmds_from (repo_step plain_env) ?ks repo_empty) = fst (run_cmds_from (spec_step plain_env) ?ks sp_empty)"
    by (rule store_refines_spec [OF plain_env_ok plain_inj]) simp
  also have "\<dots> = [OCid (Inr (Cid [1, 2, 3])), OUnit (Inr ()), OUnit (Inr ()), OCollected, OBytes (Inr [1, 2, 3]), ONames []]"
    by (simp add: h sp_empty_def sp_bind_def sp_history_def namespace_covers_def del: set_filter)
  finally show ?thesis .
qed



lemma edge_refs_exact:
  assumes "edges_exact env U ix"
  shows "0 < edge_refs ix h g \<longleftrightarrow> g = 0 \<and> (\<exists>x \<in> U. 0 < name_refs ix (se_hash env x) \<and> h \<in> chunk_hashes env x)"
    (is "?L \<longleftrightarrow> ?R")
proof
  assume ?L
  then obtain e where "e \<in> set (ix_edges ix)" "ed_block e = h" "ed_generation e = g"
    by (auto simp: edge_refs_def filter_empty_conv)
  with assms show ?R unfolding edges_exact_def by auto
next
  assume ?R
  then obtain x where "x \<in> U" "0 < name_refs ix (se_hash env x)" "h \<in> chunk_hashes env x" "g = 0" by blast
  with assms have "\<lparr>ed_object = se_hash env x, ed_block = h, ed_generation = g\<rparr> \<in> set (ix_edges ix)"
    unfolding edges_exact_def by force
  then show ?L by (force simp: edge_refs_def filter_empty_conv)
qed

lemma name_refs_history: "names_ok ix \<Longrightarrow> 0 < name_refs ix c \<longleftrightarrow> (\<exists>n. c \<in> set (ix_history ix n))"
  unfolding name_refs_pos by (force simp: history_bindings image_iff)

text \<open>
  C24. A collection leaves exactly what is referenced. After any run that ends in a collection, the
  object files on disk are those of the contents some name has a version of, and the block files are
  those contents' chunks, each on generation 0: nothing named was lost and no garbage is left.
\<close>

theorem collect_exact:
  assumes "env_ok env" "inj_on (se_hash env) (hashed env (cmd_contents ks))" "\<forall>x \<in> set (cmd_contents ks). length x < 2 ^ 64"
    and "rp = snd (run_cmds_from (repo_step env) (ks @ [SCollect]) repo_empty)"
  shows "(cs_has env (rp_fs rp) c \<longleftrightarrow> (\<exists>n. c \<in> set (repo_history rp n)))
    \<and> (cs_has_block env (rp_fs rp) h g \<longleftrightarrow> g = 0 \<and> (\<exists>n. \<exists>x \<in> set (cmd_contents ks).
         se_hash env x \<in> set (repo_history rp n) \<and> h \<in> ck_hash ` set (cs_chunk env x)))"
proof -
  let ?cs = "cmd_contents ks" and ?rp = "snd (run_repo env ks)"
  note rel = run_rel(2) [OF assms(1-3) order_refl]
  note d = store_relD [OF rel]
  have rp: "rp = snd (collect env ?rp)" by (simp add: assms(4) run_cmds_snoc)
  obtain acc where c: "collect env ?rp = (acc, rp)" "repo_inv env (hashed env ?cs) (\<lambda>_. 0) (\<lambda>_. 0) rp"
    "bindings (rp_ix rp) = bindings (rp_ix ?rp)" "\<And>c. cs_has env (rp_fs rp) c \<longleftrightarrow> 0 < name_refs (rp_ix rp) c"
    "\<And>h g. block_data env (rp_fs rp) h g \<noteq> None \<longleftrightarrow> 0 < edge_refs (rp_ix rp) h g"
  proof (rule collect_inv [OF d(1,4)])
    fix acc rp' assume c: "collect env ?rp = (acc, rp')" "repo_inv env (hashed env ?cs) (\<lambda>_. 0) (\<lambda>_. 0) rp'"
      "bindings (rp_ix rp') = bindings (rp_ix ?rp)" "\<And>c. cs_has env (rp_fs rp') c \<longleftrightarrow> 0 < name_refs (rp_ix rp') c"
      "\<And>h g. block_data env (rp_fs rp') h g \<noteq> None \<longleftrightarrow> 0 < edge_refs (rp_ix rp') h g + 0"
    from c(1) rp have "rp' = rp" by simp
    with c(1-4) c(5) [unfolded add_0_right] show thesis by (intro that) simp_all
  qed
  note nm = repo_invD(5) [OF c(2)]
  have refs: "0 < name_refs (rp_ix rp) c \<longleftrightarrow> (\<exists>n. c \<in> set (repo_history rp n))" for c
    by (simp add: name_refs_history [OF nm] repo_history_def)
  have content: "x \<in> set ?cs" if "x \<in> hashed env ?cs" "0 < name_refs (rp_ix rp) (se_hash env x)" for x
  proof -
    from that(2) obtain m y where "(m, y) \<in> set (sp_log (snd (run_spec env ks)))" "se_hash env y = se_hash env x"
      unfolding name_refs_pos c(3) d(5) by auto
    then have "y \<in> snd ` set (sp_log (snd (run_spec env ks)))" "se_hash env y = se_hash env x" by force+
    with d(6) have y: "y \<in> set ?cs" "se_hash env y = se_hash env x" by blast+
    with inj_onD [OF assms(2), of y x] hashed_contents [OF y(1), of env] that(1) show ?thesis by simp
  qed
  have "(\<exists>x \<in> hashed env ?cs. 0 < name_refs (rp_ix rp) (se_hash env x) \<and> h \<in> chunk_hashes env x)
      \<longleftrightarrow> (\<exists>x \<in> set ?cs. 0 < name_refs (rp_ix rp) (se_hash env x) \<and> h \<in> chunk_hashes env x)"
    using content hashed_contents [of _ ?cs env] by (intro iffI) blast+
  then have "cs_has_block env (rp_fs rp) h g \<longleftrightarrow> g = 0 \<and> (\<exists>x \<in> set ?cs. 0 < name_refs (rp_ix rp) (se_hash env x) \<and> h \<in> chunk_hashes env x)"
    unfolding cs_has_block_data c(5) edge_refs_exact [OF repo_invD(4) [OF c(2)]] by blast
  then show ?thesis unfolding c(4) refs chunk_hashes_def by blast
qed

theorem collect_exact_witness:
  "cs_has plain_env (rp_fs (snd (run_cmds_from (repo_step plain_env)
      ([SPut 0 ''a'' [1, 2], SPut 1 ''b'' [3, 4], SUnbind ''b''] @ [SCollect]) repo_empty))) (Cid [1, 2])
   \<and> \<not> cs_has plain_env (rp_fs (snd (run_cmds_from (repo_step plain_env)
      ([SPut 0 ''a'' [1, 2], SPut 1 ''b'' [3, 4], SUnbind ''b''] @ [SCollect]) repo_empty))) (Cid [3, 4])"
proof -
  let ?ks = "[SPut 0 ''a'' [1, 2], SPut 1 ''b'' [3, 4], SUnbind ''b'']"
  let ?rp = "snd (run_repo plain_env (?ks @ [SCollect]))" and ?s = "snd (run_spec plain_env (?ks @ [SCollect]))"
  have hash: "se_hash plain_env = Cid" by (simp add: plain_env_def)
  have len: "\<forall>x \<in> set (cmd_contents ?ks). length x < 2 ^ 64" by simp
  have rel: "store_rel (plain_env, cmd_contents ?ks) ?rp ?s"
    by (rule run_rel(2) [OF plain_env_ok plain_inj len]) simp
  note d = store_relD [OF rel]
  have "sp_log ?s = [(''a'', [1, 2])]"
    by (simp add: sp_empty_def sp_bind_def sp_history_def)
  then have hist: "repo_history ?rp n = (if n = ''a'' then [Cid [1, 2]] else [])" for n
    using history_rel [OF repo_invD(5) [OF d(4)] d(5), of n] by (simp add: repo_history_def sp_history_def hash)
  have "cs_has plain_env (rp_fs ?rp) c \<longleftrightarrow> (\<exists>n. c \<in> set (repo_history ?rp n))" for c
    using collect_exact [OF plain_env_ok plain_inj len refl, of c] by blast
  then show ?thesis unfolding hist by simp
qed

end
