(* ===== verification/Gate.thy ===== *)
theory Gate
  imports Tokens Store_Spec
begin

text \<open>
  The authorisation gate in front of the named object store, \<^verbatim>\<open>services/fq-store/src/gate.rs\<close>,
  with the \<^verbatim>\<open>issued_grant\<close> query of \<^verbatim>\<open>grant_log.rs\<close> it uses. A gate is a repository, a grant log and
  the verifier's root key; the libraries and the two clocks are arguments. Every method returns its result
  and the gate it leaves. The lemmas say exactly when a call is let through, that a refused call changes
  nothing, and that calls made with the tokens of some agents never create authority those agents
  did not hold, never act for another agent and never withdraw another agent's grants.
\<close>

section \<open>State and checks\<close>

record 'p gate =
  gt_repo :: repo
  gt_grants :: grant_log
  gt_root :: 'p

text \<open>The libraries: tokens, the JSON of verb sets, and the content store's environment.\<close>

record ('k, 'p, 't, 'w) libs =
  lb_biscuit :: "('k, 'p, 't, 'w) biscuit"
  lb_codec :: verbs_codec
  lb_env :: store_env

definition issued_grant :: "verbs_codec \<Rightarrow> grant_log \<Rightarrow> grant_id \<Rightarrow> (grantor \<times> scope) option result" where
  "issued_grant c db i =
     (case find (\<lambda>r. pr_id r = i) (gl_projected db) of
        None \<Rightarrow> Inr None
      | Some r \<Rightarrow>
          bindR (decode_scope (pr_scope_kind r) (pr_scope_value r)) (\<lambda>sc.
            Inr (Some (case pr_grantor_agent r of Some agent \<Rightarrow> GAgent agent | None \<Rightarrow> Operator, sc))))"

definition identify ::
  "('k, 'p, 't, 'w) libs \<Rightarrow> system_time \<Rightarrow> 'p gate \<Rightarrow> 'w \<Rightarrow> verb \<Rightarrow> scope_ref \<Rightarrow> principal result" where
  "identify L at gt tok v r =
     bindR (verify (lb_biscuit L) (gt_root gt) tok) (\<lambda>vt.
       let p = vt_principal vt in
       if \<not> has_valid_id p then Inl Token
       else if \<not> permits (lb_biscuit L) vt v r at then Inl Denied
       else Inr p)"

definition authorize ::
  "('k, 'p, 't, 'w) libs \<Rightarrow> system_time \<Rightarrow> 'p gate \<Rightarrow> 'w \<Rightarrow> verb \<Rightarrow> name \<Rightarrow> principal result" where
  "authorize L at gt tok v r =
     bindR (identify L at gt tok v (RName r)) (\<lambda>p.
     bindR (log_can (lb_codec L) (gt_grants gt) p v r) (\<lambda>ok. if ok then Inr p else Inl Denied))"

section \<open>Named operations\<close>

definition gate_put ::
  "('k, 'p, 't, 'w) libs \<Rightarrow> faults \<Rightarrow> int \<Rightarrow> system_time \<Rightarrow> 'w \<Rightarrow> name \<Rightarrow> bytes \<Rightarrow> 'p gate \<Rightarrow> cid result \<times> 'p gate" where
  "gate_put L flt now at tok n content gt =
     (case authorize L at gt tok VWrite n of
        Inl e \<Rightarrow> (Inl e, gt)
      | Inr _ \<Rightarrow> (let (r, rp') = repo_put (lb_env L) flt now n content (gt_repo gt) in (r, gt\<lparr>gt_repo := rp'\<rparr>)))"

definition gate_bind ::
  "('k, 'p, 't, 'w) libs \<Rightarrow> faults \<Rightarrow> int \<Rightarrow> system_time \<Rightarrow> 'w \<Rightarrow> name \<Rightarrow> cid \<Rightarrow> 'p gate \<Rightarrow> unit result \<times> 'p gate" where
  "gate_bind L flt now at tok n c gt =
     (case authorize L at gt tok VWrite n of
        Inl e \<Rightarrow> (Inl e, gt)
      | Inr _ \<Rightarrow> (let (r, rp') = repo_bind (lb_env L) flt now n c (gt_repo gt) in (r, gt\<lparr>gt_repo := rp'\<rparr>)))"

definition gate_get ::
  "('k, 'p, 't, 'w) libs \<Rightarrow> system_time \<Rightarrow> 'w \<Rightarrow> name \<Rightarrow> 'p gate \<Rightarrow> bytes result" where
  "gate_get L at tok n gt = bindR (authorize L at gt tok VRead n) (\<lambda>_. repo_get (lb_env L) (gt_repo gt) n)"

definition gate_get_range ::
  "('k, 'p, 't, 'w) libs \<Rightarrow> system_time \<Rightarrow> 'w \<Rightarrow> name \<Rightarrow> nat \<Rightarrow> nat \<Rightarrow> 'p gate \<Rightarrow> bytes result" where
  "gate_get_range L at tok n off len gt =
     bindR (authorize L at gt tok VRead n) (\<lambda>_. repo_get_range (lb_env L) (gt_repo gt) n off len)"

definition gate_resolve ::
  "('k, 'p, 't, 'w) libs \<Rightarrow> system_time \<Rightarrow> 'w \<Rightarrow> name \<Rightarrow> 'p gate \<Rightarrow> cid option result" where
  "gate_resolve L at tok n gt = bindR (authorize L at gt tok VRead n) (\<lambda>_. Inr (repo_resolve (gt_repo gt) n))"

definition gate_history ::
  "('k, 'p, 't, 'w) libs \<Rightarrow> system_time \<Rightarrow> 'w \<Rightarrow> name \<Rightarrow> 'p gate \<Rightarrow> cid list result" where
  "gate_history L at tok n gt = bindR (authorize L at gt tok VRead n) (\<lambda>_. Inr (repo_history (gt_repo gt) n))"

definition gate_unbind ::
  "('k, 'p, 't, 'w) libs \<Rightarrow> system_time \<Rightarrow> 'w \<Rightarrow> name \<Rightarrow> 'p gate \<Rightarrow> unit result \<times> 'p gate" where
  "gate_unbind L at tok n gt =
     (case authorize L at gt tok VDelete n of
        Inl e \<Rightarrow> (Inl e, gt)
      | Inr _ \<Rightarrow> (let (r, rp') = repo_unbind n (gt_repo gt) in (r, gt\<lparr>gt_repo := rp'\<rparr>)))"

definition gate_list ::
  "('k, 'p, 't, 'w) libs \<Rightarrow> system_time \<Rightarrow> 'w \<Rightarrow> name \<Rightarrow> 'p gate \<Rightarrow> name list result" where
  "gate_list L at tok pre gt =
     (if pre = [] then Inl Denied
      else bindR (identify L at gt tok VList (RNamespace pre)) (\<lambda>p.
        bindR (if owns p pre then Inr True
               else bindR (live_grants_for (lb_codec L) (gt_grants gt) p) (\<lambda>gs.
                 Inr (list_ex (\<lambda>g. VList \<in> lg_verbs g \<and> covers_scope (lg_scope g) (Namespace pre)) gs)))
          (\<lambda>authorized. if authorized then Inr (repo_list (gt_repo gt) pre) else Inl Denied)))"

section \<open>Grant management\<close>

definition gate_grant ::
  "('k, 'p, 't, 'w) libs \<Rightarrow> int \<Rightarrow> system_time \<Rightarrow> 'w \<Rightarrow> principal \<Rightarrow> verb set \<Rightarrow> scope \<Rightarrow> 'p gate \<Rightarrow> grant_id result \<times> 'p gate" where
  "gate_grant L now at tok gtee vs sc gt =
     (let outcome =
        bindR (identify L at gt tok VGrant (ref_of_scope sc)) (\<lambda>p.
          if \<not> has_valid_id gtee then Inl Token
          else bindR (live_grants_for (lb_codec L) (gt_grants gt) p) (\<lambda>gs.
            if \<not> list_ex (\<lambda>g. supports (lg_verbs g) (lg_scope g) vs sc) gs then Inl Denied
            else append_granted (lb_codec L) now (GAgent (case p of PAgent i \<Rightarrow> i)) gtee vs sc (gt_grants gt)))
      in case outcome of Inl e \<Rightarrow> (Inl e, gt) | Inr (i, db) \<Rightarrow> (Inr i, gt\<lparr>gt_grants := db\<rparr>))"

definition gate_revoke ::
  "('k, 'p, 't, 'w) libs \<Rightarrow> int \<Rightarrow> system_time \<Rightarrow> 'w \<Rightarrow> grant_id \<Rightarrow> 'p gate \<Rightarrow> unit result \<times> 'p gate" where
  "gate_revoke L now at tok i gt =
     (let outcome =
        bindR (verify (lb_biscuit L) (gt_root gt) tok) (\<lambda>vt.
          let p = vt_principal vt in
          if \<not> has_valid_id p then Inl Token
          else bindR (issued_grant (lb_codec L) (gt_grants gt) i) (\<lambda>found.
            case found of
              None \<Rightarrow> Inl Denied
            | Some (gtor, sc) \<Rightarrow>
                if gtor \<noteq> GAgent (case p of PAgent a \<Rightarrow> a) then Inl Denied
                else if \<not> permits (lb_biscuit L) vt VGrant (ref_of_scope sc) at then Inl Denied
                else append_revoked (lb_codec L) now i (gt_grants gt)))
      in case outcome of Inl e \<Rightarrow> (Inl e, gt) | Inr db \<Rightarrow> (Inr (), gt\<lparr>gt_grants := db\<rparr>))"

definition operator_grant ::
  "('k, 'p, 't, 'w) libs \<Rightarrow> int \<Rightarrow> principal \<Rightarrow> verb set \<Rightarrow> scope \<Rightarrow> 'p gate \<Rightarrow> grant_id result \<times> 'p gate" where
  "operator_grant L now gtee vs sc gt =
     (if \<not> has_valid_id gtee then (Inl Token, gt)
      else case append_granted (lb_codec L) now Operator gtee vs sc (gt_grants gt) of
        Inl e \<Rightarrow> (Inl e, gt)
      | Inr (i, db) \<Rightarrow> (Inr i, gt\<lparr>gt_grants := db\<rparr>))"

definition operator_revoke ::
  "('k, 'p, 't, 'w) libs \<Rightarrow> int \<Rightarrow> grant_id \<Rightarrow> 'p gate \<Rightarrow> unit result \<times> 'p gate" where
  "operator_revoke L now i gt =
     (let outcome = bindR (issued_grant (lb_codec L) (gt_grants gt) i) (\<lambda>found.
        if found = None then Inl Denied else append_revoked (lb_codec L) now i (gt_grants gt))
      in case outcome of Inl e \<Rightarrow> (Inl e, gt) | Inr db \<Rightarrow> (Inr (), gt\<lparr>gt_grants := db\<rparr>))"

section \<open>When a call is let through\<close>

definition allowed ::
  "('k, 'p, 't, 'w) libs \<Rightarrow> system_time \<Rightarrow> 'p gate \<Rightarrow> grant_event list \<Rightarrow> 'w \<Rightarrow> verb \<Rightarrow> name \<Rightarrow> bool" where
  "allowed L at gt es tok v r =
     (case verify (lb_biscuit L) (gt_root gt) tok of
        Inl _ \<Rightarrow> False
      | Inr vt \<Rightarrow> has_valid_id (vt_principal vt) \<and> permits (lb_biscuit L) vt v (RName r) at
          \<and> gm_can (gm_replay es) (vt_principal vt) v r)"

lemma verify_error: "verify bi root tok = Inl e \<Longrightarrow> e = Token"
  by (cases "bi_from_base64 bi tok root") (auto simp: verify_def or_token_def split: list.splits if_splits)

lemma identify_cases:
  obtains (refused) e where "identify L at gt tok v r = Inl e" "e = Token \<or> e = Denied"
  | (known) vt where "verify (lb_biscuit L) (gt_root gt) tok = Inr vt" "identify L at gt tok v r = Inr (vt_principal vt)"
      "has_valid_id (vt_principal vt)" "permits (lb_biscuit L) vt v r at"
proof (cases "verify (lb_biscuit L) (gt_root gt) tok")
  case (Inl e)
  with verify_error [OF this] show thesis by (intro refused [of e]) (simp_all add: identify_def)
next
  case (Inr vt)
  show thesis
    by (cases "has_valid_id (vt_principal vt)"; cases "permits (lb_biscuit L) vt v r at")
       (use refused known Inr in \<open>auto simp: identify_def Let_def\<close>)
qed

lemma authorize_exact:
  assumes "codec_ok (lb_codec L)" "log_inv (lb_codec L) (gt_grants gt) es"
  obtains (refused) e where "authorize L at gt tok v r = Inl e" "e = Token \<or> e = Denied" "\<not> allowed L at gt es tok v r"
  | (passed) p where "authorize L at gt tok v r = Inr p" "allowed L at gt es tok v r"
proof -
  note can = log_can_exact [OF assms]
  show thesis
  proof (cases "verify (lb_biscuit L) (gt_root gt) tok")
    case (Inl e)
    with verify_error [OF this] show thesis
      by (intro refused [of e]) (simp_all add: authorize_def identify_def allowed_def)
  next
    case (Inr vt)
    show thesis
      by (cases "has_valid_id (vt_principal vt)"; cases "permits (lb_biscuit L) vt v (RName r) at";
          cases "gm_can (gm_replay es) (vt_principal vt) v r")
         (use refused passed Inr can in \<open>auto simp: authorize_def identify_def allowed_def Let_def\<close>)
  qed
qed

text \<open>The point operations as one call type, with and without the gate.\<close>

datatype store_call =
    CPut name bytes
  | CBind name cid
  | CGet name
  | CGetRange name nat nat
  | CResolve name
  | CHistory name
  | CUnbind name

datatype gate_out =
    RCid "cid result"
  | RUnit "unit result"
  | RBytes "bytes result"
  | RResolved "cid option result"
  | RHistory "cid list result"

fun call_verb :: "store_call \<Rightarrow> verb" where
  "call_verb (CPut _ _) = VWrite"
| "call_verb (CBind _ _) = VWrite"
| "call_verb (CUnbind _) = VDelete"
| "call_verb _ = VRead"

fun call_name :: "store_call \<Rightarrow> name" where
  "call_name (CPut n _) = n"
| "call_name (CBind n _) = n"
| "call_name (CGet n) = n"
| "call_name (CGetRange n _ _) = n"
| "call_name (CResolve n) = n"
| "call_name (CHistory n) = n"
| "call_name (CUnbind n) = n"

fun raw_call :: "store_env \<Rightarrow> faults \<Rightarrow> int \<Rightarrow> store_call \<Rightarrow> repo \<Rightarrow> gate_out \<times> repo" where
  "raw_call env flt now (CPut n x) rp = map_prod RCid id (repo_put env flt now n x rp)"
| "raw_call env flt now (CBind n c) rp = map_prod RUnit id (repo_bind env flt now n c rp)"
| "raw_call env flt now (CGet n) rp = (RBytes (repo_get env rp n), rp)"
| "raw_call env flt now (CGetRange n off len) rp = (RBytes (repo_get_range env rp n off len), rp)"
| "raw_call env flt now (CResolve n) rp = (RResolved (Inr (repo_resolve rp n)), rp)"
| "raw_call env flt now (CHistory n) rp = (RHistory (Inr (repo_history rp n)), rp)"
| "raw_call env flt now (CUnbind n) rp = map_prod RUnit id (repo_unbind n rp)"

fun gate_call ::
  "('k, 'p, 't, 'w) libs \<Rightarrow> faults \<Rightarrow> int \<Rightarrow> system_time \<Rightarrow> 'w \<Rightarrow> store_call \<Rightarrow> 'p gate \<Rightarrow> gate_out \<times> 'p gate" where
  "gate_call L flt now at tok (CPut n x) gt = map_prod RCid id (gate_put L flt now at tok n x gt)"
| "gate_call L flt now at tok (CBind n c) gt = map_prod RUnit id (gate_bind L flt now at tok n c gt)"
| "gate_call L flt now at tok (CGet n) gt = (RBytes (gate_get L at tok n gt), gt)"
| "gate_call L flt now at tok (CGetRange n off len) gt = (RBytes (gate_get_range L at tok n off len gt), gt)"
| "gate_call L flt now at tok (CResolve n) gt = (RResolved (gate_resolve L at tok n gt), gt)"
| "gate_call L flt now at tok (CHistory n) gt = (RHistory (gate_history L at tok n gt), gt)"
| "gate_call L flt now at tok (CUnbind n) gt = map_prod RUnit id (gate_unbind L at tok n gt)"

fun out_error :: "gate_out \<Rightarrow> store_error option" where
  "out_error (RCid r) = (case r of Inl e \<Rightarrow> Some e | Inr _ \<Rightarrow> None)"
| "out_error (RUnit r) = (case r of Inl e \<Rightarrow> Some e | Inr _ \<Rightarrow> None)"
| "out_error (RBytes r) = (case r of Inl e \<Rightarrow> Some e | Inr _ \<Rightarrow> None)"
| "out_error (RResolved r) = (case r of Inl e \<Rightarrow> Some e | Inr _ \<Rightarrow> None)"
| "out_error (RHistory r) = (case r of Inl e \<Rightarrow> Some e | Inr _ \<Rightarrow> None)"

lemmas gate_named = gate_put_def gate_bind_def gate_get_def gate_get_range_def gate_resolve_def gate_history_def gate_unbind_def

lemma gate_call_passed:
  assumes "authorize L at gt tok (call_verb k) (call_name k) = Inr p"
  shows "gate_call L flt now at tok k gt
    = (let (out, rp') = raw_call (lb_env L) flt now k (gt_repo gt) in (out, gt\<lparr>gt_repo := rp'\<rparr>))"
  using assms by (cases k) (simp_all add: gate_named case_prod_beta map_prod_def)

lemma gate_call_refused:
  assumes "authorize L at gt tok (call_verb k) (call_name k) = Inl e"
  shows "out_error (fst (gate_call L flt now at tok k gt)) = Some e" "snd (gate_call L flt now at tok k gt) = gt"
  using assms by (cases k; simp add: gate_named)+

section \<open>Grants through the gate\<close>

lemma grant_ids_below:
  assumes "log_inv c db es" "i \<in> fst ` set (gm_grants (gm_replay es))"
  shows "i < gl_next_seq db"
proof -
  from assms(1) have "fst ` set (gm_grants (gm_replay es)) \<subseteq> er_seq ` set (gl_events db)"
    using replay_ids [of c "gl_events db" es] by (simp add: log_inv_def events_inv_def)
  with assms show ?thesis by (auto simp: log_inv_def events_inv_def)
qed

lemma issued_grant_exact:
  assumes inv: "log_inv c db es"
  shows "issued_grant c db i = Inr (map_option (\<lambda>g. (gr_grantor g, gr_scope g)) (map_of (gm_grants (gm_replay es)) i))"
proof -
  let ?m = "gm_replay es"
  have "find (\<lambda>r. pr_id r = i) (map (\<lambda>(i, g). proj_row c i g (f i)) xs) = map_option (\<lambda>g. proj_row c i g (f i)) (map_of xs i)" for xs f
    by (induction xs) auto
  then have "find (\<lambda>r. pr_id r = i) (gl_projected db) = map_option (\<lambda>g. proj_row c i g (live_grant ?m i)) (map_of (gm_grants ?m) i)"
    using inv by (simp add: log_inv_def project_def)
  then show ?thesis
    by (cases "map_of (gm_grants ?m) i")
       (simp_all add: issued_grant_def proj_row_def decode_scope_def agent_of_def split: grantor.splits)
qed

text \<open>Some live grant to \<open>p\<close> holds the verb over the resource.\<close>

definition holds_grant :: "grant_model \<Rightarrow> principal \<Rightarrow> verb \<Rightarrow> name \<Rightarrow> bool" where
  "holds_grant m p v r \<longleftrightarrow> (\<exists>i g. live_grant m i \<and> map_of (gm_grants m) i = Some g \<and> gr_grantee g = p
     \<and> v \<in> gr_verbs g \<and> covers (gr_scope g) r)"

lemma gm_can_holds: "gm_wf m \<Longrightarrow> gm_can m p v r \<longleftrightarrow> owns p r \<or> holds_grant m p v r"
  by (simp add: gm_can_iff holds_grant_def)

lemma live_grant_appended:
  assumes none: "map_of (gm_grants m) i = None" and top: "\<And>j. j \<in> fst ` set (gm_grants m) \<Longrightarrow> j < i"
    and live: "live_grant (m\<lparr>gm_grants := gm_grants m @ [(i, g)]\<rparr>) k"
  shows "k = i \<or> live_grant m k"
  using live
proof (induction rule: live_grant.induct)
  case (live_root k h)
  then show ?case using none by (auto simp: map_add_def split: option.splits intro: live_grant.live_root)
next
  case (live_delegated k h a j sg)
  show ?case
  proof (cases "k = i")
    case False
    with live_delegated.hyps(1) have k: "map_of (gm_grants m) k = Some h" using none
      by (auto simp: map_add_def split: option.splits if_splits)
    then have "k < i" using top by (force dest: map_of_SomeD)
    with live_delegated have "j \<noteq> i" by simp
    with live_delegated none have "live_grant m j" "map_of (gm_grants m) j = Some sg"
      by (auto simp: map_add_def split: option.splits if_splits)
    with k live_delegated show ?thesis by (auto intro: live_grant.live_delegated)
  qed simp
qed

text \<open>Some agent of \<open>A\<close> holds a live grant that supports delegating \<open>vs\<close> on \<open>sc\<close>.\<close>

definition delegable :: "grant_model \<Rightarrow> principal set \<Rightarrow> verb set \<Rightarrow> scope \<Rightarrow> bool" where
  "delegable m A vs sc \<longleftrightarrow> (\<exists>i g. live_grant m i \<and> map_of (gm_grants m) i = Some g \<and> gr_grantee g \<in> A
     \<and> supports (gr_verbs g) (gr_scope g) vs sc)"

lemma supports_trans: "supports vs sc vs' sc' \<Longrightarrow> supports vs' sc' ws tc \<Longrightarrow> supports vs sc ws tc"
  using covers_scope_trans by (auto simp: supports_def)

lemma delegable_trans: "delegable m A vs sc \<Longrightarrow> supports vs sc ws tc \<Longrightarrow> delegable m A ws tc"
  unfolding delegable_def using supports_trans by blast

lemma revocation_holds: "holds_grant (gm_apply (Revoked i) m) p v r \<Longrightarrow> holds_grant m p v r"
  by (auto simp: holds_grant_def dest: live_grant_revoke)

lemma gate_grant_cases:
  assumes c: "codec_ok (lb_codec L)" and inv: "log_inv (lb_codec L) (gt_grants gt) es"
  obtains (refused) e where "gate_grant L now at tok gtee vs sc gt = (Inl e, gt)"
  | (issued) a j sg db vt where
      "gate_grant L now at tok gtee vs sc gt = (Inr (gl_next_seq (gt_grants gt)), gt\<lparr>gt_grants := db\<rparr>)"
      "log_inv (lb_codec L) db (es @ [Granted (gl_next_seq (gt_grants gt)) (GAgent a) gtee vs sc])"
      "live_grant (gm_replay es) j" "map_of (gm_grants (gm_replay es)) j = Some sg" "gr_grantee sg = PAgent a"
      "supports (gr_verbs sg) (gr_scope sg) vs sc" "verify (lb_biscuit L) (gt_root gt) tok = Inr vt" "vt_principal vt = PAgent a"
proof (rule identify_cases [of L at gt tok VGrant "ref_of_scope sc"])
  fix e assume "identify L at gt tok VGrant (ref_of_scope sc) = Inl e"
  then show thesis by (intro refused) (simp add: gate_grant_def)
next
  fix vt assume id: "identify L at gt tok VGrant (ref_of_scope sc) = Inr (vt_principal vt)"
    and vt: "verify (lb_biscuit L) (gt_root gt) tok = Inr vt"
  obtain a where a: "vt_principal vt = PAgent a" by (cases "vt_principal vt")
  let ?m = "gm_replay es" and ?db = "gt_grants gt"
  let ?gs = "map (\<lambda>(i, g). \<lparr>lg_id = i, lg_verbs = gr_verbs g, lg_scope = gr_scope g\<rparr>)
    (filter (\<lambda>(i, g). gr_grantee g = PAgent a \<and> live_grant ?m i) (gm_grants ?m))"
  note live = live_grants_project [OF c inv, of "PAgent a"]
  show thesis
  proof (cases "has_valid_id gtee \<and> list_ex (\<lambda>g. supports (lg_verbs g) (lg_scope g) vs sc) ?gs")
    case False
    with id live a show thesis
      by (cases "has_valid_id gtee") (simp_all add: gate_grant_def refused)
  next
    case True
    then obtain j sg where j: "(j, sg) \<in> set (gm_grants ?m)" "gr_grantee sg = PAgent a" "live_grant ?m j"
      "supports (gr_verbs sg) (gr_scope sg) vs sc" by (auto simp: list_ex_iff)
    have "map_of (gm_grants ?m) j = Some sg"
      using j(1) log_inv_sorted [OF inv] by (simp add: ids_sorted_def strict_sorted_iff)
    moreover from append_granted_inv [OF c inv, of now "GAgent a" gtee vs sc] obtain db where
      db: "append_granted (lb_codec L) now (GAgent a) gtee vs sc ?db = Inr (gl_next_seq ?db, db)"
      "log_inv (lb_codec L) db (es @ [Granted (gl_next_seq ?db) (GAgent a) gtee vs sc])" by blast
    moreover have "gate_grant L now at tok gtee vs sc gt = (Inr (gl_next_seq ?db), gt\<lparr>gt_grants := db\<rparr>)"
      using True id live a db(1) by (simp add: gate_grant_def)
    ultimately show thesis using j vt a issued by blast
  qed
qed

lemma gate_revoke_cases:
  assumes c: "codec_ok (lb_codec L)" and inv: "log_inv (lb_codec L) (gt_grants gt) es"
  obtains (refused) e where "gate_revoke L now at tok i gt = (Inl e, gt)"
  | (revoked) vt g db where "gate_revoke L now at tok i gt = (Inr (), gt\<lparr>gt_grants := db\<rparr>)"
      "log_inv (lb_codec L) db (es @ [Revoked i])" "verify (lb_biscuit L) (gt_root gt) tok = Inr vt"
      "map_of (gm_grants (gm_replay es)) i = Some g" "gr_grantor g = GAgent (id_of (vt_principal vt))"
proof (cases "verify (lb_biscuit L) (gt_root gt) tok")
  case (Inl e)
  then show thesis by (intro refused [of e]) (simp add: gate_revoke_def)
next
  case (Inr vt)
  note iss = issued_grant_exact [OF inv, of i] and run = gate_revoke_def [of L now at tok i gt]
  from append_revoked_inv [OF c inv, of now i] obtain db where
    db: "append_revoked (lb_codec L) now i (gt_grants gt) = Inr db" "log_inv (lb_codec L) db (es @ [Revoked i])" by blast
  show thesis
  proof (cases "has_valid_id (vt_principal vt)")
    case False
    with Inr run show thesis by (intro refused) simp
  next
    case True
    show thesis
    proof (cases "map_of (gm_grants (gm_replay es)) i")
      case None
      with Inr True iss run show thesis by (intro refused) simp
    next
      case (Some g)
      show thesis
      proof (cases "gr_grantor g = GAgent (id_of (vt_principal vt)) \<and> permits (lb_biscuit L) vt VGrant (ref_of_scope (gr_scope g)) at")
        case False
        with Inr True iss run Some show thesis
          by (intro refused [of Denied]) (auto simp: id_of_def)
      next
        case ok: True
        with Inr True iss run Some db(1) have "gate_revoke L now at tok i gt = (Inr (), gt\<lparr>gt_grants := db\<rparr>)"
          by (simp add: id_of_def)
        with ok Some Inr db(2) show thesis by (intro revoked) auto
      qed
    qed
  qed
qed

section \<open>Agents and the operator\<close>

text \<open>Everything that can be asked of the gate, with a token or as the operator.\<close>

datatype 'w gate_cmd =
    AStore 'w store_call
  | AList 'w name
  | AGrant 'w principal "verb set" scope
  | ARevoke 'w grant_id
  | OGrant principal "verb set" scope
  | ORevoke grant_id

text \<open>The token a command presents.\<close>

fun presented :: "'w gate_cmd \<Rightarrow> 'w option" where
  "presented (AStore tok _) = Some tok"
| "presented (AList tok _) = Some tok"
| "presented (AGrant tok _ _ _) = Some tok"
| "presented (ARevoke tok _) = Some tok"
| "presented _ = None"

text \<open>An agent's command whose token, where it verifies, names an agent of \<open>A\<close>.\<close>

definition acts_for :: "('k, 'p, 't, 'w) libs \<Rightarrow> 'p \<Rightarrow> principal set \<Rightarrow> 'w gate_cmd \<Rightarrow> bool" where
  "acts_for L root A k = (case presented k of
     None \<Rightarrow> False
   | Some tok \<Rightarrow> (case verify (lb_biscuit L) root tok of Inl _ \<Rightarrow> True | Inr vt \<Rightarrow> vt_principal vt \<in> A))"

fun gate_step :: "('k, 'p, 't, 'w) libs \<Rightarrow> faults \<times> int \<times> system_time \<times> 'w gate_cmd \<Rightarrow> 'p gate \<Rightarrow> 'p gate" where
  "gate_step L (flt, now, at, AStore tok k) gt = snd (gate_call L flt now at tok k gt)"
| "gate_step L (flt, now, at, AList tok pre) gt = gt"
| "gate_step L (flt, now, at, AGrant tok gtee vs sc) gt = snd (gate_grant L now at tok gtee vs sc gt)"
| "gate_step L (flt, now, at, ARevoke tok i) gt = snd (gate_revoke L now at tok i gt)"
| "gate_step L (flt, now, at, OGrant gtee vs sc) gt = snd (operator_grant L now gtee vs sc gt)"
| "gate_step L (flt, now, at, ORevoke i) gt = snd (operator_revoke L now i gt)"

definition gate_run :: "('k, 'p, 't, 'w) libs \<Rightarrow> (faults \<times> int \<times> system_time \<times> 'w gate_cmd) list \<Rightarrow> 'p gate \<Rightarrow> 'p gate" where
  "gate_run L ks gt = fold (gate_step L) ks gt"

lemma gate_call_grants: "gt_grants (snd (gate_call L flt now at tok k gt)) = gt_grants gt"
  by (cases "authorize L at gt tok (call_verb k) (call_name k)")
     (simp_all add: gate_call_refused gate_call_passed case_prod_beta Let_def)

lemma append_model:
  assumes "log_inv c db es"
  shows "map_of (gm_grants (gm_replay es)) (gl_next_seq db) = None" "\<And>j. j \<in> fst ` set (gm_grants (gm_replay es)) \<Longrightarrow> j < gl_next_seq db"
  using next_seq_fresh [OF assms] grant_ids_below [OF assms] by (simp_all add: map_of_eq_None_iff)

lemma gate_root_step: "gt_root (gate_step L x gt) = gt_root gt"
proof -
  obtain flt now at k where x: "x = (flt, now, at, k)" by (cases x)
  show ?thesis
  proof (cases k)
    case (AStore tok y)
    then show ?thesis
      by (cases "authorize L at gt tok (call_verb y) (call_name y)")
         (simp_all add: x gate_call_refused gate_call_passed case_prod_beta Let_def)
  qed (auto simp: x gate_grant_def gate_revoke_def operator_grant_def operator_revoke_def Let_def split: sum.splits)
qed

text \<open>
  What calls with tokens of \<open>A\<close> may add to a log with the events \<open>es\<close>: delegations by agents of \<open>A\<close> of
  what agents of \<open>A\<close> could delegate, and revocations of grants that agents of \<open>A\<close> issued.
\<close>

definition within_authority :: "principal set \<Rightarrow> grant_event list \<Rightarrow> grant_event list \<Rightarrow> bool" where
  "within_authority A es new \<longleftrightarrow>
     (\<forall>i gtor q vs sc. Granted i gtor q vs sc \<in> set new \<longrightarrow>
        (\<exists>a. PAgent a \<in> A \<and> gtor = GAgent a) \<and> delegable (gm_replay es) A vs sc)
     \<and> (\<forall>i. Revoked i \<in> set new \<longrightarrow> (\<exists>a q vs sc. PAgent a \<in> A \<and> Granted i (GAgent a) q vs sc \<in> set (es @ new)))"

definition live_within :: "principal set \<Rightarrow> grant_event list \<Rightarrow> grant_event list \<Rightarrow> bool" where
  "live_within A es new \<longleftrightarrow>
     (\<forall>k g. live_grant (gm_replay (es @ new)) k \<and> map_of (gm_grants (gm_replay (es @ new))) k = Some g \<longrightarrow>
        live_grant (gm_replay es) k \<and> map_of (gm_grants (gm_replay es)) k = Some g
        \<or> delegable (gm_replay es) A (gr_verbs g) (gr_scope g))"

lemma within_granted:
  assumes inv: "log_inv c db (es @ new)" and w: "within_authority A es new" and l: "live_within A es new"
    and sup: "live_grant (gm_replay (es @ new)) j" "map_of (gm_grants (gm_replay (es @ new))) j = Some sg"
      "gr_grantee sg = PAgent a" "supports (gr_verbs sg) (gr_scope sg) vs sc" and a: "PAgent a \<in> A"
  shows "within_authority A es (new @ [Granted (gl_next_seq db) (GAgent a) q vs sc])"
    "live_within A es (new @ [Granted (gl_next_seq db) (GAgent a) q vs sc])"
proof -
  let ?i = "gl_next_seq db" and ?m = "gm_replay (es @ new)"
  let ?g = "\<lparr>gr_grantor = GAgent a, gr_grantee = q, gr_verbs = vs, gr_scope = sc\<rparr>"
  note am = append_model [OF inv]
  from l sup(1,2) have "live_grant (gm_replay es) j \<and> map_of (gm_grants (gm_replay es)) j = Some sg
      \<or> delegable (gm_replay es) A (gr_verbs sg) (gr_scope sg)" by (simp add: live_within_def)
  then have del: "delegable (gm_replay es) A vs sc"
    using sup(3,4) a delegable_trans by (metis delegable_def)
  with w a show "within_authority A es (new @ [Granted ?i (GAgent a) q vs sc])"
    unfolding within_authority_def set_append by (auto, metis)
  have app: "gm_replay (es @ new @ [Granted ?i (GAgent a) q vs sc]) = ?m\<lparr>gm_grants := gm_grants ?m @ [(?i, ?g)]\<rparr>"
    using am(1) gm_replay_snoc [of "es @ new"] by simp
  show "live_within A es (new @ [Granted ?i (GAgent a) q vs sc])"
    unfolding live_within_def app
  proof (intro allI impI)
    fix k g
    assume k: "live_grant (?m\<lparr>gm_grants := gm_grants ?m @ [(?i, ?g)]\<rparr>) k
      \<and> map_of (gm_grants (?m\<lparr>gm_grants := gm_grants ?m @ [(?i, ?g)]\<rparr>)) k = Some g"
    show "live_grant (gm_replay es) k \<and> map_of (gm_grants (gm_replay es)) k = Some g
        \<or> delegable (gm_replay es) A (gr_verbs g) (gr_scope g)"
    proof (cases "k = ?i")
      case True
      with k am(1) have "g = ?g" by (simp add: map_add_def)
      with del show ?thesis by simp
    next
      case False
      with live_grant_appended [OF am conjunct1 [OF k]] have "live_grant ?m k" by simp
      moreover from False k have "map_of (gm_grants ?m) k = Some g"
        by (auto simp: map_add_def split: option.splits if_splits)
      ultimately show ?thesis using l by (simp add: live_within_def)
    qed
  qed
qed

lemma within_revoked:
  assumes w: "within_authority A es new" and l: "live_within A es new"
    and g: "map_of (gm_grants (gm_replay (es @ new))) i = Some g" "gr_grantor g = GAgent a" and a: "PAgent a \<in> A"
  shows "within_authority A es (new @ [Revoked i])" "live_within A es (new @ [Revoked i])"
proof -
  have "Granted i (GAgent a) (gr_grantee g) (gr_verbs g) (gr_scope g) \<in> set (es @ new)"
    using replay_grants [of "es @ new" gm_new i g] g by (simp add: gm_replay_def gm_new_def)
  with w a show "within_authority A es (new @ [Revoked i])" unfolding within_authority_def by fastforce
  have app: "gm_replay (es @ new @ [Revoked i]) = gm_apply (Revoked i) (gm_replay (es @ new))"
    using gm_replay_snoc [of "es @ new"] by simp
  from l show "live_within A es (new @ [Revoked i])"
    by (auto simp: live_within_def app dest!: live_grant_revoke)
qed

lemma agent_step_within:
  assumes c: "codec_ok (lb_codec L)" and inv: "log_inv (lb_codec L) (gt_grants gt) (es @ new)"
    and k: "acts_for L (gt_root gt) A k"
    and w: "within_authority A es new" and l: "live_within A es new"
  shows "\<exists>new'. log_inv (lb_codec L) (gt_grants (gate_step L (flt, now, at, k) gt)) (es @ new')
    \<and> within_authority A es new' \<and> live_within A es new'"
proof (cases k)
  case (AGrant tok gtee vs sc)
  show ?thesis
  proof (rule gate_grant_cases [OF c inv, of now at tok gtee vs sc])
    fix e assume "gate_grant L now at tok gtee vs sc gt = (Inl e, gt)"
    with AGrant inv w l show ?thesis by auto
  next
    fix a j sg db vt
    let ?e = "Granted (gl_next_seq (gt_grants gt)) (GAgent a) gtee vs sc"
    assume g: "gate_grant L now at tok gtee vs sc gt = (Inr (gl_next_seq (gt_grants gt)), gt\<lparr>gt_grants := db\<rparr>)"
      "log_inv (lb_codec L) db ((es @ new) @ [?e])"
      "live_grant (gm_replay (es @ new)) j" "map_of (gm_grants (gm_replay (es @ new))) j = Some sg" "gr_grantee sg = PAgent a"
      "supports (gr_verbs sg) (gr_scope sg) vs sc" "verify (lb_biscuit L) (gt_root gt) tok = Inr vt" "vt_principal vt = PAgent a"
    from k g(7,8) have "PAgent a \<in> A" by (simp add: AGrant acts_for_def)
    from within_granted [OF inv w l g(3-6) this, of gtee] g(1,2) show ?thesis
      by (intro exI [of _ "new @ [?e]"]) (simp add: AGrant)
  qed
next
  case (ARevoke tok i)
  show ?thesis
  proof (rule gate_revoke_cases [OF c inv, of now at tok i])
    fix e assume "gate_revoke L now at tok i gt = (Inl e, gt)"
    with ARevoke inv w l show ?thesis by auto
  next
    fix vt g db assume g: "gate_revoke L now at tok i gt = (Inr (), gt\<lparr>gt_grants := db\<rparr>)"
      "log_inv (lb_codec L) db ((es @ new) @ [Revoked i])" "verify (lb_biscuit L) (gt_root gt) tok = Inr vt"
      "map_of (gm_grants (gm_replay (es @ new))) i = Some g" "gr_grantor g = GAgent (id_of (vt_principal vt))"
    from k g(3) have "PAgent (id_of (vt_principal vt)) \<in> A"
      by (cases "vt_principal vt") (simp add: ARevoke acts_for_def id_of_def)
    from within_revoked [OF w l g(4,5) this] g(1,2) show ?thesis
      by (intro exI [of _ "new @ [Revoked i]"]) (simp add: ARevoke)
  qed
qed (use k inv w l in \<open>auto simp: gate_call_grants acts_for_def\<close>)

lemma agents_run_within:
  assumes c: "codec_ok (lb_codec L)" and inv: "log_inv (lb_codec L) (gt_grants gt) (es @ new)"
    and ks: "list_all (\<lambda>(_, _, _, k). acts_for L (gt_root gt) A k) ks"
    and w: "within_authority A es new" and l: "live_within A es new"
  shows "\<exists>new'. log_inv (lb_codec L) (gt_grants (gate_run L ks gt)) (es @ new') \<and> within_authority A es new' \<and> live_within A es new'"
  using inv ks w l
proof (induction ks arbitrary: gt new)
  case Nil
  then show ?case by (auto simp: gate_run_def)
next
  case (Cons x ks)
  obtain flt now at k where x: "x = (flt, now, at, k)" by (cases x)
  from Cons.prems(2) have k: "acts_for L (gt_root gt) A k"
    and rest: "list_all (\<lambda>(_, _, _, k). acts_for L (gt_root (gate_step L x gt)) A k) ks" by (simp_all add: x gate_root_step)
  from agent_step_within [OF c Cons.prems(1) k Cons.prems(3,4), of flt now at]
  have "\<exists>new'. log_inv (lb_codec L) (gt_grants (gate_step L x gt)) (es @ new') \<and> within_authority A es new' \<and> live_within A es new'"
    unfolding x .
  then obtain new1 where
    s1: "log_inv (lb_codec L) (gt_grants (gate_step L x gt)) (es @ new1)" "within_authority A es new1" "live_within A es new1" by blast
  have "\<exists>new'. log_inv (lb_codec L) (gt_grants (gate_run L ks (gate_step L x gt))) (es @ new') \<and> within_authority A es new' \<and> live_within A es new'"
    by (rule Cons.IH [OF s1(1) rest s1(2,3)])
  then show ?case by (simp add: gate_run_def)
qed

text \<open>A log written only through the gate never revokes an id that was not issued yet.\<close>

definition gate_inv :: "('k, 'p, 't, 'w) libs \<Rightarrow> 'p gate \<Rightarrow> grant_event list \<Rightarrow> bool" where
  "gate_inv L gt es \<longleftrightarrow> log_inv (lb_codec L) (gt_grants gt) es \<and> gm_revoked (gm_replay es) \<subseteq> fst ` set (gm_grants (gm_replay es))"

lemma gate_inv_granted:
  assumes "gate_inv L gt es" "log_inv (lb_codec L) db (es @ [Granted (gl_next_seq (gt_grants gt)) gtor gtee vs sc])"
  shows "gate_inv L (gt\<lparr>gt_grants := db\<rparr>) (es @ [Granted (gl_next_seq (gt_grants gt)) gtor gtee vs sc])"
  using assms append_model(1) [of "lb_codec L" "gt_grants gt" es] by (auto simp: gate_inv_def gm_replay_snoc)

lemma gate_inv_revoked:
  assumes "gate_inv L gt es" "log_inv (lb_codec L) db (es @ [Revoked i])" "map_of (gm_grants (gm_replay es)) i = Some g"
  shows "gate_inv L (gt\<lparr>gt_grants := db\<rparr>) (es @ [Revoked i])"
  using assms map_of_SomeD [OF assms(3)] by (force simp: gate_inv_def gm_replay_snoc)

lemma gate_step_inv:
  assumes c: "codec_ok (lb_codec L)" and inv: "gate_inv L gt es"
  shows "\<exists>es'. gate_inv L (gate_step L (flt, now, at, k) gt) es'"
proof -
  have log: "log_inv (lb_codec L) (gt_grants gt) es" using inv by (simp add: gate_inv_def)
  show ?thesis
  proof (cases k)
    case (AStore tok x)
    with inv show ?thesis by (auto simp: gate_inv_def gate_call_grants)
  next
    case (AGrant tok gtee vs sc)
    show ?thesis
      by (rule gate_grant_cases [OF c log, of now at tok gtee vs sc])
         (use inv in \<open>auto simp: AGrant intro: gate_inv_granted [OF inv]\<close>)
  next
    case (ARevoke tok i)
    show ?thesis
      by (rule gate_revoke_cases [OF c log, of now at tok i])
         (use inv in \<open>auto simp: ARevoke intro: gate_inv_revoked [OF inv]\<close>)
  next
    case (OGrant gtee vs sc)
    from append_granted_inv [OF c log, of now Operator gtee vs sc] obtain db where
      db: "append_granted (lb_codec L) now Operator gtee vs sc (gt_grants gt) = Inr (gl_next_seq (gt_grants gt), db)"
      "log_inv (lb_codec L) db (es @ [Granted (gl_next_seq (gt_grants gt)) Operator gtee vs sc])" by blast
    from gate_inv_granted [OF inv db(2)] db(1) inv show ?thesis
      by (cases "has_valid_id gtee") (auto simp: OGrant operator_grant_def)
  next
    case (ORevoke i)
    from append_revoked_inv [OF c log, of now i] obtain db where
      db: "append_revoked (lb_codec L) now i (gt_grants gt) = Inr db" "log_inv (lb_codec L) db (es @ [Revoked i])" by blast
    from gate_inv_revoked [OF inv db(2)] db(1) inv show ?thesis
      by (cases "map_of (gm_grants (gm_replay es)) i") (auto simp: ORevoke operator_revoke_def issued_grant_exact [OF log])
  qed (use inv in auto)
qed

lemma gate_run_inv:
  assumes "codec_ok (lb_codec L)" "gate_inv L gt es"
  shows "\<exists>es'. gate_inv L (gate_run L ks gt) es'"
  using assms(2)
proof (induction ks arbitrary: gt es)
  case (Cons x ks)
  obtain flt now at k where x: "x = (flt, now, at, k)" by (cases x)
  from gate_step_inv [OF assms(1) Cons.prems, of flt now at k] obtain es1 where "gate_inv L (gate_step L x gt) es1" by (auto simp: x)
  from Cons.IH [OF this] show ?case by (simp add: gate_run_def)
qed (auto simp: gate_run_def)

section \<open>Properties\<close>

lemma run_log_inv: "codec_ok c \<Longrightarrow> run_cmds c cmds gl_empty = Inr db \<Longrightarrow> log_inv c db (cmd_events 1 cmds)"
  using run_empty_inv [of c cmds] by auto

text \<open>
  C2. Complete mediation. Whatever the history of the grant log, a point operation through the gate
  behaves exactly like the ungated repository operation when the token verifies, names a well-formed
  agent id, permits the verb on that name now, and the replayed grants authorise that agent; in every
  other case it returns a token error or a denial and changes nothing.
\<close>

theorem gate_mediates:
  assumes "codec_ok (lb_codec L)" "run_cmds (lb_codec L) cmds gl_empty = Inr (gt_grants gt)"
  shows "if allowed L at gt (cmd_events 1 cmds) tok (call_verb k) (call_name k)
    then gate_call L flt now at tok k gt
      = (let (out, rp') = raw_call (lb_env L) flt now k (gt_repo gt) in (out, gt\<lparr>gt_repo := rp'\<rparr>))
    else out_error (fst (gate_call L flt now at tok k gt)) \<in> {Some Token, Some Denied}
      \<and> snd (gate_call L flt now at tok k gt) = gt"
proof (rule authorize_exact [OF assms(1) run_log_inv [OF assms], of at tok "call_verb k" "call_name k"])
  fix e assume "authorize L at gt tok (call_verb k) (call_name k) = Inl e" "e = Token \<or> e = Denied"
    "\<not> allowed L at gt (cmd_events 1 cmds) tok (call_verb k) (call_name k)"
  with gate_call_refused [of L at gt tok k e flt now] show ?thesis by auto
next
  fix p assume "authorize L at gt tok (call_verb k) (call_name k) = Inr p"
    "allowed L at gt (cmd_events 1 cmds) tok (call_verb k) (call_name k)"
  with gate_call_passed [of L at gt tok k p flt now] show ?thesis by simp
qed

text \<open>Libraries, a token and a log for the witnesses.\<close>

definition plain_libs :: "(nat, nat, nat \<times> block list, nat \<times> block list) libs" where
  "plain_libs = \<lparr>lb_biscuit = plain_biscuit, lb_codec = bits_codec, lb_env = plain_env\<rparr>"

definition plain_token :: "string \<Rightarrow> nat \<times> block list" where
  "plain_token a = (5, [\<lparr>bl_facts = [PrincipalFact a], bl_checks = []\<rparr>])"

definition plain_gate :: "grant_log \<Rightarrow> nat gate" where
  "plain_gate db = \<lparr>gt_repo = repo_empty, gt_grants = db, gt_root = 5\<rparr>"

lemma plain_libs_simps [simp]:
  "lb_biscuit plain_libs = plain_biscuit" "lb_codec plain_libs = bits_codec" "lb_env plain_libs = plain_env"
  "gt_root (plain_gate db) = 5" "gt_grants (plain_gate db) = db" "codec_ok (lb_codec plain_libs)"
  by (simp_all add: plain_libs_def plain_gate_def bits_codec_ok)

lemma plain_verify: "verify plain_biscuit 5 (plain_token a) = Inr \<lparr>vt_token = plain_token a, vt_principal = PAgent a\<rparr>"
  by (simp add: verify_def plain_biscuit_def plain_token_def or_token_def principals_of_def map_filter_def)

lemma plain_permits: "permits plain_biscuit \<lparr>vt_token = plain_token a, vt_principal = PAgent a\<rparr> v r at"
  by (simp add: permits_def evaluate_def plain_biscuit_def plain_token_def run_policies_def)

lemmas model_eval = gm_replay_def gm_new_def gm_can_def live_ids_def grant_ok_def supports_def owns_def
  namespace_covers_def starts_with_def

theorem gate_mediates_witness:
  "\<exists>db. run_cmds bits_codec [AppendGranted 0 Operator (PAgent ''a'') {VRead} (Name ''n'')] gl_empty = Inr db
    \<and> snd (gate_call plain_libs no_faults 0 0 (plain_token ''a'') (CPut ''n'' [1]) (plain_gate db)) = plain_gate db
    \<and> fst (gate_call plain_libs no_faults 0 0 (plain_token ''a'') (CGet ''n'') (plain_gate db)) = RBytes (Inl (NameNotFound ''n''))"
proof -
  let ?cmds = "[AppendGranted 0 Operator (PAgent ''a'') {VRead} (Name ''n'')]"
  obtain db where db: "run_cmds bits_codec ?cmds gl_empty = Inr db" using run_empty_inv [OF bits_codec_ok] by blast
  then have run: "run_cmds (lb_codec plain_libs) ?cmds gl_empty = Inr (gt_grants (plain_gate db))" by simp
  note med = gate_mediates [OF plain_libs_simps(6) run, where at = 0 and tok = "plain_token ''a''" and flt = no_faults and now = 0]
  have no: "\<not> allowed plain_libs 0 (plain_gate db) (cmd_events 1 ?cmds) (plain_token ''a'') VWrite ''n''"
    by (simp add: allowed_def plain_verify model_eval)
  have yes: "allowed plain_libs 0 (plain_gate db) (cmd_events 1 ?cmds) (plain_token ''a'') VRead ''n''"
    by (simp add: allowed_def plain_verify plain_permits model_eval has_ws_or_control_def)
  have "snd (gate_call plain_libs no_faults 0 0 (plain_token ''a'') (CPut ''n'' [1]) (plain_gate db)) = plain_gate db"
    using med [of "CPut ''n'' [1]"] no by simp
  moreover have "repo_get plain_env (gt_repo (plain_gate db)) ''n'' = Inl (NameNotFound ''n'')"
    by (simp add: plain_gate_def repo_get_def repo_require_def repo_empty_def ix_empty_def ix_resolve_def versions_desc_def)
  then have "fst (gate_call plain_libs no_faults 0 0 (plain_token ''a'') (CGet ''n'') (plain_gate db)) = RBytes (Inl (NameNotFound ''n''))"
    using med [of "CGet ''n''"] yes by simp
  ultimately show ?thesis using db by blast
qed

text \<open>The log's own answer to whether some agent of \<open>A\<close> could delegate \<open>vs\<close> on \<open>sc\<close>.\<close>

definition may_delegate :: "verbs_codec \<Rightarrow> grant_log \<Rightarrow> principal set \<Rightarrow> verb set \<Rightarrow> scope \<Rightarrow> bool" where
  "may_delegate c db A vs sc \<longleftrightarrow> (\<exists>a \<in> A. \<exists>gs. live_grants_for c db a = Inr gs
     \<and> list_ex (\<lambda>g. supports (lg_verbs g) (lg_scope g) vs sc) gs)"

lemma may_delegate_exact:
  assumes "codec_ok c" "log_inv c db es"
  shows "may_delegate c db A vs sc \<longleftrightarrow> delegable (gm_replay es) A vs sc"
proof -
  have "distinct (map fst (gm_grants (gm_replay es)))"
    using log_inv_sorted [OF assms(2)] by (simp add: ids_sorted_def strict_sorted_iff)
  then show ?thesis
    unfolding may_delegate_def live_grants_project [OF assms] delegable_def by (auto 0 3 simp: list_ex_iff)
qed

text \<open>
  C4. Agents cannot escalate. Start from any grant log and let callers make any calls through the gate,
  delegations and revocations included, at any times, with tokens that, where they verify, name agents of
  a set \<open>A\<close>. Every grant the log gains is recorded as issued by an agent of \<open>A\<close> and was, at the start,
  within what a live grant held by an agent of \<open>A\<close> allowed to delegate; every revocation it gains is of a
  grant that an agent of \<open>A\<close> issued. So whoever may do more than before may do only what the agents of
  \<open>A\<close> could already delegate: colluding agents share and withdraw their own authority, they neither
  create any nor act for an agent whose token they do not hold.
\<close>

theorem agents_cannot_escalate:
  assumes "codec_ok (lb_codec L)" "run_cmds (lb_codec L) cmds gl_empty = Inr (gt_grants gt)"
    and "list_all (\<lambda>(_, _, _, k). acts_for L (gt_root gt) A k) ks"
  shows "\<exists>new. log_replay (lb_codec L) (gt_grants (gate_run L ks gt)) = Inr (cmd_events 1 cmds @ new)
    \<and> (\<forall>i gtor q vs sc. Granted i gtor q vs sc \<in> set new \<longrightarrow>
         (\<exists>a. PAgent a \<in> A \<and> gtor = GAgent a) \<and> may_delegate (lb_codec L) (gt_grants gt) A vs sc)
    \<and> (\<forall>i. Revoked i \<in> set new \<longrightarrow>
         (\<exists>a q vs sc. PAgent a \<in> A \<and> Granted i (GAgent a) q vs sc \<in> set (cmd_events 1 cmds @ new)))
    \<and> (\<forall>p v r. log_can (lb_codec L) (gt_grants (gate_run L ks gt)) p v r = Inr True \<longrightarrow>
         log_can (lb_codec L) (gt_grants gt) p v r = Inr True
         \<or> (\<exists>vs sc. v \<in> vs \<and> covers sc r \<and> may_delegate (lb_codec L) (gt_grants gt) A vs sc))"
proof -
  let ?es = "cmd_events 1 cmds" and ?db' = "gt_grants (gate_run L ks gt)"
  note inv = run_log_inv [OF assms(1,2)]
  have "\<exists>new. log_inv (lb_codec L) ?db' (?es @ new) \<and> within_authority A ?es new \<and> live_within A ?es new"
    by (rule agents_run_within [where new = "[]", OF assms(1) _ assms(3)])
       (use inv in \<open>simp_all add: within_authority_def live_within_def\<close>)
  then obtain new where new: "log_inv (lb_codec L) ?db' (?es @ new)" "within_authority A ?es new" "live_within A ?es new" by blast
  have gained: "log_can (lb_codec L) (gt_grants gt) p v r = Inr True
      \<or> (\<exists>vs sc. v \<in> vs \<and> covers sc r \<and> may_delegate (lb_codec L) (gt_grants gt) A vs sc)"
    if "log_can (lb_codec L) ?db' p v r = Inr True" for p v r
  proof -
    from that log_can_exact [OF assms(1) new(1), of p v r] have "owns p r \<or> holds_grant (gm_replay (?es @ new)) p v r"
      by (simp add: gm_can_holds)
    then have "owns p r \<or> holds_grant (gm_replay ?es) p v r \<or> (\<exists>vs sc. v \<in> vs \<and> covers sc r \<and> delegable (gm_replay ?es) A vs sc)"
      using new(3) unfolding holds_grant_def live_within_def by metis
    then show ?thesis
      using log_can_exact [OF assms(1) inv, of p v r] by (auto simp: gm_can_holds may_delegate_exact [OF assms(1) inv])
  qed
  show ?thesis
    using new(2) gained log_inv_replay [OF assms(1) new(1)]
    by (intro exI [of _ new] conjI) (simp_all add: within_authority_def may_delegate_exact [OF assms(1) inv])
qed

theorem agents_cannot_escalate_witness:
  "\<exists>db. run_cmds bits_codec [AppendGranted 0 Operator (PAgent ''a'') {VRead, VGrant} (Namespace ''x'')] gl_empty = Inr db
    \<and> log_can bits_codec (gt_grants (gate_run plain_libs
         [(no_faults, 1, 1, AGrant (plain_token ''a'') (PAgent ''b'') {VRead} (Name ''x.n'')),
          (no_faults, 2, 2, AGrant (plain_token ''a'') (PAgent ''b'') {VDelete} (Name ''x.n''))] (plain_gate db)))
         (PAgent ''b'') VDelete ''x.n'' \<noteq> Inr True"
proof -
  let ?cmds = "[AppendGranted 0 Operator (PAgent ''a'') {VRead, VGrant} (Namespace ''x'')]"
  let ?ks = "[(no_faults, 1, 1, AGrant (plain_token ''a'') (PAgent ''b'') {VRead} (Name ''x.n'')),
          (no_faults, 2, 2, AGrant (plain_token ''a'') (PAgent ''b'') {VDelete} (Name ''x.n''))]"
  obtain db where db: "run_cmds bits_codec ?cmds gl_empty = Inr db" using run_empty_inv [OF bits_codec_ok] by blast
  then have run: "run_cmds (lb_codec plain_libs) ?cmds gl_empty = Inr (gt_grants (plain_gate db))" by simp
  note inv = run_log_inv [OF bits_codec_ok db]
  have acts: "list_all (\<lambda>(_, _, _, k). acts_for plain_libs (gt_root (plain_gate db)) {PAgent ''a''} k) ?ks"
    by (simp add: acts_for_def plain_verify)
  have "\<not> may_delegate bits_codec db {PAgent ''a''} vs sc" if "VDelete \<in> vs" for vs sc
    using that unfolding may_delegate_exact [OF bits_codec_ok inv] delegable_def
    by (auto simp: gm_replay_def gm_new_def supports_def split: if_splits)
  moreover have "\<not> gm_can (gm_replay (cmd_events 1 ?cmds)) (PAgent ''b'') VDelete ''x.n''" by (simp add: model_eval)
  then have "log_can bits_codec db (PAgent ''b'') VDelete ''x.n'' \<noteq> Inr True" using log_can_exact [OF bits_codec_ok inv] by simp
  moreover have "\<exists>new. log_replay bits_codec (gt_grants (gate_run plain_libs ?ks (plain_gate db))) = Inr (cmd_events 1 ?cmds @ new)
    \<and> (\<forall>i gtor q vs sc. Granted i gtor q vs sc \<in> set new \<longrightarrow>
         (\<exists>a. PAgent a \<in> {PAgent ''a''} \<and> gtor = GAgent a) \<and> may_delegate bits_codec db {PAgent ''a''} vs sc)
    \<and> (\<forall>i. Revoked i \<in> set new \<longrightarrow>
         (\<exists>a q vs sc. PAgent a \<in> {PAgent ''a''} \<and> Granted i (GAgent a) q vs sc \<in> set (cmd_events 1 ?cmds @ new)))
    \<and> (\<forall>p v r. log_can bits_codec (gt_grants (gate_run plain_libs ?ks (plain_gate db))) p v r = Inr True \<longrightarrow>
         log_can bits_codec db p v r = Inr True \<or> (\<exists>vs sc. v \<in> vs \<and> covers sc r \<and> may_delegate bits_codec db {PAgent ''a''} vs sc))"
    using agents_cannot_escalate [OF plain_libs_simps(6) run acts] by simp
  ultimately show ?thesis using db by blast
qed

lemma delegation_live:
  assumes inv: "gate_inv L gt es" and sup: "live_grant (gm_replay es) j" "map_of (gm_grants (gm_replay es)) j = Some sg"
    "gr_grantee sg = PAgent a" "supports (gr_verbs sg) (gr_scope sg) vs sc" and v: "v \<in> vs" "covers sc r"
  shows "holds_grant (gm_replay (es @ [Granted (gl_next_seq (gt_grants gt)) (GAgent a) q vs sc])) q v r"
proof -
  let ?i = "gl_next_seq (gt_grants gt)" and ?m = "gm_replay es"
  let ?g = "\<lparr>gr_grantor = GAgent a, gr_grantee = q, gr_verbs = vs, gr_scope = sc\<rparr>"
  let ?m' = "?m\<lparr>gm_grants := gm_grants ?m @ [(?i, ?g)]\<rparr>"
  have log: "log_inv (lb_codec L) (gt_grants gt) es" and rev: "gm_revoked ?m \<subseteq> fst ` set (gm_grants ?m)"
    using inv by (simp_all add: gate_inv_def)
  note am = append_model [OF log]
  have app: "gm_replay (es @ [Granted ?i (GAgent a) q vs sc]) = ?m'" using am(1) by (simp add: gm_replay_snoc)
  have mono: "live_grant ?m k \<Longrightarrow> live_grant ?m' k" for k
    by (induction rule: live_grant.induct) (auto simp: map_add_Some_iff intro: live_grant.intros)
  have "j < ?i" using am(2) map_of_SomeD [OF sup(2)] by force
  moreover have "?i \<notin> gm_revoked ?m" using rev am(2) by blast
  ultimately have "live_grant ?m' ?i"
    using mono [OF sup(1)] sup(2-4) am(1) by (intro live_grant.live_delegated [of ?m' ?i ?g a j sg]) (auto simp: map_add_Some_iff)
  moreover have "map_of (gm_grants ?m') ?i = Some ?g" using am(1) by (simp add: map_add_Some_iff)
  ultimately show ?thesis using v unfolding app holds_grant_def by (intro exI [of _ ?i] exI [of _ ?g]) simp
qed

text \<open>
  C25. Delegations are effective. When the grant log has been written only through the gate, by agents
  and the operator in any order, a delegation the gate accepts takes effect at once: the grantee may
  exercise every delegated verb on every name the delegated scope covers. The gate accepts no grant
  that would be inert.
\<close>

theorem delegation_effective:
  assumes "codec_ok (lb_codec L)" "gt_grants gt0 = gl_empty"
    and "gate_grant L now at tok gtee vs sc (gate_run L ks gt0) = (Inr i, gt')" "v \<in> vs" "covers sc r"
  shows "log_can (lb_codec L) (gt_grants gt') gtee v r = Inr True"
proof -
  let ?gt = "gate_run L ks gt0"
  have "gate_inv L gt0 []" using assms(2) log_inv_empty by (simp add: gate_inv_def gm_replay_def gm_new_def)
  from gate_run_inv [OF assms(1) this] obtain es where inv: "gate_inv L ?gt es" by blast
  then have log: "log_inv (lb_codec L) (gt_grants ?gt) es" by (simp add: gate_inv_def)
  show ?thesis
  proof (rule gate_grant_cases [OF assms(1) log, of now at tok gtee vs sc])
    fix e assume "gate_grant L now at tok gtee vs sc ?gt = (Inl e, ?gt)"
    with assms(3) show ?thesis by simp
  next
    fix a j sg db
    assume g: "gate_grant L now at tok gtee vs sc ?gt = (Inr (gl_next_seq (gt_grants ?gt)), ?gt\<lparr>gt_grants := db\<rparr>)"
      "log_inv (lb_codec L) db (es @ [Granted (gl_next_seq (gt_grants ?gt)) (GAgent a) gtee vs sc])"
      "live_grant (gm_replay es) j" "map_of (gm_grants (gm_replay es)) j = Some sg" "gr_grantee sg = PAgent a"
      "supports (gr_verbs sg) (gr_scope sg) vs sc"
    from g(1) assms(3) have "gt_grants gt' = db" by auto
    with log_can_exact [OF assms(1) g(2), of gtee v r] delegation_live [OF inv g(3-6) assms(4,5), of gtee]
    show ?thesis by (simp add: gm_can_holds)
  qed
qed

theorem delegation_effective_witness:
  "\<exists>i gt'. gate_grant plain_libs 1 1 (plain_token ''a'') (PAgent ''b'') {VRead} (Name ''x.n'')
       (gate_run plain_libs [(no_faults, 0, 0, OGrant (PAgent ''a'') {VRead, VGrant} (Namespace ''x''))] (plain_gate gl_empty)) = (Inr i, gt')
     \<and> log_can bits_codec (gt_grants gt') (PAgent ''b'') VRead ''x.n'' = Inr True"
proof -
  let ?ks = "[(no_faults, 0, 0, OGrant (PAgent ''a'') {VRead, VGrant} (Namespace ''x''))]"
  let ?gt = "gate_run plain_libs ?ks (plain_gate gl_empty)"
  from append_granted_inv [OF bits_codec_ok log_inv_empty, of 0 Operator "PAgent ''a''" "{VRead, VGrant}" "Namespace ''x''"]
  obtain db where db: "append_granted bits_codec 0 Operator (PAgent ''a'') {VRead, VGrant} (Namespace ''x'') gl_empty = Inr (1, db)"
    and inv: "log_inv bits_codec db [Granted 1 Operator (PAgent ''a'') {VRead, VGrant} (Namespace ''x'')]"
    by (auto simp: gl_empty_def)
  have gt: "gt_grants ?gt = db" "gt_root ?gt = 5"
    using db by (simp_all add: gate_run_def operator_grant_def has_ws_or_control_def plain_gate_def)
  have live: "live_grants_for bits_codec db (PAgent ''a'') = Inr [\<lparr>lg_id = 1, lg_verbs = {VRead, VGrant}, lg_scope = Namespace ''x''\<rparr>]"
  proof -
    have l: "live_grant (gm_replay es) i \<longleftrightarrow> i \<in> live_ids (gm_replay es)" for es i by (simp add: live_ids_eq)
    show ?thesis using live_grants_project [OF bits_codec_ok inv, of "PAgent ''a''"] unfolding l by (simp add: model_eval)
  qed
  have id: "identify plain_libs 1 ?gt (plain_token ''a'') VGrant (RName ''x.n'') = Inr (PAgent ''a'')"
    by (simp add: identify_def gt(2) plain_verify plain_permits has_ws_or_control_def)
  from append_granted_inv [OF bits_codec_ok inv, of 1 "GAgent ''a''" "PAgent ''b''" "{VRead}" "Name ''x.n''"]
  obtain db' where "append_granted bits_codec 1 (GAgent ''a'') (PAgent ''b'') {VRead} (Name ''x.n'') db = Inr (gl_next_seq db, db')" by blast
  then have g: "gate_grant plain_libs 1 1 (plain_token ''a'') (PAgent ''b'') {VRead} (Name ''x.n'') ?gt = (Inr (gl_next_seq db), ?gt\<lparr>gt_grants := db'\<rparr>)"
    by (simp add: gate_grant_def id gt(1) live supports_def namespace_covers_def starts_with_def has_ws_or_control_def)
  have "log_can (lb_codec plain_libs) (gt_grants (?gt\<lparr>gt_grants := db'\<rparr>)) (PAgent ''b'') VRead ''x.n'' = Inr True"
    by (rule delegation_effective [OF plain_libs_simps(6) _ g]) simp_all
  with g show ?thesis by auto
qed

text \<open>
  C10. Revocation is the issuer's. A revocation through the gate succeeds only if the verified agent
  issued that grant; then the grant is no longer live for anyone, and no decision that was denied
  becomes allowed.
\<close>

theorem revoke_only_by_issuer:
  assumes "codec_ok (lb_codec L)" "run_cmds (lb_codec L) cmds gl_empty = Inr (gt_grants gt)"
    and "gate_revoke L now at tok i gt = (Inr (), gt')"
  shows "(\<exists>vt sc. verify (lb_biscuit L) (gt_root gt) tok = Inr vt
      \<and> issued_grant (lb_codec L) (gt_grants gt) i = Inr (Some (GAgent (id_of (vt_principal vt)), sc)))
    \<and> (\<forall>gs. live_grants_for (lb_codec L) (gt_grants gt') q = Inr gs \<longrightarrow> i \<notin> lg_id ` set gs)
    \<and> (log_can (lb_codec L) (gt_grants gt') p v r = Inr True \<longrightarrow> log_can (lb_codec L) (gt_grants gt) p v r = Inr True)"
proof -
  note inv = run_log_inv [OF assms(1,2)]
  show ?thesis
  proof (rule gate_revoke_cases [OF assms(1) inv, of now at tok i])
    fix e assume "gate_revoke L now at tok i gt = (Inl e, gt)"
    with assms(3) show ?thesis by simp
  next
    fix vt g db
    assume g: "gate_revoke L now at tok i gt = (Inr (), gt\<lparr>gt_grants := db\<rparr>)"
      "log_inv (lb_codec L) db (cmd_events 1 cmds @ [Revoked i])" "verify (lb_biscuit L) (gt_root gt) tok = Inr vt"
      "map_of (gm_grants (gm_replay (cmd_events 1 cmds))) i = Some g" "gr_grantor g = GAgent (id_of (vt_principal vt))"
    let ?m = "gm_replay (cmd_events 1 cmds)"
    have db: "gt_grants gt' = db" using g(1) assms(3) by auto
    have dead: "\<not> live_grant (gm_replay (cmd_events 1 cmds @ [Revoked i])) i"
      using live_grant_known [of "gm_replay (cmd_events 1 cmds @ [Revoked i])" i] by (auto simp: gm_replay_snoc)
    have "gm_can (gm_replay (cmd_events 1 cmds @ [Revoked i])) p v r \<Longrightarrow> gm_can ?m p v r"
      unfolding gm_can_holds [OF gm_replay_wf] using revocation_holds [of i ?m p v r] by (auto simp: gm_replay_snoc)
    then have mono: "log_can (lb_codec L) db p v r = Inr True \<longrightarrow> log_can (lb_codec L) (gt_grants gt) p v r = Inr True"
      using log_can_exact [OF assms(1) g(2), of p v r] log_can_exact [OF assms(1) inv, of p v r] by simp
    have "issued_grant (lb_codec L) (gt_grants gt) i = Inr (Some (GAgent (id_of (vt_principal vt)), gr_scope g))"
      using issued_grant_exact [OF inv, of i] g(4,5) by simp
    moreover have "i \<notin> lg_id ` set gs" if "live_grants_for (lb_codec L) db q = Inr gs" for gs
      using that live_grants_project [OF assms(1) g(2), of q] dead by auto
    ultimately show ?thesis using g(3) mono db by blast
  qed
qed

theorem revoke_only_by_issuer_witness:
  "\<exists>db gt'. run_cmds bits_codec [AppendGranted 0 Operator (PAgent ''a'') {VRead, VGrant} (Name ''n''),
       AppendGranted 1 (GAgent ''a'') (PAgent ''b'') {VRead} (Name ''n'')] gl_empty = Inr db
    \<and> gate_revoke plain_libs 2 2 (plain_token ''a'') 2 (plain_gate db) = (Inr (), gt')
    \<and> log_can bits_codec (gt_grants gt') (PAgent ''b'') VWrite ''n'' \<noteq> Inr True"
proof -
  let ?cmds = "[AppendGranted 0 Operator (PAgent ''a'') {VRead, VGrant} (Name ''n''),
       AppendGranted 1 (GAgent ''a'') (PAgent ''b'') {VRead} (Name ''n'')]"
  obtain db where db: "run_cmds bits_codec ?cmds gl_empty = Inr db" and inv: "log_inv bits_codec db (cmd_events 1 ?cmds)"
    using run_empty_inv [OF bits_codec_ok] by blast
  have iss: "issued_grant bits_codec db 2 = Inr (Some (GAgent ''a'', Name ''n''))"
    using issued_grant_exact [OF inv, of 2] by (simp add: gm_replay_def gm_new_def numeral_2_eq_2)
  from append_revoked_inv [OF bits_codec_ok inv, of 2 2] obtain db' where "append_revoked bits_codec 2 2 db = Inr db'" by blast
  then have r: "gate_revoke plain_libs 2 2 (plain_token ''a'') 2 (plain_gate db) = (Inr (), (plain_gate db)\<lparr>gt_grants := db'\<rparr>)"
    by (simp add: gate_revoke_def plain_verify plain_permits iss has_ws_or_control_def)
  have "\<not> gm_can (gm_replay (cmd_events 1 ?cmds)) (PAgent ''b'') VWrite ''n''" by (simp add: model_eval)
  then have "log_can bits_codec db (PAgent ''b'') VWrite ''n'' \<noteq> Inr True" using log_can_exact [OF bits_codec_ok inv] by simp
  with revoke_only_by_issuer [OF plain_libs_simps(6) _ r, of ?cmds "PAgent ''b''" "PAgent ''b''" VWrite "''n''"] db
  have "log_can bits_codec (gt_grants ((plain_gate db)\<lparr>gt_grants := db'\<rparr>)) (PAgent ''b'') VWrite ''n'' \<noteq> Inr True" by simp
  with db r show ?thesis by blast
qed

end
