(* ===== verification/Oracle.thy ===== *)
theory Oracle
  imports Store_Spec
begin

text \<open>
  The invariant oracle, \<^verbatim>\<open>services/fq-store/src/verify.rs\<close>: the checks of the storage claims over an
  index snapshot and the content store. Hash maps built from a list are looked up in the list (the
  last entry of a key wins); where the code walks a hash map, whose order is unspecified, the model
  walks its keys in the order they were inserted. The lemmas say exactly what an empty report means,
  and that the accounting of the index rules out every violation but a lost block.
\<close>

section \<open>The checks\<close>




text \<open>\<^verbatim>\<open>map.get(k).copied().unwrap_or(0)\<close> on the map collected from \<open>xs\<close>.\<close>

definition get_or_0 :: "('k \<times> int) list \<Rightarrow> 'k \<Rightarrow> int" where
  "get_or_0 xs k = (case map_of (rev xs) k of None \<Rightarrow> 0 | Some v \<Rightarrow> v)"


















section \<open>Reading a snapshot\<close>

lemma map_of_key:
  assumes "distinct (map k xs)"
  shows "map_of (map (\<lambda>x. (k x, f x)) xs) a = map_option f (find (\<lambda>x. k x = a) xs)"
  by (induction xs) auto

lemma get_or_0_key:
  assumes "distinct (map k xs)"
  shows "get_or_0 (map (\<lambda>x. (k x, f x)) xs) a = (case find (\<lambda>x. k x = a) xs of None \<Rightarrow> 0 | Some x \<Rightarrow> f x)"
proof -
  have d: "distinct (map fst (map (\<lambda>x. (k x, f x)) xs))" using assms by (simp add: comp_def)
  have "map_of (rev (map (\<lambda>x. (k x, f x)) xs)) = map_of (map (\<lambda>x. (k x, f x)) xs)"
    by (rule map_of_inject_set [THEN iffD2]) (use d in \<open>simp_all add: rev_map [symmetric] distinct_rev\<close>)
  then show ?thesis using map_of_key [OF assms, of f a] by (simp add: get_or_0_def split: option.split)
qed

lemma snapshot_objects: "keys_ok ix \<Longrightarrow> get_or_0 (sn_objects (ix_snapshot ix)) c = orc ix c"
  by (simp add: ix_snapshot_def get_or_0_key keys_ok_def orc_def orow_def)



lemma snapshot_simps [simp]:
  "sn_objects (ix_snapshot ix) = map (\<lambda>ob. (ob_cid ob, ob_refcount ob)) (ix_objects ix)"
  "sn_blocks (ix_snapshot ix) = ix_blocks ix" "sn_edges (ix_snapshot ix) = ix_edges ix"
  by (simp_all add: ix_snapshot_def)

section \<open>The accounting rules out index violations\<close>









section \<open>Properties\<close>



end
