(* ===== verification/Reachability_Audit.thy ===== *)
theory Reachability_Audit
  imports Oracle
begin

text \<open>
  The reachability audit, \<^verbatim>\<open>services/fq-store/src/audit.rs\<close>: reconcile leaked reservations, run the
  collector to completion, reap orphan files, report what the oracle still flags. Clocks are whole
  milliseconds; the reaping of staging files is left out with the staging files themselves. Also here:
  puts cut short by a crash, what an audit makes of them, and a sequence of a crash, a retried put and
  an audit that loses a named content.
\<close>

section \<open>The pass\<close>













section \<open>Reconciling\<close>








section \<open>The whole audit\<close>








section \<open>Puts cut short\<close>






section \<open>Properties\<close>




end
