(* ===== verification/Conversation.thy ===== *)
theory Conversation
  imports Prelude
begin

text \<open>
  The conversation with a model, as the events crate defines it (\<^verbatim>\<open>fq-ops/src/events/llm.rs\<close> and
  \<^verbatim>\<open>payloads.rs\<close>): turns, assistant parts, tool calls and results, request parameters, and
  the task status an agent declares. A JSON value (\<^verbatim>\<open>serde_json::Value\<close>) is the type parameter \<open>'v\<close>.
\<close>

section \<open>Turns\<close>

type_synonym tool_call_id = string

datatype tool_call_id_error = Empty

definition tool_call_id_new :: "string \<Rightarrow> tool_call_id_error + tool_call_id" where
  "tool_call_id_new s = (if s = [] then Inl Empty else Inr s)"

record 'v message_tool_call =
  mc_id :: tool_call_id
  mc_name :: string
  mc_parameters :: 'v

datatype 'v reasoning_content = Plain string | Signed string 'v | Opaque 'v

record 'v reasoning =
  rs_model :: string
  rs_content :: "'v reasoning_content"

datatype 'v assistant_part = PText string | PReasoning "'v reasoning" | PToolCall "'v message_tool_call"

record tool_result =
  tr_id :: tool_call_id
  tr_output :: string
  tr_is_error :: bool

datatype 'v message =
    System string
  | User string
  | Assistant "'v assistant_part list"
  | ToolResults "tool_result list"

record 'v tool_schema =
  ts_name :: string
  ts_description :: string
  ts_parameters :: 'v

datatype effort = Minimal | Low | Medium | High | XHigh

text \<open>The temperature is a float that no modelled code sets; its type is left open.\<close>

record 'f request_params =
  rq_effort :: "effort option"
  rq_temperature :: "'f option"
  rq_max_tokens :: "nat option"

datatype stop_reason = ToolUse | EndTurn | MaxTokens | StopSequence

record token_usage =
  tu_input :: nat
  tu_output :: nat
  tu_cache_read :: nat
  tu_cache_write :: nat
  tu_cache_write_5m :: "nat option"
  tu_cache_write_1h :: "nat option"
  tu_reasoning :: "nat option"

definition spoken_tokens :: "token_usage \<Rightarrow> nat" where
  "spoken_tokens u = tu_output u - (case tu_reasoning u of None \<Rightarrow> 0 | Some r \<Rightarrow> r)"

datatype tool_error_kind = SandboxViolation | InvalidParameters | ExecutionFailed | Timeout | PermissionDenied

datatype task_status = TSuccess | TFailed | TBlocked | TPartial

definition task_status_parse :: "string \<Rightarrow> task_status option" where
  "task_status_parse s =
     (if s = ''success'' then Some TSuccess
      else if s = ''failed'' then Some TFailed
      else if s = ''blocked'' then Some TBlocked
      else if s = ''partial'' then Some TPartial
      else None)"

section \<open>Reading a turn\<close>

fun join_lines :: "string list \<Rightarrow> string" where
  "join_lines [] = []"
| "join_lines [t] = t"
| "join_lines (t # ts) = t @ CHR 0x0A # join_lines ts"

definition assistant_text :: "'v assistant_part list \<Rightarrow> string option" where
  "assistant_text parts =
     (let texts = List.map_filter (\<lambda>p. case p of PText t \<Rightarrow> Some t | _ \<Rightarrow> None) parts
      in if texts \<noteq> [] then Some (join_lines texts) else None)"

definition assistant_tool_calls :: "'v assistant_part list \<Rightarrow> 'v message_tool_call list" where
  "assistant_tool_calls parts = List.map_filter (\<lambda>p. case p of PToolCall c \<Rightarrow> Some c | _ \<Rightarrow> None) parts"

definition assistant_parts :: "string option \<Rightarrow> 'v message_tool_call list \<Rightarrow> 'v assistant_part list" where
  "assistant_parts text calls =
     (case text of Some t \<Rightarrow> if t \<noteq> [] then [PText t] else [] | None \<Rightarrow> []) @ map PToolCall calls"

fun message_text :: "'v message \<Rightarrow> string option" where
  "message_text (System t) = Some t"
| "message_text (User t) = Some t"
| "message_text (Assistant parts) = assistant_text parts"
| "message_text (ToolResults rs) = (if rs \<noteq> [] then Some (join_lines (map tr_output rs)) else None)"

lemma map_filter_simps [simp]:
  "List.map_filter f [] = []"
  "List.map_filter f (x # xs) = (case f x of None \<Rightarrow> List.map_filter f xs | Some y \<Rightarrow> y # List.map_filter f xs)"
  "List.map_filter f (xs @ ys) = List.map_filter f xs @ List.map_filter f ys"
  by (simp_all add: List.map_filter_def split: option.split)

text \<open>Building a turn from text and calls is inverted by the two readers; empty text reads back as none.\<close>

lemma assistant_parts_read:
  "assistant_tool_calls (assistant_parts text calls) = calls"
  "assistant_text (assistant_parts text calls) = (if text = Some [] then None else text)"
proof -
  have c: "List.map_filter (\<lambda>p. case p of PToolCall c \<Rightarrow> Some c | _ \<Rightarrow> None) (map PToolCall cs) = cs"
    and t: "List.map_filter (\<lambda>p. case p of PText t \<Rightarrow> Some t | _ \<Rightarrow> None) (map PToolCall cs) = []"
    for cs :: "'v message_tool_call list"
    by (induction cs) auto
  show "assistant_tool_calls (assistant_parts text calls) = calls"
    by (simp add: assistant_tool_calls_def assistant_parts_def c split: option.split)
  show "assistant_text (assistant_parts text calls) = (if text = Some [] then None else text)"
    by (simp add: assistant_text_def assistant_parts_def t split: option.split)
qed

end
