(* ===== verification/Harness.thy ===== *)
theory Harness
  imports Conversation "HOL-Library.Multiset"
begin

text \<open>
  The reducer that drives one invocation of an agent: \<^verbatim>\<open>fq-runtime/src/worker/reducer/harness.rs\<close> with
  the boundary types of \<^verbatim>\<open>types.rs\<close>. It is a pure function from a step input (configuration, the opaque state
  blob, the outcome of the last action) to the next action and the new blob. JSON values and the (de)serialisation
  of the blob are a parameter (\<open>serde_lib\<close>); the blob itself is a list of some type \<open>'b\<close>, of which
  the code only tests emptiness. The free text of errors is not modelled, an error is its kind.
\<close>

section \<open>Boundary types\<close>

record 'v agent_config =
  ac_agent_id :: string
  ac_model :: string
  ac_system_prompt :: string
  ac_tools_available :: "'v tool_schema list"
  ac_allowed_tool_names :: "string list"
  ac_max_iterations :: nat
  ac_max_tokens :: nat
  ac_effort :: "effort option"

datatype trigger_source = Manual | Subject | Schedule

record 'v trigger_payload =
  tp_source :: trigger_source
  tp_subject :: "string option"
  tp_payload :: 'v

record ('v, 'f) model_request =
  mq_model :: string
  mq_messages :: "'v message list"
  mq_tools :: "'v tool_schema list"
  mq_params :: "'f request_params"

record 'v model_response =
  mr_parts :: "'v assistant_part list"
  mr_stop_reason :: stop_reason
  mr_usage :: token_usage

record 'v tool_call_request =
  cr_id :: tool_call_id
  cr_name :: string
  cr_parameters :: 'v

record tool_call_result =
  tc_id :: tool_call_id
  tc_output :: string
  tc_is_error :: bool
  tc_error_kind :: "tool_error_kind option"
  tc_duration_ms :: nat

datatype harness_error_kind = MaxIterations | OutputTruncated | InternalError

datatype ('v, 'f) next_action =
    CallModel "('v, 'f) model_request"
  | CallTool "'v tool_call_request"
  | CallToolsParallel "'v tool_call_request list"
  | Complete string task_status
  | Failed harness_error_kind

datatype 'v capability_result =
    ModelResult "'v model_response"
  | ToolResult tool_call_result
  | ParallelToolResults "tool_call_result list"
  | Cancelled
  | HostError string

datatype log_level = Trace | Debug | Info | Warn | Error

record log_entry =
  le_level :: log_level
  le_message :: string

record 'v emitted_event =
  ee_kind :: string
  ee_payload :: 'v

record ('v, 'b) step_input =
  si_config :: "'v agent_config"
  si_trigger :: "'v trigger_payload"
  si_state :: "'b list"
  si_last_result :: "'v capability_result option"
  si_now_ms :: nat
  si_random_seed :: nat
  si_step_index :: nat
  si_static_resource_context :: "string option"
  si_host_notices :: "string list"

record ('v, 'f, 'b) step_output =
  so_next_action :: "('v, 'f) next_action"
  so_state :: "'b list"
  so_logs :: "log_entry list"
  so_events :: "'v emitted_event list"

definition mr_text :: "'v model_response \<Rightarrow> string option" where
  "mr_text r = assistant_text (mr_parts r)"

definition mr_tool_calls :: "'v model_response \<Rightarrow> 'v message_tool_call list" where
  "mr_tool_calls r = List.map_filter (\<lambda>p. case p of PToolCall c \<Rightarrow> Some c | _ \<Rightarrow> None) (mr_parts r)"

section \<open>State\<close>

definition DEFAULT_MAX_ITERATIONS :: nat where "DEFAULT_MAX_ITERATIONS = 100"
definition DEFAULT_MAX_TOKENS :: nat where "DEFAULT_MAX_TOKENS = 4096"
definition MAX_CONSECUTIVE_TRUNCATIONS :: nat where "MAX_CONSECUTIVE_TRUNCATIONS = 3"

datatype phase = Initial | AwaitingModel | DispatchingTools | Done

record 'v harness_state =
  hs_phase :: phase
  hs_messages :: "'v message list"
  hs_iteration :: nat
  hs_consecutive_truncations :: nat

definition hs_default :: "'v harness_state" where
  "hs_default = \<lparr>hs_phase = Initial, hs_messages = [], hs_iteration = 0, hs_consecutive_truncations = 0\<rparr>"

text \<open>What the code uses of \<^verbatim>\<open>serde_json\<close>: field access, string view, null test, the two printers, and
  the encoding of the state blob.\<close>

record ('v, 'b) serde_lib =
  sl_get :: "'v \<Rightarrow> string \<Rightarrow> 'v option"
  sl_as_str :: "'v \<Rightarrow> string option"
  sl_is_null :: "'v \<Rightarrow> bool"
  sl_to_string_pretty :: "'v \<Rightarrow> string option"
  sl_to_string :: "'v \<Rightarrow> string"
  sl_from_slice :: "'b list \<Rightarrow> 'v harness_state option"
  sl_to_vec :: "'v harness_state \<Rightarrow> 'b list option"

definition is_assistant :: "'v message \<Rightarrow> bool" where
  "is_assistant m = (case m of Assistant _ \<Rightarrow> True | _ \<Rightarrow> False)"

definition phase_violation :: "'v harness_state \<Rightarrow> bool" where
  "phase_violation st =
     (case hs_phase st of
        Initial \<Rightarrow> hs_messages st \<noteq> []
      | AwaitingModel \<Rightarrow> (if hs_messages st = [] then True else is_assistant (last (hs_messages st)))
      | DispatchingTools \<Rightarrow>
          (if hs_messages st = [] then True
           else case last (hs_messages st) of
             Assistant parts \<Rightarrow> list_all (\<lambda>p. case p of PToolCall _ \<Rightarrow> False | _ \<Rightarrow> True) parts
           | _ \<Rightarrow> True)
      | Done \<Rightarrow> hs_messages st = [])"

definition validate :: "'v harness_state \<Rightarrow> harness_error_kind + unit" where
  "validate st =
     (let violation = phase_violation st \<or> hs_iteration st < length (filter is_assistant (hs_messages st))
      in if violation then Inl InternalError else Inr ())"

definition load :: "('v, 'b) serde_lib \<Rightarrow> 'b list \<Rightarrow> harness_error_kind + 'v harness_state" where
  "load L bytes =
     (if bytes = [] then Inr hs_default
      else case sl_from_slice L bytes of
        None \<Rightarrow> Inl InternalError
      | Some st \<Rightarrow> bindR (validate st) (\<lambda>_. Inr st))"

definition save :: "('v, 'b) serde_lib \<Rightarrow> 'v harness_state \<Rightarrow> harness_error_kind + 'b list" where
  "save L st =
     bindR (validate st) (\<lambda>_. case sl_to_vec L st of None \<Rightarrow> Inl InternalError | Some b \<Rightarrow> Inr b)"

section \<open>Steps\<close>

definition REPORT_OUTCOME_CANONICAL_NAME :: string where
  "REPORT_OUTCOME_CANONICAL_NAME = ''builtin__report_outcome''"

definition REPORT_OUTCOME_TOOL_NAME :: string where
  "REPORT_OUTCOME_TOOL_NAME = ''report_outcome''"

definition is_report_outcome :: "string \<Rightarrow> bool" where
  "is_report_outcome n \<longleftrightarrow> n = REPORT_OUTCOME_CANONICAL_NAME \<or> n = REPORT_OUTCOME_TOOL_NAME"

definition log_info :: "string \<Rightarrow> log_entry" where
  "log_info m = \<lparr>le_level = Info, le_message = m\<rparr>"

definition append_host_notices :: "string list \<Rightarrow> 'v harness_state \<Rightarrow> 'v harness_state" where
  "append_host_notices notices st = st\<lparr>hs_messages := hs_messages st @ map User notices\<rparr>"

definition payload_to_user_message :: "('v, 'b) serde_lib \<Rightarrow> 'v trigger_payload \<Rightarrow> string" where
  "payload_to_user_message L t =
     (if sl_is_null L (tp_payload t) then ''(no input)''
      else case sl_as_str L (tp_payload t) of
        Some s \<Rightarrow> s
      | None \<Rightarrow> (case sl_to_string_pretty L (tp_payload t) of Some s \<Rightarrow> s | None \<Rightarrow> sl_to_string L (tp_payload t)))"

definition build_model_request :: "'v agent_config \<Rightarrow> 'v message list \<Rightarrow> ('v, 'f) model_request" where
  "build_model_request cfg ms =
     \<lparr>mq_model = ac_model cfg, mq_messages = ms, mq_tools = ac_tools_available cfg,
      mq_params = \<lparr>rq_effort = ac_effort cfg, rq_temperature = None, rq_max_tokens = Some (ac_max_tokens cfg)\<rparr>\<rparr>"

definition step_out :: "('v, 'b) serde_lib \<Rightarrow> 'v harness_state \<Rightarrow> ('v, 'f) next_action \<Rightarrow> log_entry list
    \<Rightarrow> harness_error_kind + ('v, 'f, 'b) step_output" where
  "step_out L st act logs =
     bindR (save L st) (\<lambda>b. Inr \<lparr>so_next_action = act, so_state = b, so_logs = logs, so_events = []\<rparr>)"

definition terminal :: "('v, 'b) serde_lib \<Rightarrow> 'v harness_state \<Rightarrow> ('v, 'f) next_action
    \<Rightarrow> harness_error_kind + ('v, 'f, 'b) step_output" where
  "terminal L st act = step_out L (st\<lparr>hs_phase := Done\<rparr>) act []"

definition initial_step :: "('v, 'b) serde_lib \<Rightarrow> ('v, 'b) step_input \<Rightarrow> 'v harness_state
    \<Rightarrow> harness_error_kind + ('v, 'f, 'b) step_output" where
  "initial_step L inp st =
     (let st1 = st\<lparr>hs_messages := hs_messages st @ [System (ac_system_prompt (si_config inp))]\<rparr>;
          st2 = (case si_static_resource_context inp of
                   None \<Rightarrow> st1 | Some c \<Rightarrow> st1\<lparr>hs_messages := hs_messages st1 @ [User c]\<rparr>);
          st3 = st2\<lparr>hs_messages := hs_messages st2 @ [User (payload_to_user_message L (si_trigger inp))]\<rparr>;
          st4 = append_host_notices (si_host_notices inp) st3
      in step_out L (st4\<lparr>hs_phase := AwaitingModel\<rparr>)
           (CallModel (build_model_request (si_config inp) (hs_messages st4)))
           [log_info ''initial step: requesting first model turn''])"

text \<open>The declaration: the first \<^verbatim>\<open>report_outcome\<close> call of the turn whose arguments parse.\<close>

definition call_declares :: "('v, 'b) serde_lib \<Rightarrow> 'v message_tool_call \<Rightarrow> (task_status \<times> string) option" where
  "call_declares L call =
     (if \<not> is_report_outcome (mc_name call) then None
      else case Option.bind (sl_get L (mc_parameters call) ''status'') (sl_as_str L) of
        None \<Rightarrow> None
      | Some s \<Rightarrow>
          (case task_status_parse s of
             None \<Rightarrow> None
           | Some status \<Rightarrow>
               Some (status, case Option.bind (sl_get L (mc_parameters call) ''summary'') (sl_as_str L) of
                               None \<Rightarrow> [] | Some t \<Rightarrow> t)))"

primrec declared :: "('v, 'b) serde_lib \<Rightarrow> 'v message_tool_call list \<Rightarrow> (task_status \<times> string) option" where
  "declared L [] = None"
| "declared L (c # cs) = (case call_declares L c of None \<Rightarrow> declared L cs | Some d \<Rightarrow> Some d)"

definition truncation_notice :: "nat \<Rightarrow> string" where
  "truncation_notice n = ''Your last turn was cut off at max_tokens ('' @ show_nat n
     @ ''). Continue from where you stopped; split large tool arguments across calls.''"

definition no_calls_notice :: string where
  "no_calls_notice = ''No tool calls were made and the run is not over '' @ [CHR 0xE2, CHR 0x80, CHR 0x94]
     @ '' continue working, or end it by calling `report_outcome` with success, failed, blocked, or partial.''"

definition request_of_call :: "'v message_tool_call \<Rightarrow> 'v tool_call_request" where
  "request_of_call c = \<lparr>cr_id = mc_id c, cr_name = mc_name c, cr_parameters = mc_parameters c\<rparr>"

text \<open>The end of a model turn: the iteration cap, another turn, or the dispatch of the calls.\<close>

definition after_turn :: "('v, 'b) serde_lib \<Rightarrow> 'v agent_config \<Rightarrow> 'v model_response \<Rightarrow> 'v harness_state
    \<Rightarrow> harness_error_kind + ('v, 'f, 'b) step_output" where
  "after_turn L cfg response st =
     (if hs_iteration st \<ge> ac_max_iterations cfg then terminal L st (Failed MaxIterations)
      else if mr_tool_calls response = [] then
        step_out L (st\<lparr>hs_phase := AwaitingModel\<rparr>) (CallModel (build_model_request cfg (hs_messages st)))
          [log_info ''model made no tool calls; requesting another turn'']
      else
        let pending = map request_of_call (mr_tool_calls response);
            action = (case pending of [c] \<Rightarrow> CallTool c | _ \<Rightarrow> CallToolsParallel pending)
        in step_out L (st\<lparr>hs_phase := DispatchingTools\<rparr>) action
             [log_info ''model produced tool calls; dispatching''])"

definition model_turn :: "('v, 'b) serde_lib \<Rightarrow> ('v, 'b) step_input \<Rightarrow> 'v model_response \<Rightarrow> 'v harness_state
    \<Rightarrow> harness_error_kind + ('v, 'f, 'b) step_output" where
  "model_turn L inp response st =
     (let st1 = append_host_notices (si_host_notices inp) (st\<lparr>hs_iteration := sat_add 32 (hs_iteration st) 1\<rparr>) in
      case declared L (mr_tool_calls response) of
        Some (task_status, summary) \<Rightarrow> terminal L st1 (Complete summary task_status)
      | None \<Rightarrow>
          (let st2 = st1\<lparr>hs_messages := hs_messages st1 @ [Assistant (mr_parts response)]\<rparr> in
           if mr_stop_reason response = MaxTokens then
             let st3 = st2\<lparr>hs_consecutive_truncations := sat_add 32 (hs_consecutive_truncations st2) 1\<rparr> in
             if hs_consecutive_truncations st3 \<ge> MAX_CONSECUTIVE_TRUNCATIONS
             then terminal L st3 (Failed OutputTruncated)
             else after_turn L (si_config inp) response
                    (append_host_notices [truncation_notice (ac_max_tokens (si_config inp))] st3)
           else
             let st3 = st2\<lparr>hs_consecutive_truncations := 0\<rparr> in
             after_turn L (si_config inp) response
               (if mr_tool_calls response = [] then append_host_notices [no_calls_notice] st3 else st3)))"

definition model_response_step :: "('v, 'b) serde_lib \<Rightarrow> ('v, 'b) step_input \<Rightarrow> 'v harness_state
    \<Rightarrow> harness_error_kind + ('v, 'f, 'b) step_output" where
  "model_response_step L inp st =
     (case si_last_result inp of
        Some (ModelResult r) \<Rightarrow> model_turn L inp r st
      | Some Cancelled \<Rightarrow> terminal L st (Failed InternalError)
      | Some (HostError m) \<Rightarrow> terminal L st (Failed InternalError)
      | _ \<Rightarrow> Inl InternalError)"

definition index_of :: "'a \<Rightarrow> 'a list \<Rightarrow> nat option" where
  "index_of x xs = (let n = length (takeWhile (\<lambda>y. y \<noteq> x) xs) in if n < length xs then Some n else None)"

text \<open>The sort key of a result is the position of its call, absent before present.\<close>

definition answer_in_call_order :: "'v harness_state \<Rightarrow> tool_call_result list
    \<Rightarrow> harness_error_kind + tool_call_result list" where
  "answer_in_call_order st results =
     (case (if hs_messages st = [] then None else Some (last (hs_messages st))) of
        Some (Assistant parts) \<Rightarrow>
          (let calls = List.map_filter (\<lambda>p. case p of PToolCall c \<Rightarrow> Some (mc_id c) | _ \<Rightarrow> None) parts in
           if sort calls \<noteq> sort (map tc_id results) then Inl InternalError
           else Inr (sort_key (\<lambda>r. case index_of (tc_id r) calls of None \<Rightarrow> 0 | Some i \<Rightarrow> Suc i) results))
      | _ \<Rightarrow> Inl InternalError)"

definition tool_result_of :: "tool_call_result \<Rightarrow> tool_result" where
  "tool_result_of r = \<lparr>tr_id = tc_id r, tr_output = tc_output r, tr_is_error = tc_is_error r\<rparr>"

definition integrate_results :: "('v, 'b) serde_lib \<Rightarrow> ('v, 'b) step_input \<Rightarrow> tool_call_result list \<Rightarrow> 'v harness_state
    \<Rightarrow> harness_error_kind + ('v, 'f, 'b) step_output" where
  "integrate_results L inp results st =
     bindR (answer_in_call_order st results) (\<lambda>results.
       let st1 = st\<lparr>hs_messages := hs_messages st @ [ToolResults (map tool_result_of results)]\<rparr>;
           st2 = append_host_notices (si_host_notices inp) st1
       in step_out L (st2\<lparr>hs_phase := AwaitingModel\<rparr>) (CallModel (build_model_request (si_config inp) (hs_messages st2)))
            [log_info ''tool results integrated; requesting next model turn''])"

definition tool_results_step :: "('v, 'b) serde_lib \<Rightarrow> ('v, 'b) step_input \<Rightarrow> 'v harness_state
    \<Rightarrow> harness_error_kind + ('v, 'f, 'b) step_output" where
  "tool_results_step L inp st =
     (case si_last_result inp of
        Some (ToolResult r) \<Rightarrow> integrate_results L inp [r] st
      | Some (ParallelToolResults rs) \<Rightarrow> integrate_results L inp rs st
      | Some Cancelled \<Rightarrow> terminal L st (Failed InternalError)
      | Some (HostError m) \<Rightarrow> terminal L st (Failed InternalError)
      | _ \<Rightarrow> Inl InternalError)"

definition harness_step :: "('v, 'b) serde_lib \<Rightarrow> ('v, 'b) step_input \<Rightarrow> harness_error_kind + ('v, 'f, 'b) step_output" where
  "harness_step L inp =
     bindR (load L (si_state inp)) (\<lambda>st.
       case hs_phase st of
         Initial \<Rightarrow> initial_step L inp st
       | AwaitingModel \<Rightarrow> model_response_step L inp st
       | DispatchingTools \<Rightarrow> tool_results_step L inp st
       | Done \<Rightarrow> Inl InternalError)"

end
