(* ===== verification/Harness_Properties.thy ===== *)
theory Harness_Properties
  imports Harness
begin

text \<open>
  What the reducer of \<^verbatim>\<open>harness.rs\<close> guarantees to its host and to the model provider: which steps can
  fail when the host keeps the protocol, that every request it builds is a well-formed conversation, how
  many turns an invocation can take, that the declared outcome and only it completes an invocation, and
  that tool results are replayed in call order whatever order they arrive in.
\<close>

section \<open>The blob\<close>

text \<open>What is relied on of \<^verbatim>\<open>serde_json\<close>: a state serialises, to at least one byte, and reads back.\<close>

definition serde_ok :: "('v, 'b) serde_lib \<Rightarrow> bool" where
  "serde_ok L \<longleftrightarrow> (\<forall>st. \<exists>b. sl_to_vec L st = Some b \<and> b \<noteq> [] \<and> sl_from_slice L b = Some st)"

lemma save_load:
  assumes "serde_ok L" "validate st = Inr ()"
  obtains b where "save L st = Inr b" "load L b = Inr st"
proof -
  from assms(1) obtain b where "sl_to_vec L st = Some b" "b \<noteq> []" "sl_from_slice L b = Some st"
    unfolding serde_ok_def by blast
  with assms(2) that show thesis by (simp add: save_def load_def)
qed

lemma step_out_cases:
  assumes "serde_ok L"
  obtains (invalid) "validate st = Inl InternalError" "step_out L st act logs = Inl InternalError"
  | (saved) b where "validate st = Inr ()" "step_out L st act logs = Inr \<lparr>so_next_action = act, so_state = b, so_logs = logs, so_events = []\<rparr>"
      "load L b = Inr st"
proof (cases "validate st")
  case (Inl e)
  then have "validate st = Inl InternalError" by (auto simp: validate_def Let_def split: if_splits)
  then show thesis by (intro invalid) (simp_all add: step_out_def save_def)
next
  case (Inr u)
  then have v: "validate st = Inr ()" by simp
  from save_load [OF assms v] obtain b where "save L st = Inr b" "load L b = Inr st" .
  then show thesis by (intro saved [of b] v) (simp_all add: step_out_def)
qed

lemma step_out_Inr:
  assumes "serde_ok L" "step_out L st act logs = Inr out"
  shows "so_next_action out = act" "load L (so_state out) = Inr st" "validate st = Inr ()"
proof -
  have "so_next_action out = act \<and> load L (so_state out) = Inr st \<and> validate st = Inr ()"
  proof (rule step_out_cases [OF assms(1), of st act logs])
    assume "step_out L st act logs = Inl InternalError"
    with assms(2) show ?thesis by simp
  next
    fix b assume "validate st = Inr ()" "load L b = Inr st"
      "step_out L st act logs = Inr \<lparr>so_next_action = act, so_state = b, so_logs = logs, so_events = []\<rparr>"
    with assms(2) show ?thesis by auto
  qed
  then show "so_next_action out = act" "load L (so_state out) = Inr st" "validate st = Inr ()" by simp_all
qed

lemma step_out_isl:
  assumes "serde_ok L"
  shows "isl (step_out L st act logs) \<longleftrightarrow> validate st \<noteq> Inr ()"
  by (rule step_out_cases [OF assms, of st act logs]) simp_all

lemma load_valid: "load L b = Inr st \<Longrightarrow> validate st = Inr ()"
  by (auto simp: load_def hs_default_def validate_def phase_violation_def Let_def split: if_splits option.splits)

section \<open>Conversations\<close>

text \<open>
  What a provider requires of a conversation: the system prompt first and only there, every tool-calling
  assistant turn answered at once by one turn with a result for each of its calls, and no other
  tool results. When the call ids of a turn differ, the results are in call order.
\<close>

definition answers_turn :: "'v assistant_part list \<Rightarrow> tool_result list \<Rightarrow> bool" where
  "answers_turn ps rs \<longleftrightarrow> (let ids = map mc_id (assistant_tool_calls ps) in
     mset (map tr_id rs) = mset ids \<and> (distinct ids \<longrightarrow> map tr_id rs = ids))"

fun turns_ok :: "'v message list \<Rightarrow> bool" where
  "turns_ok [] \<longleftrightarrow> True"
| "turns_ok (System _ # ms) \<longleftrightarrow> False"
| "turns_ok (User _ # ms) \<longleftrightarrow> turns_ok ms"
| "turns_ok (ToolResults _ # ms) \<longleftrightarrow> False"
| "turns_ok (Assistant ps # ToolResults rs # ms) \<longleftrightarrow> assistant_tool_calls ps \<noteq> [] \<and> answers_turn ps rs \<and> turns_ok ms"
| "turns_ok (Assistant ps # ms) \<longleftrightarrow> assistant_tool_calls ps = [] \<and> turns_ok ms"

definition conv_ok :: "'v message list \<Rightarrow> bool" where
  "conv_ok ms \<longleftrightarrow> (case ms of System _ # ms' \<Rightarrow> turns_ok ms' | _ \<Rightarrow> False)"

lemma turns_ok_append: "turns_ok ms \<Longrightarrow> turns_ok ns \<Longrightarrow> turns_ok (ms @ ns)"
proof (induction ms rule: turns_ok.induct, goal_cases)
  case (6 ps)
  then show ?case by (cases ns rule: turns_ok.cases) auto
qed auto

lemma conv_ok_append: "conv_ok ms \<Longrightarrow> turns_ok ns \<Longrightarrow> conv_ok (ms @ ns)"
  by (auto simp: conv_ok_def turns_ok_append split: list.splits message.splits)

lemma turns_ok_users: "turns_ok (map User ts)"
  by (induction ts) auto

lemma conv_ok_notices: "conv_ok ms \<Longrightarrow> conv_ok (ms @ map User ts)"
  by (rule conv_ok_append [OF _ turns_ok_users])

section \<open>Results in call order\<close>

lemma sort_eq_iff: "sort xs = sort ys \<longleftrightarrow> mset xs = mset (ys :: 'a :: linorder list)"
  by (metis mset_sort properties_for_sort sorted_sort)

lemma index_of_nth: "distinct xs \<Longrightarrow> i < length xs \<Longrightarrow> index_of (xs ! i) xs = Some i"
proof -
  assume d: "distinct xs" and i: "i < length xs"
  have "takeWhile (\<lambda>y. y \<noteq> xs ! i) xs = take i xs"
    by (rule takeWhile_eq_take_P_nth) (use d i in \<open>auto simp: nth_eq_iff_index_eq\<close>)
  with i show ?thesis by (simp add: index_of_def)
qed

definition call_key :: "string list \<Rightarrow> string \<Rightarrow> nat" where
  "call_key calls i = (case index_of i calls of None \<Rightarrow> 0 | Some n \<Rightarrow> Suc n)"

lemma call_key_distinct:
  assumes "distinct calls"
  shows "map (call_key calls) calls = [1..<Suc (length calls)]" "inj_on (call_key calls) (set calls)"
proof -
  show m: "map (call_key calls) calls = [1..<Suc (length calls)]"
    by (rule nth_equalityI) (simp_all add: call_key_def index_of_nth [OF assms] del: upt_Suc)
  have "distinct (map (call_key calls) calls)" unfolding m by simp
  then show "inj_on (call_key calls) (set calls)" by (simp add: distinct_map)
qed

lemma answer_in_call_order_eq:
  assumes "hs_messages st = ms @ [Assistant ps]"
  defines "ids \<equiv> map mc_id (assistant_tool_calls ps)"
  shows "answer_in_call_order st rs =
    (if mset (map tc_id rs) = mset ids then Inr (sort_key (call_key ids \<circ> tc_id) rs) else Inl InternalError)"
proof -
  have "List.map_filter (\<lambda>p. case p of PToolCall c \<Rightarrow> Some (mc_id c) | _ \<Rightarrow> None) ps = ids"
    unfolding ids_def assistant_tool_calls_def by (induction ps) (auto split: assistant_part.splits)
  then show ?thesis
    by (auto simp: answer_in_call_order_def assms(1) sort_eq_iff call_key_def comp_def)
qed

lemma sorted_answers:
  assumes "distinct ids" "mset (map tc_id rs) = mset ids"
  shows "map tc_id (sort_key (call_key ids \<circ> tc_id) rs) = ids"
proof -
  let ?ys = "map tc_id (sort_key (call_key ids \<circ> tc_id) rs)"
  have "mset ?ys = mset (map tc_id rs)" by (simp only: mset_map mset_sort)
  then have ys: "mset ids = mset ?ys" using assms(2) by simp
  have srt: "sorted (map (call_key ids) ?ys)"
    using sorted_sort_key [of "call_key ids \<circ> tc_id" rs] by (simp add: comp_def)
  note inj = call_key_distinct(2) [OF assms(1)]
  have "sort_key (call_key ids) ids = ?ys" by (rule sort_key_inj_key_eq [OF ys inj srt])
  moreover have "sort_key (call_key ids) ids = ids"
    by (rule sort_key_inj_key_eq [OF refl inj]) (simp add: call_key_distinct(1) [OF assms(1)] del: upt_Suc)
  ultimately show ?thesis by simp
qed

lemma answer_answers:
  assumes "hs_messages st = ms @ [Assistant ps]" "answer_in_call_order st rs = Inr rs'"
  shows "answers_turn ps (map tool_result_of rs')"
proof -
  let ?ids = "map mc_id (assistant_tool_calls ps)"
  from assms have m: "mset (map tc_id rs) = mset ?ids" and rs': "rs' = sort_key (call_key ?ids \<circ> tc_id) rs"
    unfolding answer_in_call_order_eq [OF assms(1)] by (auto split: if_splits)
  have ids: "map tr_id (map tool_result_of rs') = map tc_id rs'" by (simp add: tool_result_of_def comp_def)
  have "mset (map tc_id rs') = mset ?ids" unfolding rs' mset_map mset_sort using m by simp
  moreover have "distinct ?ids \<longrightarrow> map tc_id rs' = ?ids" unfolding rs' using sorted_answers [OF _ m] by blast
  ultimately show ?thesis unfolding answers_turn_def Let_def ids by simp
qed

section \<open>Validation\<close>

abbreviation assistant_count :: "'v message list \<Rightarrow> nat" where
  "assistant_count ms \<equiv> length (filter is_assistant ms)"

lemma is_assistant_simps [simp]:
  "\<not> is_assistant (System t)" "\<not> is_assistant (User t)" "is_assistant (Assistant ps)" "\<not> is_assistant (ToolResults rs)"
  by (simp_all add: is_assistant_def)

lemma assistant_count_users [simp]: "filter is_assistant (map User ts) = []"
  by (induction ts) auto

lemma no_calls_iff: "list_all (\<lambda>p. case p of PToolCall _ \<Rightarrow> False | _ \<Rightarrow> True) ps \<longleftrightarrow> assistant_tool_calls ps = []"
  unfolding assistant_tool_calls_def by (induction ps) (auto split: assistant_part.splits)

lemma validate_phases:
  "validate (st\<lparr>hs_phase := Done\<rparr>) = Inr () \<longleftrightarrow> hs_messages st \<noteq> [] \<and> assistant_count (hs_messages st) \<le> hs_iteration st"
  "validate (st\<lparr>hs_phase := AwaitingModel\<rparr>) = Inr () \<longleftrightarrow>
     hs_messages st \<noteq> [] \<and> \<not> is_assistant (last (hs_messages st)) \<and> assistant_count (hs_messages st) \<le> hs_iteration st"
  "validate (st\<lparr>hs_phase := DispatchingTools\<rparr>) = Inr () \<longleftrightarrow>
     (\<exists>ms ps. hs_messages st = ms @ [Assistant ps] \<and> assistant_tool_calls ps \<noteq> []) \<and> assistant_count (hs_messages st) \<le> hs_iteration st"
proof -
  show "validate (st\<lparr>hs_phase := Done\<rparr>) = Inr () \<longleftrightarrow> hs_messages st \<noteq> [] \<and> assistant_count (hs_messages st) \<le> hs_iteration st"
    "validate (st\<lparr>hs_phase := AwaitingModel\<rparr>) = Inr () \<longleftrightarrow>
     hs_messages st \<noteq> [] \<and> \<not> is_assistant (last (hs_messages st)) \<and> assistant_count (hs_messages st) \<le> hs_iteration st"
    by (auto simp: validate_def phase_violation_def Let_def)
  show "validate (st\<lparr>hs_phase := DispatchingTools\<rparr>) = Inr () \<longleftrightarrow>
     (\<exists>ms ps. hs_messages st = ms @ [Assistant ps] \<and> assistant_tool_calls ps \<noteq> []) \<and> assistant_count (hs_messages st) \<le> hs_iteration st"
    by (cases "hs_messages st" rule: rev_cases)
      (auto simp: validate_def phase_violation_def Let_def no_calls_iff split: message.splits)
qed

lemma validate_phaseD:
  assumes "validate st = Inr ()"
  shows "hs_phase st \<noteq> Initial \<Longrightarrow> hs_messages st \<noteq> []" "assistant_count (hs_messages st) \<le> hs_iteration st"
    "hs_phase st = DispatchingTools \<Longrightarrow> \<exists>ms ps. hs_messages st = ms @ [Assistant ps] \<and> assistant_tool_calls ps \<noteq> []"
    "hs_phase st = Initial \<Longrightarrow> hs_messages st = []"
proof -
  show "assistant_count (hs_messages st) \<le> hs_iteration st"
    using assms by (auto simp: validate_def Let_def split: if_splits)
  show "hs_phase st = Initial \<Longrightarrow> hs_messages st = []"
    using assms by (auto simp: validate_def phase_violation_def Let_def split: if_splits)
  have same: "st\<lparr>hs_phase := p\<rparr> = st" if "hs_phase st = p" for p using that by (cases st) simp
  show d: "\<exists>ms ps. hs_messages st = ms @ [Assistant ps] \<and> assistant_tool_calls ps \<noteq> []" if "hs_phase st = DispatchingTools"
    using validate_phases(3) [of st] same [OF that] assms by simp
  show "hs_phase st \<noteq> Initial \<Longrightarrow> hs_messages st \<noteq> []"
    using validate_phases(1,2) [of st] same [of Done] same [of AwaitingModel] assms d by (cases "hs_phase st") auto
qed

lemma mr_tool_calls_parts: "mr_tool_calls r = assistant_tool_calls (mr_parts r)"
  by (simp add: mr_tool_calls_def assistant_tool_calls_def)

lemma append_host_notices_simps [simp]:
  "hs_messages (append_host_notices ts st) = hs_messages st @ map User ts"
  "hs_iteration (append_host_notices ts st) = hs_iteration st"
  "hs_consecutive_truncations (append_host_notices ts st) = hs_consecutive_truncations st"
  "hs_phase (append_host_notices ts st) = hs_phase st"
  by (simp_all add: append_host_notices_def)

section \<open>Model turns\<close>

text \<open>The one way a model turn makes the reducer fail: cut off at the token cap while carrying tool calls.\<close>

definition truncated_dispatch :: "('v, 'b) serde_lib \<Rightarrow> 'v agent_config \<Rightarrow> 'v harness_state \<Rightarrow> 'v model_response \<Rightarrow> bool" where
  "truncated_dispatch L cfg st r \<longleftrightarrow> declared L (mr_tool_calls r) = None \<and> mr_stop_reason r = MaxTokens \<and> mr_tool_calls r \<noteq> []
     \<and> hs_consecutive_truncations st + 1 < MAX_CONSECUTIVE_TRUNCATIONS \<and> hs_iteration st + 1 < ac_max_iterations cfg"

lemma isl_terminal:
  assumes "serde_ok L"
  shows "isl (terminal L st act) \<longleftrightarrow> \<not> (hs_messages st \<noteq> [] \<and> assistant_count (hs_messages st) \<le> hs_iteration st)"
  unfolding terminal_def step_out_isl [OF assms] validate_phases ..

lemma isl_after_turn:
  assumes L: "serde_ok L" and ms: "hs_messages st \<noteq> []" "assistant_count (hs_messages st) \<le> hs_iteration st"
  shows "isl (after_turn L cfg r st) \<longleftrightarrow> hs_iteration st < ac_max_iterations cfg
    \<and> (if mr_tool_calls r = [] then is_assistant (last (hs_messages st))
       else \<not> (\<exists>ms ps. hs_messages st = ms @ [Assistant ps] \<and> assistant_tool_calls ps \<noteq> []))"
  using ms by (simp add: after_turn_def isl_terminal [OF L] step_out_isl [OF L] validate_phases Let_def)

lemma isl_model_turn:
  assumes L: "serde_ok L" and st: "validate st = Inr ()" "hs_phase st = AwaitingModel" "hs_iteration st < 2 ^ 32 - 1"
  shows "isl (model_turn L inp r st) \<longleftrightarrow> truncated_dispatch L (si_config inp) st r"
proof -
  have it: "sat_add 32 (hs_iteration st) (Suc 0) = Suc (hs_iteration st)" using st(3) by (simp add: sat_add_exact)
  have tr: "sat_add 32 (hs_consecutive_truncations st) (Suc 0) < MAX_CONSECUTIVE_TRUNCATIONS
      \<longleftrightarrow> Suc (hs_consecutive_truncations st) < MAX_CONSECUTIVE_TRUNCATIONS"
    by (auto simp: sat_add_def MAX_CONSECUTIVE_TRUNCATIONS_def)
  have ms: "hs_messages st \<noteq> []" "assistant_count (hs_messages st) \<le> hs_iteration st"
    using validate_phaseD [OF st(1)] st(2) by auto
  then have le: "assistant_count (hs_messages st) \<le> Suc (hs_iteration st)" by simp
  show ?thesis
    using ms le
    by (cases "declared L (mr_tool_calls r)"; cases "mr_stop_reason r = MaxTokens"; cases "mr_tool_calls r = []")
      (auto simp: model_turn_def Let_def truncated_dispatch_def isl_terminal [OF L] isl_after_turn [OF L] it tr not_less [symmetric]
        mr_tool_calls_parts)
qed

section \<open>Runs\<close>

text \<open>
  The host's side of the protocol: it answers each action with an outcome of the matching kind, tool
  outcomes for exactly the calls requested, or says that it cancelled or failed.
\<close>

fun host_answers :: "('v, 'f) next_action \<Rightarrow> 'v capability_result \<Rightarrow> bool" where
  "host_answers (Complete _ _) _ \<longleftrightarrow> False"
| "host_answers (Failed _) _ \<longleftrightarrow> False"
| "host_answers _ Cancelled \<longleftrightarrow> True"
| "host_answers _ (HostError _) \<longleftrightarrow> True"
| "host_answers (CallModel _) (ModelResult _) \<longleftrightarrow> True"
| "host_answers (CallTool c) (ToolResult r) \<longleftrightarrow> tc_id r = cr_id c"
| "host_answers (CallToolsParallel cs) (ParallelToolResults rs) \<longleftrightarrow> mset (map tc_id rs) = mset (map cr_id cs)"
| "host_answers _ _ \<longleftrightarrow> False"

text \<open>A run: the actions so far, newest first, and the blob the host holds.\<close>

inductive harness_run :: "('v, 'b) serde_lib \<Rightarrow> 'v agent_config \<Rightarrow> ('v, 'f) next_action list \<Rightarrow> 'b list \<Rightarrow> bool"
  for L cfg where
  start: "si_config inp = cfg \<Longrightarrow> si_state inp = [] \<Longrightarrow> harness_step L inp = Inr out
    \<Longrightarrow> harness_run L cfg [so_next_action out] (so_state out)"
| next_step: "harness_run L cfg (act # acts) b \<Longrightarrow> si_config inp = cfg \<Longrightarrow> si_state inp = b \<Longrightarrow> si_last_result inp = Some res
    \<Longrightarrow> host_answers act res \<Longrightarrow> harness_step L inp = Inr out
    \<Longrightarrow> harness_run L cfg (so_next_action out # act # acts) (so_state out)"

fun action_calls :: "('v, 'f) next_action \<Rightarrow> 'v tool_call_request list" where
  "action_calls (CallTool c) = [c]"
| "action_calls (CallToolsParallel cs) = cs"
| "action_calls _ = []"

fun is_call_model :: "('v, 'f) next_action \<Rightarrow> bool" where
  "is_call_model (CallModel _) \<longleftrightarrow> True"
| "is_call_model _ \<longleftrightarrow> False"

fun is_terminal :: "('v, 'f) next_action \<Rightarrow> bool" where
  "is_terminal (Complete _ _) \<longleftrightarrow> True"
| "is_terminal (Failed _) \<longleftrightarrow> True"
| "is_terminal _ \<longleftrightarrow> False"

text \<open>The state behind an action.\<close>

definition awaiting :: "'v agent_config \<Rightarrow> ('v, 'f) next_action \<Rightarrow> 'v harness_state \<Rightarrow> bool" where
  "awaiting cfg act st \<longleftrightarrow> act = CallModel (build_model_request cfg (hs_messages st)) \<and> hs_phase st = AwaitingModel
     \<and> conv_ok (hs_messages st)"

definition dispatching :: "('v, 'f) next_action \<Rightarrow> 'v harness_state \<Rightarrow> bool" where
  "dispatching act st \<longleftrightarrow> hs_phase st = DispatchingTools \<and> \<not> is_call_model act \<and> \<not> is_terminal act
     \<and> (\<exists>ms ps. hs_messages st = ms @ [Assistant ps] \<and> conv_ok ms \<and> assistant_tool_calls ps \<noteq> []
          \<and> action_calls act = map request_of_call (assistant_tool_calls ps))"

lemma after_turn_state:
  assumes L: "serde_ok L" and out: "after_turn L cfg r st = Inr out"
    and ms: "hs_messages st = ms @ [Assistant (mr_parts r)] @ map User ts" "conv_ok ms"
  shows "\<exists>st'. load L (so_state out) = Inr st' \<and> hs_iteration st' = hs_iteration st
    \<and> (awaiting cfg (so_next_action out) st' \<and> hs_iteration st < ac_max_iterations cfg
       \<or> dispatching (so_next_action out) st' \<and> hs_iteration st < ac_max_iterations cfg
       \<or> hs_phase st' = Done \<and> is_terminal (so_next_action out))"
proof (cases "ac_max_iterations cfg \<le> hs_iteration st")
  case True
  with out have "step_out L (st\<lparr>hs_phase := Done\<rparr>) (Failed MaxIterations) [] = Inr out"
    by (simp add: after_turn_def terminal_def)
  from step_out_Inr [OF L this] show ?thesis by auto
next
  case more: False
  show ?thesis
  proof (cases "mr_tool_calls r = []")
    case True
    let ?st = "st\<lparr>hs_phase := AwaitingModel\<rparr>"
    from True more out obtain logs where "step_out L ?st (CallModel (build_model_request cfg (hs_messages st))) logs = Inr out"
      by (auto simp: after_turn_def)
    note o = step_out_Inr [OF L this]
    have "conv_ok (ms @ ([Assistant (mr_parts r)] @ map User ts))"
      by (rule conv_ok_append [OF ms(2) turns_ok_append [OF _ turns_ok_users]]) (use True in \<open>simp add: mr_tool_calls_parts\<close>)
    with o ms(1) more show ?thesis by (auto simp: awaiting_def)
  next
    case False
    let ?st = "st\<lparr>hs_phase := DispatchingTools\<rparr>" and ?cs = "map request_of_call (mr_tool_calls r)"
    let ?act = "case ?cs of [c] \<Rightarrow> CallTool c | _ \<Rightarrow> CallToolsParallel ?cs"
    from False more out obtain logs where "step_out L ?st ?act logs = Inr out" by (auto simp: after_turn_def Let_def)
    note o = step_out_Inr [OF L this]
    have "ts = []"
    proof (cases ts rule: rev_cases)
      case (snoc us t)
      with ms(1) validate_phases(3) [of st] o(3) show ?thesis by auto
    qed
    moreover have "action_calls ?act = ?cs" "\<not> is_call_model ?act" "\<not> is_terminal ?act"
      by (auto split: list.split)
    ultimately show ?thesis using o ms more False by (auto simp: dispatching_def mr_tool_calls_parts)
  qed
qed

lemma model_turn_state:
  assumes L: "serde_ok L" and out: "model_turn L inp r st = Inr out" and ms: "conv_ok (hs_messages st)"
    and it: "hs_iteration st < 2 ^ 32 - 1"
  shows "\<exists>st'. load L (so_state out) = Inr st' \<and> hs_iteration st' = Suc (hs_iteration st)
    \<and> (awaiting (si_config inp) (so_next_action out) st' \<and> Suc (hs_iteration st) < ac_max_iterations (si_config inp)
       \<or> dispatching (so_next_action out) st' \<and> Suc (hs_iteration st) < ac_max_iterations (si_config inp)
       \<or> hs_phase st' = Done \<and> is_terminal (so_next_action out))"
proof -
  have inc: "sat_add 32 (hs_iteration st) 1 = Suc (hs_iteration st)" using it by (simp add: sat_add_exact)
  let ?ts = "si_host_notices inp" and ?ps = "mr_parts r" and ?it = "Suc (hs_iteration st)"
  let ?P = "\<lambda>out. \<exists>st'. load L (so_state out) = Inr st' \<and> hs_iteration st' = ?it
    \<and> (awaiting (si_config inp) (so_next_action out) st' \<and> ?it < ac_max_iterations (si_config inp)
       \<or> dispatching (so_next_action out) st' \<and> ?it < ac_max_iterations (si_config inp)
       \<or> hs_phase st' = Done \<and> is_terminal (so_next_action out))"
  have fin: "?P out" if "terminal L s act = Inr out" "hs_iteration s = ?it" "is_terminal act" for s act
    using step_out_Inr [OF L that(1) [unfolded terminal_def]] that(2,3) by auto
  have turn: "?P out" if "after_turn L (si_config inp) r s = Inr out" "hs_iteration s = ?it"
    "hs_messages s = (hs_messages st @ map User ?ts) @ [Assistant ?ps] @ map User ts" for s ts
    using after_turn_state [OF L that(1,3) conv_ok_notices [OF ms]] unfolding that(2) .
  show ?thesis
  proof (cases "declared L (mr_tool_calls r)")
    case (Some d)
    then have "terminal L (append_host_notices ?ts (st\<lparr>hs_iteration := ?it\<rparr>)) (Complete (snd d) (fst d)) = Inr out"
      using out inc by (simp add: model_turn_def Let_def case_prod_beta)
    then show ?thesis by (rule fin) simp_all
  next
    case none: None
    show ?thesis
    proof (cases "mr_stop_reason r = MaxTokens")
      case True
      show ?thesis
      proof (cases "sat_add 32 (hs_consecutive_truncations st) 1 \<ge> MAX_CONSECUTIVE_TRUNCATIONS")
        case full: True
        with out none True inc obtain s where "terminal L s (Failed OutputTruncated) = Inr out" "hs_iteration s = ?it"
          by (auto simp: model_turn_def Let_def)
        then show ?thesis by (rule fin) simp
      next
        case False
        with out none True inc obtain s where "after_turn L (si_config inp) r s = Inr out" "hs_iteration s = ?it"
          "hs_messages s = (hs_messages st @ map User ?ts) @ [Assistant ?ps] @ map User [truncation_notice (ac_max_tokens (si_config inp))]"
          by (auto simp: model_turn_def Let_def)
        then show ?thesis by (rule turn)
      qed
    next
      case False
      with out none inc obtain s where "after_turn L (si_config inp) r s = Inr out" "hs_iteration s = ?it"
        "hs_messages s = (hs_messages st @ map User ?ts) @ [Assistant ?ps] @ map User (if mr_tool_calls r = [] then [no_calls_notice] else [])"
        by (auto simp: model_turn_def Let_def)
      then show ?thesis by (rule turn)
    qed
  qed
qed

lemma integrate_state:
  assumes L: "serde_ok L" and out: "integrate_results L inp rs st = Inr out" and d: "dispatching act st"
  shows "\<exists>st'. load L (so_state out) = Inr st' \<and> hs_iteration st' = hs_iteration st \<and> awaiting (si_config inp) (so_next_action out) st'"
proof -
  from d obtain ms ps where ms: "hs_messages st = ms @ [Assistant ps]" "conv_ok ms" "assistant_tool_calls ps \<noteq> []"
    by (auto simp: dispatching_def)
  from out obtain rs' where a: "answer_in_call_order st rs = Inr rs'" by (auto simp: integrate_results_def)
  let ?st = "append_host_notices (si_host_notices inp) (st\<lparr>hs_messages := hs_messages st @ [ToolResults (map tool_result_of rs')]\<rparr>)"
  from out a obtain logs where
    "step_out L (?st\<lparr>hs_phase := AwaitingModel\<rparr>) (CallModel (build_model_request (si_config inp) (hs_messages ?st))) logs = Inr out"
    by (auto simp: integrate_results_def Let_def)
  note o = step_out_Inr [OF L this]
  have "turns_ok [Assistant ps, ToolResults (map tool_result_of rs')]" using answer_answers [OF ms(1) a] ms(3) by simp
  from conv_ok_append [OF ms(2) turns_ok_append [OF this turns_ok_users [of "si_host_notices inp"]]] o show ?thesis
    by (auto simp: awaiting_def ms(1))
qed

text \<open>Every model call but the last is one iteration, and a tool round follows at most one of them.\<close>

definition run_inv :: "('v, 'b) serde_lib \<Rightarrow> 'v agent_config \<Rightarrow> ('v, 'f) next_action list \<Rightarrow> 'b list \<Rightarrow> bool" where
  "run_inv L cfg acts b \<longleftrightarrow> (\<exists>st. load L b = Inr st \<and>
     (let act = hd acts; n = hs_iteration st; k = length (filter is_call_model acts); m = max 1 (ac_max_iterations cfg) in
        awaiting cfg act st \<and> n < m \<and> k = Suc n \<and> length acts \<le> 2 * n + 1
      \<or> dispatching act st \<and> n < m \<and> k = n \<and> length acts \<le> 2 * n
      \<or> hs_phase st = Done \<and> is_terminal act \<and> k \<le> m \<and> length acts \<le> 2 * m))"

lemma terminal_not_model: "is_terminal act \<Longrightarrow> \<not> is_call_model act"
  by (cases act) auto

lemma harness_step_phase: "load L (si_state inp) = Inr st \<Longrightarrow> harness_step L inp =
    (case hs_phase st of Initial \<Rightarrow> initial_step L inp st | AwaitingModel \<Rightarrow> model_response_step L inp st
       | DispatchingTools \<Rightarrow> tool_results_step L inp st | Done \<Rightarrow> Inl InternalError)"
  by (simp add: harness_step_def)

lemma initial_run_inv:
  assumes L: "serde_ok L" and inp: "si_config inp = cfg" "si_state inp = []" and out: "harness_step L inp = Inr out"
  shows "run_inv L cfg [so_next_action out] (so_state out)" "is_call_model (so_next_action out)"
proof -
  have ld: "load L (si_state inp) = Inr hs_default" by (simp add: load_def inp(2))
  let ?pre = "System (ac_system_prompt cfg) # (case si_static_resource_context inp of None \<Rightarrow> [] | Some c \<Rightarrow> [User c])"
  let ?ms = "?pre @ map User (payload_to_user_message L (si_trigger inp) # si_host_notices inp)"
  from out obtain st logs where "step_out L st (CallModel (build_model_request cfg (hs_messages st))) logs = Inr out"
    and st: "hs_phase st = AwaitingModel" "hs_messages st = ?ms" "hs_iteration st = 0"
    unfolding harness_step_phase [OF ld] by (auto simp: hs_default_def initial_step_def Let_def inp(1) split: option.splits)
  note o = step_out_Inr [OF L this(1)]
  have "conv_ok ?ms"
    by (rule conv_ok_notices) (simp add: conv_ok_def split: option.split)
  with o st show "run_inv L cfg [so_next_action out] (so_state out)" "is_call_model (so_next_action out)"
    by (auto simp: run_inv_def awaiting_def Let_def)
qed

lemma next_run_inv:
  assumes L: "serde_ok L" and cfg: "ac_max_iterations cfg < 2 ^ 32" and inv: "run_inv L cfg (act # acts) b"
    and inp: "si_config inp = cfg" "si_state inp = b" "si_last_result inp = Some res" and host: "host_answers act res"
    and out: "harness_step L inp = Inr out"
  shows "run_inv L cfg (so_next_action out # act # acts) (so_state out)"
proof -
  let ?m = "max 1 (ac_max_iterations cfg)" and ?k = "length (filter is_call_model (act # acts))"
  from inv obtain st where ld: "load L (si_state inp) = Inr st" and st:
    "awaiting cfg act st \<and> hs_iteration st < ?m \<and> ?k = Suc (hs_iteration st) \<and> length (act # acts) \<le> 2 * hs_iteration st + 1
      \<or> dispatching act st \<and> hs_iteration st < ?m \<and> ?k = hs_iteration st \<and> length (act # acts) \<le> 2 * hs_iteration st
      \<or> hs_phase st = Done \<and> is_terminal act \<and> ?k \<le> ?m \<and> length (act # acts) \<le> 2 * ?m"
    unfolding run_inv_def Let_def inp(2) list.sel by blast
  note step = out [unfolded harness_step_phase [OF ld]]
  have fin: "run_inv L cfg (so_next_action out # act # acts) (so_state out)"
    if t: "terminal L st (Failed InternalError) = Inr out" and n: "?k \<le> ?m" "Suc (length acts) < 2 * ?m"
    using step_out_Inr [OF L t [unfolded terminal_def]] n by (auto simp: run_inv_def Let_def)
  show ?thesis using st
  proof (elim disjE conjE)
    assume a: "awaiting cfg act st" "hs_iteration st < ?m" "?k = Suc (hs_iteration st)" "length (act # acts) \<le> 2 * hs_iteration st + 1"
    then have ph: "hs_phase st = AwaitingModel" and cv: "conv_ok (hs_messages st)" and act: "is_call_model act" by (auto simp: awaiting_def)
    show ?thesis
    proof (cases res)
      case (ModelResult r)
      from step ph inp(3) ModelResult have "model_turn L inp r st = Inr out" by (simp add: model_response_step_def)
      moreover have "hs_iteration st < 2 ^ 32 - 1" using a(2) cfg by (auto simp: max_def split: if_splits)
      ultimately obtain st' where "load L (so_state out) = Inr st'" "hs_iteration st' = Suc (hs_iteration st)"
        and "awaiting cfg (so_next_action out) st' \<and> Suc (hs_iteration st) < ac_max_iterations cfg
         \<or> dispatching (so_next_action out) st' \<and> Suc (hs_iteration st) < ac_max_iterations cfg
         \<or> hs_phase st' = Done \<and> is_terminal (so_next_action out)"
        using model_turn_state [OF L _ cv, of inp r out] inp(1) by blast
      then show ?thesis using a(2-4) unfolding run_inv_def Let_def
        by (intro exI [of _ st']) (auto simp: awaiting_def dispatching_def dest: terminal_not_model)
    qed (use step ph inp(3) fin a in \<open>auto simp: model_response_step_def\<close>)
  next
    assume d: "dispatching act st" "hs_iteration st < ?m" "?k = hs_iteration st" "length (act # acts) \<le> 2 * hs_iteration st"
    then have ph: "hs_phase st = DispatchingTools" by (simp add: dispatching_def)
    have int: ?thesis if i: "integrate_results L inp rs st = Inr out" for rs
    proof -
      from integrate_state [OF L i d(1)] obtain st' where "load L (so_state out) = Inr st'" "hs_iteration st' = hs_iteration st"
        "awaiting cfg (so_next_action out) st'" using inp(1) by blast
      with d(2-4) show ?thesis unfolding run_inv_def Let_def by (intro exI [of _ st']) (auto simp: awaiting_def)
    qed
    from step ph inp(3) fin int d show ?thesis
      by (cases res) (auto simp: tool_results_step_def)
  next
    assume "hs_phase st = Done"
    with step show ?thesis by simp
  qed
qed

lemma harness_run_inv:
  assumes "serde_ok L" "ac_max_iterations cfg < 2 ^ 32" "harness_run L cfg acts b"
  shows "run_inv L cfg acts b"
  using assms(3)
proof (induction rule: harness_run.induct)
  case (start inp out)
  then show ?case by (rule initial_run_inv(1) [OF assms(1)])
next
  case (next_step act acts b inp res out)
  show ?case by (rule next_run_inv [OF assms(1,2) next_step.IH next_step.hyps(2-6)])
qed

lemma harness_run_state:
  assumes "serde_ok L" "ac_max_iterations cfg < 2 ^ 32" "harness_run L cfg (act # acts) b"
  obtains st where "load L b = Inr st" "validate st = Inr ()"
    "awaiting cfg act st \<and> hs_iteration st < 2 ^ 32 - 1 \<or> dispatching act st \<or> hs_phase st = Done \<and> is_terminal act"
proof -
  from harness_run_inv [OF assms] obtain st where ld: "load L b = Inr st" and st:
    "awaiting cfg act st \<and> hs_iteration st < max 1 (ac_max_iterations cfg) \<or> dispatching act st \<or> hs_phase st = Done \<and> is_terminal act"
    unfolding run_inv_def Let_def list.sel by blast
  from st have "awaiting cfg act st \<and> hs_iteration st < 2 ^ 32 - 1 \<or> dispatching act st \<or> hs_phase st = Done \<and> is_terminal act"
    using assms(2) by (auto simp: max_def split: if_splits)
  with ld load_valid [OF ld] show thesis by (rule that)
qed

lemma dispatching_answered:
  assumes L: "serde_ok L" and d: "dispatching act st" and v: "validate st = Inr ()"
    and rs: "mset (map tc_id rs) = mset (map cr_id (action_calls act))"
  shows "\<not> isl (integrate_results L inp rs st)"
proof -
  from d obtain ms ps where ms: "hs_messages st = ms @ [Assistant ps]"
    and calls: "action_calls act = map request_of_call (assistant_tool_calls ps)" by (auto simp: dispatching_def)
  let ?ids = "map mc_id (assistant_tool_calls ps)"
  have "map cr_id (action_calls act) = ?ids" by (simp add: calls request_of_call_def)
  then have a: "answer_in_call_order st rs = Inr (sort_key (call_key ?ids \<circ> tc_id) rs)"
    using rs unfolding answer_in_call_order_eq [OF ms] by simp
  have "assistant_count (hs_messages st) \<le> hs_iteration st" by (rule validate_phaseD(2) [OF v])
  then show ?thesis
    by (auto simp: integrate_results_def a Let_def step_out_isl [OF L] validate_phases last_map)
qed

lemma step_out_act: "step_out L st act logs = Inr out \<Longrightarrow> so_next_action out = act"
  by (auto simp: step_out_def)

lemma after_turn_act: "after_turn L cfg r st = Inr out \<Longrightarrow> so_next_action out \<noteq> Complete t s"
  by (auto simp: after_turn_def terminal_def Let_def split: if_splits list.splits dest!: step_out_act)

lemma model_turn_complete:
  fixes L :: "('v, 'b) serde_lib"
  assumes L: "serde_ok L" and st: "validate st = Inr ()" "hs_phase st = AwaitingModel" "hs_iteration st < 2 ^ 32 - 1"
  shows "(\<exists>out :: ('v, 'f, 'b) step_output. model_turn L inp r st = Inr out \<and> so_next_action out = Complete text status)
    \<longleftrightarrow> declared L (mr_tool_calls r) = Some (status, text)"
proof (cases "declared L (mr_tool_calls r)")
  case None
  then show ?thesis
    by (auto simp: model_turn_def Let_def terminal_def dest: after_turn_act split: if_splits dest!: step_out_act)
next
  case (Some d)
  let ?m = "model_turn L inp r st :: harness_error_kind + ('v, 'f, 'b) step_output"
  have "\<not> isl ?m" unfolding isl_model_turn [OF L st] using Some by (simp add: truncated_dispatch_def)
  then obtain out where out: "?m = Inr out" by (cases ?m) auto
  with Some have "so_next_action out = Complete (snd d) (fst d)"
    by (auto simp: model_turn_def Let_def terminal_def case_prod_beta dest!: step_out_act)
  with out Some show ?thesis by (cases d) auto
qed

section \<open>Properties\<close>

text \<open>A library, a configuration and inputs for the witnesses: the blob is the state itself.\<close>

datatype plain_json = PNull | PStr string | PObj "(string \<times> string) list"

definition plain_serde :: "(plain_json, plain_json harness_state) serde_lib" where
  "plain_serde = \<lparr>sl_get = (\<lambda>v k. case v of PObj fs \<Rightarrow> map_option PStr (map_of fs k) | _ \<Rightarrow> None),
     sl_as_str = (\<lambda>v. case v of PStr s \<Rightarrow> Some s | _ \<Rightarrow> None), sl_is_null = (\<lambda>v. v = PNull),
     sl_to_string_pretty = (\<lambda>v. Some ''{}''), sl_to_string = (\<lambda>v. ''{}''),
     sl_from_slice = (\<lambda>b. case b of [st] \<Rightarrow> Some st | _ \<Rightarrow> None), sl_to_vec = (\<lambda>st. Some [st])\<rparr>"

lemma plain_serde_ok: "serde_ok plain_serde"
  by (simp add: serde_ok_def plain_serde_def)

definition plain_config :: "plain_json agent_config" where
  "plain_config = \<lparr>ac_agent_id = ''a'', ac_model = ''m'', ac_system_prompt = ''s'', ac_tools_available = [],
     ac_allowed_tool_names = [], ac_max_iterations = 5, ac_max_tokens = 10, ac_effort = None\<rparr>"

definition plain_input :: "plain_json harness_state list \<Rightarrow> plain_json capability_result option
    \<Rightarrow> (plain_json, plain_json harness_state) step_input" where
  "plain_input b res = \<lparr>si_config = plain_config, si_trigger = \<lparr>tp_source = Manual, tp_subject = None, tp_payload = PNull\<rparr>,
     si_state = b, si_last_result = res, si_now_ms = 0, si_random_seed = 0, si_step_index = 0,
     si_static_resource_context = None, si_host_notices = []\<rparr>"

definition plain_call :: "string \<Rightarrow> string \<Rightarrow> plain_json \<Rightarrow> plain_json assistant_part" where
  "plain_call i n v = PToolCall \<lparr>mc_id = i, mc_name = n, mc_parameters = v\<rparr>"

definition plain_turn :: "plain_json assistant_part list \<Rightarrow> stop_reason \<Rightarrow> plain_json model_response" where
  "plain_turn ps stop = \<lparr>mr_parts = ps, mr_stop_reason = stop, mr_usage = \<lparr>tu_input = 0, tu_output = 0, tu_cache_read = 0,
     tu_cache_write = 0, tu_cache_write_5m = None, tu_cache_write_1h = None, tu_reasoning = None\<rparr>\<rparr>"

definition plain_step :: "(plain_json, plain_json harness_state) step_input
    \<Rightarrow> harness_error_kind + (plain_json, unit, plain_json harness_state) step_output" where
  "plain_step inp = harness_step plain_serde inp"

definition plain_out :: "(plain_json, plain_json harness_state) step_input
    \<Rightarrow> (plain_json, unit, plain_json harness_state) step_output" where
  "plain_out inp = projr (plain_step inp)"

lemma plain_input_simps [simp]:
  "si_config (plain_input b res) = plain_config" "si_state (plain_input b res) = b" "si_last_result (plain_input b res) = res"
  by (simp_all add: plain_input_def)

lemma plain_cap: "ac_max_iterations plain_config < 2 ^ 32"
  by (simp add: plain_config_def)

lemma plain_step_out: "\<not> isl (plain_step inp) \<Longrightarrow> plain_step inp = Inr (plain_out inp)"
  by (cases "plain_step inp") (simp_all add: plain_out_def)

lemma plain_start: "plain_step (plain_input [] None) = Inr (plain_out (plain_input [] None))"
  by (rule plain_step_out) code_simp

lemma plain_run1:
  "harness_run plain_serde plain_config [so_next_action (plain_out (plain_input [] None))] (so_state (plain_out (plain_input [] None)))"
  by (rule harness_run.start [of "plain_input [] None"]) (use plain_start in \<open>simp_all add: plain_step_def\<close>)

lemma plain_first: "host_answers (so_next_action (plain_out (plain_input [] None))) (ModelResult r)"
proof -
  have "is_call_model (so_next_action (plain_out (plain_input [] None)))" by code_simp
  then show ?thesis by (cases "so_next_action (plain_out (plain_input [] None))") auto
qed

definition plain_second :: "plain_json model_response \<Rightarrow> (plain_json, plain_json harness_state) step_input" where
  "plain_second r = plain_input (so_state (plain_out (plain_input [] None))) (Some (ModelResult r))"

lemma plain_run2:
  assumes "plain_step (plain_second r) = Inr (plain_out (plain_second r))"
  shows "harness_run plain_serde plain_config [so_next_action (plain_out (plain_second r)), so_next_action (plain_out (plain_input [] None))]
     (so_state (plain_out (plain_second r)))"
  by (rule harness_run.next_step [OF plain_run1 _ _ _ plain_first, of "plain_second r"])
    (use assms in \<open>simp_all add: plain_step_def plain_second_def\<close>)

definition plain_report :: "plain_json model_response" where
  "plain_report = plain_turn [plain_call ''1'' ''report_outcome'' (PObj [(''status'', ''blocked''), (''summary'', ''no'')])] ToolUse"

definition plain_pair :: "plain_json model_response" where
  "plain_pair = plain_turn [plain_call ''1'' ''x'' PNull, plain_call ''2'' ''y'' PNull] ToolUse"

definition plain_result :: "string \<Rightarrow> tool_call_result" where
  "plain_result i = \<lparr>tc_id = i, tc_output = ''ok'', tc_is_error = False, tc_error_kind = None, tc_duration_ms = 1\<rparr>"

text \<open>Evaluation of the first two steps by rewriting (the cap \<open>2 ^ 32\<close> stays symbolic).\<close>

lemmas plain_eval = plain_step_def plain_out_def plain_second_def plain_report_def plain_pair_def plain_turn_def plain_call_def
  plain_input_def plain_serde_def plain_config_def harness_step_def load_def validate_def phase_violation_def hs_default_def
  initial_step_def payload_to_user_message_def model_response_step_def model_turn_def sat_add_def Let_def mr_tool_calls_def
  call_declares_def is_report_outcome_def REPORT_OUTCOME_CANONICAL_NAME_def REPORT_OUTCOME_TOOL_NAME_def task_status_parse_def
  append_host_notices_def terminal_def step_out_def save_def after_turn_def request_of_call_def

text \<open>
  C6. The reducer fails on exactly one kind of answer. In every run whose host keeps the protocol, a step
  is an error if and only if the model's turn was cut off at the token cap while it carried tool calls,
  with no outcome declared and neither the truncation limit nor the iteration cap reached: the corrective
  notice is then appended after the assistant turn, and the state cannot be saved in the dispatching phase.
  Every other answer, a cancellation or a host error included, gives a next action.
\<close>

theorem harness_step_fails_iff:
  assumes "serde_ok L" "ac_max_iterations cfg < 2 ^ 32" "harness_run L cfg (act # acts) b"
    and "si_config inp = cfg" "si_state inp = b" "si_last_result inp = Some res" "host_answers act res"
  shows "isl (harness_step L inp) \<longleftrightarrow> (\<exists>st r. load L b = Inr st \<and> res = ModelResult r \<and> truncated_dispatch L cfg st r)"
proof -
  obtain st where ld: "load L b = Inr st" and v: "validate st = Inr ()" and st:
    "awaiting cfg act st \<and> hs_iteration st < 2 ^ 32 - 1 \<or> dispatching act st \<or> hs_phase st = Done \<and> is_terminal act"
    by (rule harness_run_state [OF assms(1-3)])
  have ms: "assistant_count (hs_messages st) \<le> hs_iteration st" by (rule validate_phaseD(2) [OF v])
  have stp: "harness_step L inp = (case hs_phase st of Initial \<Rightarrow> initial_step L inp st | AwaitingModel \<Rightarrow> model_response_step L inp st
       | DispatchingTools \<Rightarrow> tool_results_step L inp st | Done \<Rightarrow> Inl InternalError)"
    by (rule harness_step_phase) (simp add: assms(5) ld)
  show ?thesis using st
  proof (elim disjE conjE)
    assume "awaiting cfg act st" and it: "hs_iteration st < 2 ^ 32 - 1"
    then have ph: "hs_phase st = AwaitingModel" and act: "is_call_model act" by (auto simp: awaiting_def)
    have ne: "hs_messages st \<noteq> []" using validate_phaseD(1) [OF v] ph by simp
    show ?thesis using assms(7) act ne ms
      by (cases res; cases act)
        (simp_all add: stp ph assms(4,6) model_response_step_def isl_terminal [OF assms(1)] isl_model_turn [OF assms(1) v ph it] ld)
  next
    assume d: "dispatching act st"
    then have ph: "hs_phase st = DispatchingTools" "\<not> is_call_model act" "\<not> is_terminal act" by (auto simp: dispatching_def)
    have ne: "hs_messages st \<noteq> []" using validate_phaseD(1) [OF v] ph by simp
    show ?thesis using assms(7) ph ne ms
      by (cases res; cases act)
        (simp_all add: stp assms(6) tool_results_step_def isl_terminal [OF assms(1)] dispatching_answered [OF assms(1) d v])
  next
    assume "is_terminal act"
    with assms(7) show ?thesis by (cases act) auto
  qed
qed

theorem harness_step_fails_iff_witness:
  "(let b = so_state (plain_out (plain_input [] None));
        cut = plain_turn [plain_call ''1'' ''builtin__read'' PNull] MaxTokens;
        full = plain_turn [plain_call ''1'' ''builtin__read'' PNull] ToolUse
    in isl (plain_step (plain_input b (Some (ModelResult cut)))) \<and> \<not> isl (plain_step (plain_input b (Some (ModelResult full)))))"
proof -
  let ?out = "plain_out (plain_input [] None)"
  let ?b = "so_state ?out"
  let ?turn = "\<lambda>stop. plain_turn [plain_call ''1'' ''builtin__read'' PNull] stop"
  have iff: "isl (plain_step (plain_input ?b (Some (ModelResult r))))
    \<longleftrightarrow> (\<exists>st r'. load plain_serde ?b = Inr st \<and> ModelResult r = ModelResult r' \<and> truncated_dispatch plain_serde plain_config st r')" for r
    unfolding plain_step_def
    by (rule harness_step_fails_iff [OF plain_serde_ok plain_cap plain_run1 _ _ _ plain_first]) simp_all
  have "truncated_dispatch plain_serde plain_config (projr (load plain_serde ?b)) (?turn MaxTokens)"
    "load plain_serde ?b = Inr (projr (load plain_serde ?b))"
    by (code_simp, code_simp)
  moreover have "\<not> truncated_dispatch plain_serde plain_config st (?turn ToolUse)" for st
    by (simp add: truncated_dispatch_def plain_turn_def)
  ultimately show ?thesis unfolding Let_def iff by blast
qed

text \<open>
  C7. Every request is a well-formed conversation. Whatever the model answers and in whatever order the
  host returns tool results, each request the reducer builds starts with the one system prompt, answers every
  tool-calling turn at once with one result per call, in call order when the call ids differ, and
  carries the model, tools and output cap of the configuration.
\<close>

theorem requests_well_formed:
  assumes "serde_ok L" "ac_max_iterations cfg < 2 ^ 32" "harness_run L cfg (CallModel req # acts) b"
  shows "conv_ok (mq_messages req) \<and> req = build_model_request cfg (mq_messages req)"
proof -
  from harness_run_inv [OF assms] obtain st where "awaiting cfg (CallModel req) st"
    unfolding run_inv_def Let_def list.sel by (auto simp: dispatching_def)
  then show ?thesis by (auto simp: awaiting_def build_model_request_def)
qed

theorem requests_well_formed_witness:
  "\<exists>req. so_next_action (plain_out (plain_input [] None)) = CallModel req \<and> conv_ok (mq_messages req)"
proof -
  have "is_call_model (so_next_action (plain_out (plain_input [] None)))" by code_simp
  then obtain req where req: "so_next_action (plain_out (plain_input [] None)) = CallModel req"
    by (cases "so_next_action (plain_out (plain_input [] None))") auto
  from requests_well_formed [OF plain_serde_ok plain_cap plain_run1 [unfolded req]] req show ?thesis by blast
qed

lemma harness_run_asks:
  assumes "serde_ok L" "harness_run L cfg acts b"
  shows "1 \<le> length (filter is_call_model acts)"
  using assms(2)
proof (induction rule: harness_run.induct)
  case (start inp out)
  from initial_run_inv(2) [OF assms(1) start] show ?case by simp
qed auto

text \<open>
  C28. Invocations end. Whatever model and tools answer, a run asks for at most \<open>max_iterations\<close> model
  turns and has at most twice as many steps. A cap of zero does not stop the invocation before its first
  turn: every run under it asks the model exactly once, and has at most two steps.
\<close>

theorem turns_bounded:
  assumes "serde_ok L" "ac_max_iterations cfg < 2 ^ 32" "harness_run L cfg acts b"
  shows "if ac_max_iterations cfg = 0
    then length (filter is_call_model acts) = 1 \<and> length acts \<le> 2
    else length (filter is_call_model acts) \<le> ac_max_iterations cfg \<and> length acts \<le> 2 * ac_max_iterations cfg"
proof -
  have "length (filter is_call_model acts) \<le> max 1 (ac_max_iterations cfg) \<and> length acts \<le> 2 * max 1 (ac_max_iterations cfg)"
    using harness_run_inv [OF assms] unfolding run_inv_def Let_def by auto
  with harness_run_asks [OF assms(1,3)] show ?thesis by (auto simp: max_def)
qed

text \<open>Under caps zero and one, a turn without an outcome is the second and last step of the run.\<close>

theorem turns_bounded_witness:
  "\<exists>(acts0 :: (plain_json, unit) next_action list) b0 (acts1 :: (plain_json, unit) next_action list) b1.
     harness_run plain_serde (plain_config\<lparr>ac_max_iterations := 0\<rparr>) acts0 b0 \<and> length acts0 = 2
     \<and> length (filter is_call_model acts0) = 1
     \<and> harness_run plain_serde (plain_config\<lparr>ac_max_iterations := 1\<rparr>) acts1 b1 \<and> length acts1 = 2
     \<and> length (filter is_call_model acts1) \<le> 1"
proof -
  have two: "\<exists>(acts :: (plain_json, unit) next_action list) b. harness_run plain_serde (plain_config\<lparr>ac_max_iterations := n\<rparr>) acts b \<and> length acts = 2"
    if "n = 0 \<or> n = 1" for n
  proof -
    let ?cfg = "plain_config\<lparr>ac_max_iterations := n\<rparr>"
    let ?i1 = "(plain_input [] None)\<lparr>si_config := ?cfg\<rparr>"
    have s1: "plain_step ?i1 = Inr (plain_out ?i1)" "is_call_model (so_next_action (plain_out ?i1))"
      using that by (auto simp: plain_eval)
    let ?i2 = "(plain_input (so_state (plain_out ?i1)) (Some (ModelResult plain_pair)))\<lparr>si_config := ?cfg\<rparr>"
    have s2: "plain_step ?i2 = Inr (plain_out ?i2)"
      using that by (auto simp: plain_eval)
    have r1: "harness_run plain_serde ?cfg [so_next_action (plain_out ?i1)] (so_state (plain_out ?i1))"
      by (rule harness_run.start [of ?i1]) (use s1 in \<open>simp_all add: plain_step_def plain_input_def\<close>)
    have h: "host_answers (so_next_action (plain_out ?i1)) (ModelResult plain_pair)"
      using s1(2) by (cases "so_next_action (plain_out ?i1)") auto
    have "harness_run plain_serde ?cfg [so_next_action (plain_out ?i2), so_next_action (plain_out ?i1)] (so_state (plain_out ?i2))" (is "harness_run _ _ ?acts _")
      by (rule harness_run.next_step [OF r1 _ _ _ h, of ?i2]) (use s2 in \<open>simp_all add: plain_step_def plain_input_def\<close>)
    moreover have "length ?acts = 2" by simp
    ultimately show ?thesis by blast
  qed
  from two [of 0] obtain acts0 :: "(plain_json, unit) next_action list" and b0 where r0: "harness_run plain_serde (plain_config\<lparr>ac_max_iterations := 0\<rparr>) acts0 b0" "length acts0 = 2" by auto
  from two [of 1] obtain acts1 :: "(plain_json, unit) next_action list" and b1 where r1: "harness_run plain_serde (plain_config\<lparr>ac_max_iterations := 1\<rparr>) acts1 b1" "length acts1 = 2" by auto
  from turns_bounded [OF plain_serde_ok _ r0(1)] turns_bounded [OF plain_serde_ok _ r1(1)] r0 r1 show ?thesis by force
qed

text \<open>
  C29. Only a declared outcome completes. A step completes the invocation exactly when the model's turn
  carries a parseable \<^verbatim>\<open>report_outcome\<close> call, with the status and summary of the first such call; sibling
  calls, truncation and the iteration cap do not matter, and bare text never completes.
\<close>

theorem completes_iff_declared:
  assumes "serde_ok L" "ac_max_iterations cfg < 2 ^ 32" "harness_run L cfg (act # acts) b"
    and "si_config inp = cfg" "si_state inp = b" "si_last_result inp = Some res" "host_answers act res"
  shows "(\<exists>out. harness_step L inp = Inr out \<and> so_next_action out = Complete text status)
    \<longleftrightarrow> (\<exists>r. res = ModelResult r \<and> declared L (mr_tool_calls r) = Some (status, text))"
proof -
  obtain st where ld: "load L b = Inr st" and v: "validate st = Inr ()" and st:
    "awaiting cfg act st \<and> hs_iteration st < 2 ^ 32 - 1 \<or> dispatching act st \<or> hs_phase st = Done \<and> is_terminal act"
    by (rule harness_run_state [OF assms(1-3)])
  have stp: "harness_step L inp = (case hs_phase st of Initial \<Rightarrow> initial_step L inp st | AwaitingModel \<Rightarrow> model_response_step L inp st
       | DispatchingTools \<Rightarrow> tool_results_step L inp st | Done \<Rightarrow> Inl InternalError)"
    by (rule harness_step_phase) (simp add: assms(5) ld)
  show ?thesis using st
  proof (elim disjE conjE)
    assume "awaiting cfg act st" and it: "hs_iteration st < 2 ^ 32 - 1"
    then have ph: "hs_phase st = AwaitingModel" and act: "is_call_model act" by (auto simp: awaiting_def)
    show ?thesis using assms(7) act
      by (cases res; cases act)
        (auto simp: stp ph assms(6) model_response_step_def model_turn_complete [OF assms(1) v ph it] terminal_def dest!: step_out_act)
  next
    assume "dispatching act st"
    then have ph: "hs_phase st = DispatchingTools" "\<not> is_call_model act" "\<not> is_terminal act" by (auto simp: dispatching_def)
    show ?thesis using assms(7) ph
      by (cases res; cases act) (auto simp: stp assms(6) tool_results_step_def integrate_results_def Let_def terminal_def dest!: step_out_act)
  next
    assume "is_terminal act"
    with assms(7) show ?thesis by (cases act) auto
  qed
qed

theorem completes_iff_declared_witness:
  "\<exists>out. plain_step (plain_second plain_report) = Inr out \<and> so_next_action out = Complete ''no'' TBlocked"
proof -
  have "declared plain_serde (mr_tool_calls plain_report) = Some (TBlocked, ''no'')" by code_simp
  then have "\<exists>r. ModelResult plain_report = ModelResult r \<and> declared plain_serde (mr_tool_calls r) = Some (TBlocked, ''no'')" by blast
  then show ?thesis
    unfolding plain_step_def plain_second_def
    by (subst completes_iff_declared [OF plain_serde_ok plain_cap plain_run1 _ _ _ plain_first [of plain_report]]) simp_all
qed

text \<open>
  C30. A finished invocation stays finished: every further step on its blob is an error.
\<close>

theorem finished_is_final:
  assumes "serde_ok L" "ac_max_iterations cfg < 2 ^ 32" "harness_run L cfg (act # acts) b"
    and "is_terminal act" "si_state inp = b"
  shows "harness_step L inp = Inl InternalError"
proof -
  from harness_run_inv [OF assms(1-3)] assms(4) obtain st where "load L b = Inr st" "hs_phase st = Done"
    unfolding run_inv_def Let_def list.sel by (auto simp: awaiting_def dispatching_def)
  then show ?thesis using harness_step_phase [of L inp st] assms(5) by simp
qed

theorem finished_is_final_witness:
  "plain_step (plain_input (so_state (plain_out (plain_second plain_report))) None) = Inl InternalError"
proof -
  have r: "plain_step (plain_second plain_report) = Inr (plain_out (plain_second plain_report))"
    by (rule plain_step_out) (simp add: plain_eval)
  have t: "is_terminal (so_next_action (plain_out (plain_second plain_report)))" by (simp add: plain_eval)
  show ?thesis unfolding plain_step_def
    by (rule finished_is_final [OF plain_serde_ok plain_cap plain_run2 [OF r] t]) simp
qed

text \<open>
  C31. The host may run tools in parallel. When the call ids of a turn differ, the order in which the
  results come back changes nothing: the step gives the same action and the same blob.
\<close>

theorem result_order_irrelevant:
  fixes cs :: "'v tool_call_request list" and acts :: "('v, 'f) next_action list"
  assumes "serde_ok L" "ac_max_iterations cfg < 2 ^ 32" "harness_run L cfg (CallToolsParallel cs # acts) b"
    and "si_config inp = cfg" "si_state inp = b" "distinct (map cr_id cs)" "mset rs = mset rs'"
    and "mset (map tc_id rs) = mset (map cr_id cs)"
  shows "harness_step L (inp\<lparr>si_last_result := Some (ParallelToolResults rs)\<rparr>)
    = harness_step L (inp\<lparr>si_last_result := Some (ParallelToolResults rs')\<rparr>)"
proof -
  obtain st where ld: "load L b = Inr st" and "awaiting cfg (CallToolsParallel cs :: ('v, 'f) next_action) st \<and> hs_iteration st < 2 ^ 32 - 1
      \<or> dispatching (CallToolsParallel cs :: ('v, 'f) next_action) st \<or> hs_phase st = Done \<and> is_terminal (CallToolsParallel cs :: ('v, 'f) next_action)"
    by (rule harness_run_state [OF assms(1-3)])
  then obtain ms ps where ms: "hs_messages st = ms @ [Assistant ps]" and cs: "cs = map request_of_call (assistant_tool_calls ps)"
    and ph: "hs_phase st = DispatchingTools" by (auto simp: dispatching_def awaiting_def)
  let ?ids = "map mc_id (assistant_tool_calls ps)"
  have ids: "map cr_id cs = ?ids" by (simp add: cs request_of_call_def)
  have "mset (map tc_id rs) = mset ?ids" using assms(8) ids by simp
  moreover from this have "distinct (map tc_id rs)" using assms(6) ids by (metis mset_eq_imp_distinct_iff)
  ultimately have "inj_on (call_key ?ids \<circ> tc_id) (set rs)"
    using call_key_distinct(2) [of ?ids] assms(6) ids mset_eq_setD [of "map tc_id rs" ?ids]
    by (intro comp_inj_on) (auto simp: distinct_map)
  then have "sort_key (call_key ?ids \<circ> tc_id) rs = sort_key (call_key ?ids \<circ> tc_id) rs'"
    by (intro sort_key_inj_key_eq) (use assms(7) in auto)
  moreover have "mset (map tc_id rs) = mset (map tc_id rs')" using assms(7) by simp
  ultimately have "answer_in_call_order st rs = answer_in_call_order st rs'"
    unfolding answer_in_call_order_eq [OF ms] by simp
  moreover have "load L (si_state (inp\<lparr>si_last_result := r\<rparr>)) = Inr st" for r using ld assms(5) by simp
  ultimately show ?thesis
    by (simp add: harness_step_phase ph tool_results_step_def integrate_results_def)
qed

theorem result_order_irrelevant_witness:
  "let b = so_state (plain_out (plain_second plain_pair)) in
     plain_step (plain_input b (Some (ParallelToolResults [plain_result ''1'', plain_result ''2''])))
     = plain_step (plain_input b (Some (ParallelToolResults [plain_result ''2'', plain_result ''1''])))"
proof -
  let ?b = "so_state (plain_out (plain_second plain_pair))"
  have r: "plain_step (plain_second plain_pair) = Inr (plain_out (plain_second plain_pair))"
    by (rule plain_step_out) (simp add: plain_eval)
  let ?cs = "map request_of_call (mr_tool_calls plain_pair)"
  have act: "so_next_action (plain_out (plain_second plain_pair)) = CallToolsParallel ?cs" by (simp add: plain_eval)
  have ids: "map cr_id ?cs = [''1'', ''2'']" by code_simp
  have inp: "plain_input ?b (Some x) = (plain_input ?b None)\<lparr>si_last_result := Some x\<rparr>" for x by (simp add: plain_input_def)
  show ?thesis unfolding Let_def plain_step_def inp
    by (rule result_order_irrelevant [OF plain_serde_ok plain_cap plain_run2 [OF r, unfolded act]])
      (simp_all only: plain_input_simps ids, simp_all add: plain_result_def)
qed

end
