(* ===== verification/Sandbox.thy ===== *)
theory Sandbox
  imports Prelude
begin

text \<open>
  The path sandbox of the tool host (\<^verbatim>\<open>fq-tools/src/sandbox.rs\<close>): which paths a tool may read, write or
  run commands in. The part of the operating system it relies on is modelled here: a tree of directories, files,
  symbolic links and special files, and the kernel's path walk with its bound on symbolic links. The
  process may search every directory. Reasons in error messages are not modelled. The properties
  say what an approved path is: whatever links, dots and dot-dots the request contains, it is free of links and
  lies below a granted directory.
\<close>

section \<open>File system\<close>

datatype node =
    Dir "(string \<times> node) list"
  | RegularFile
  | Symlink string
  | Fifo
  | Socket
  | CharDevice
  | BlockDevice
  | OtherNode

record file_system =
  fs_root :: node
  fs_cwd :: "string list"

fun lookup :: "node \<Rightarrow> string list \<Rightarrow> node option" where
  "lookup n [] = Some n"
| "lookup (Dir es) (c # cs) = (case map_of es c of None \<Rightarrow> None | Some m \<Rightarrow> lookup m cs)"
| "lookup _ (c # cs) = None"

fun split_slash :: "string \<Rightarrow> string list" where
  "split_slash [] = [[]]"
| "split_slash (c # s) =
     (if c = CHR ''/'' then [] # split_slash s
      else case split_slash s of [] \<Rightarrow> [[c]] | w # ws \<Rightarrow> (c # w) # ws)"

definition is_absolute :: "string \<Rightarrow> bool" where
  "is_absolute s \<longleftrightarrow> starts_with s ''/''"

datatype io_error = ENotFound | ENotADirectory | ELoop

text \<open>Linux gives up a walk after this many symbolic links.\<close>

definition MAXSYMLINKS :: nat where "MAXSYMLINKS = 40"

text \<open>
  The walk: \<open>k\<close> links may still be followed, \<open>cur\<close> is the real directory reached. Empty components and dots stay,
  dot-dot goes up (the root is its own parent), a link is replaced by its target; the last component's link is kept
  when \<open>follow\<close> is off.
\<close>

function walk :: "node \<Rightarrow> bool \<Rightarrow> nat \<Rightarrow> string list \<Rightarrow> string list \<Rightarrow> io_error + string list" where
  "walk root follow k cur [] = Inr cur"
| "walk root follow k cur (c # cs) =
     (if c = [] \<or> c = ''.'' then walk root follow k cur cs
      else if c = ''..'' then walk root follow k (butlast cur) cs
      else case lookup root (cur @ [c]) of
        None \<Rightarrow> Inl ENotFound
      | Some (Dir es) \<Rightarrow> walk root follow k (cur @ [c]) cs
      | Some (Symlink t) \<Rightarrow>
          (if cs = [] \<and> \<not> follow then Inr (cur @ [c])
           else if k = 0 then Inl ELoop
           else walk root follow (k - 1) (if is_absolute t then [] else cur) (split_slash t @ cs))
      | Some _ \<Rightarrow> if cs = [] then Inr (cur @ [c]) else Inl ENotADirectory)"
  by pat_completeness auto
termination
  by (relation "measures [\<lambda>(root, follow, k, cur, cs). k, \<lambda>(root, follow, k, cur, cs). length cs]") auto

text \<open>A path as the code has it is a string, or the components that \<^verbatim>\<open>Path::parent\<close> leaves.\<close>

definition resolve_from :: "file_system \<Rightarrow> bool \<Rightarrow> bool \<Rightarrow> string list \<Rightarrow> io_error + string list" where
  "resolve_from fs follow absolute cs = walk (fs_root fs) follow MAXSYMLINKS (if absolute then [] else fs_cwd fs) cs"

definition resolve :: "file_system \<Rightarrow> bool \<Rightarrow> string \<Rightarrow> io_error + string list" where
  "resolve fs follow s = (if s = [] then Inl ENotFound else resolve_from fs follow (is_absolute s) (split_slash s))"

definition canonicalize :: "file_system \<Rightarrow> string \<Rightarrow> io_error + string list" where
  "canonicalize fs s = resolve fs True s"

text \<open>\<^verbatim>\<open>symlink_metadata\<close> and \<^verbatim>\<open>metadata\<close>: the node a walk ends at.\<close>

definition node_at :: "file_system \<Rightarrow> io_error + string list \<Rightarrow> io_error + node" where
  "node_at fs r = bindR r (\<lambda>p. case lookup (fs_root fs) p of None \<Rightarrow> Inl ENotFound | Some n \<Rightarrow> Inr n)"

text \<open>\<^verbatim>\<open>Path::components\<close>, \<^verbatim>\<open>Path::parent\<close> and \<^verbatim>\<open>Path::file_name\<close>.\<close>

datatype path_component = RootDir | CurDir | ParentDir | Normal string

definition components :: "string \<Rightarrow> path_component list" where
  "components s =
     (if is_absolute s then [RootDir] else if hd (split_slash s) = ''.'' then [CurDir] else [])
     @ map (\<lambda>c. if c = ''..'' then ParentDir else Normal c) (filter (\<lambda>c. c \<noteq> [] \<and> c \<noteq> ''.'') (split_slash s))"

definition path_parent :: "string \<Rightarrow> path_component list option" where
  "path_parent s = (let cs = components s in if cs = [] \<or> last cs = RootDir then None else Some (butlast cs))"

definition path_file_name :: "string \<Rightarrow> string option" where
  "path_file_name s = (let cs = components s in if cs = [] then None else case last cs of Normal f \<Rightarrow> Some f | _ \<Rightarrow> None)"

fun component_name :: "path_component \<Rightarrow> string" where
  "component_name RootDir = []"
| "component_name CurDir = ''.''"
| "component_name ParentDir = ''..''"
| "component_name (Normal f) = f"

definition canonicalize_components :: "file_system \<Rightarrow> path_component list \<Rightarrow> io_error + string list" where
  "canonicalize_components fs cs = resolve_from fs True (cs \<noteq> [] \<and> hd cs = RootDir) (map component_name cs)"

section \<open>Sandbox\<close>

record tool_sandbox =
  sb_fs_read :: "string list"
  sb_fs_write :: "string list"
  sb_exec_cwd :: "string list"
  sb_env_allowlist :: "string list"
  sb_ambient_env :: "(string \<times> string) list"

definition sb_new :: tool_sandbox where
  "sb_new = \<lparr>sb_fs_read = [], sb_fs_write = [], sb_exec_cwd = [], sb_env_allowlist = [], sb_ambient_env = []\<rparr>"

definition allow_read :: "string \<Rightarrow> tool_sandbox \<Rightarrow> tool_sandbox" where
  "allow_read path sb = sb\<lparr>sb_fs_read := sb_fs_read sb @ [path]\<rparr>"

definition allow_write :: "string \<Rightarrow> tool_sandbox \<Rightarrow> tool_sandbox" where
  "allow_write path sb = sb\<lparr>sb_fs_write := sb_fs_write sb @ [path]\<rparr>"

definition allow_exec_cwd :: "string \<Rightarrow> tool_sandbox \<Rightarrow> tool_sandbox" where
  "allow_exec_cwd path sb = sb\<lparr>sb_exec_cwd := sb_exec_cwd sb @ [path]\<rparr>"

definition allow_env :: "string \<Rightarrow> tool_sandbox \<Rightarrow> tool_sandbox" where
  "allow_env var sb = sb\<lparr>sb_env_allowlist := sb_env_allowlist sb @ [var]\<rparr>"

definition ambient_var :: "string \<Rightarrow> string \<Rightarrow> tool_sandbox \<Rightarrow> tool_sandbox" where
  "ambient_var name value sb = sb\<lparr>sb_ambient_env := sb_ambient_env sb @ [(name, value)]\<rparr>"

datatype sandbox_error =
    SbPermissionDenied string
  | SbNotFound string
  | SbParentNotFound "path_component list"
  | SbInvalidPath string
  | SbNotRegularFile string
  | SbIo string
  | SbParentIo "path_component list"
  | SbMisquotedPath string
  | SbUnsubstitutedPlaceholder string

datatype file_shape = Regular | Directory

definition shape_check :: "file_system \<Rightarrow> file_shape \<Rightarrow> string list \<Rightarrow> string \<Rightarrow> sandbox_error + unit" where
  "shape_check fs shape canonical original =
     (case node_at fs (resolve_from fs True True canonical) of
        Inl _ \<Rightarrow> Inl (SbIo original)
      | Inr n \<Rightarrow>
          (let matches = (case shape of Regular \<Rightarrow> n = RegularFile | Directory \<Rightarrow> (case n of Dir _ \<Rightarrow> True | _ \<Rightarrow> False))
           in if matches then Inr () else Inl (SbNotRegularFile original)))"

text \<open>Substrings, for \<^verbatim>\<open>str::contains\<close>.\<close>

fun contains_str :: "string \<Rightarrow> string \<Rightarrow> bool" where
  "contains_str p [] \<longleftrightarrow> p = []"
| "contains_str p (c # s) \<longleftrightarrow> starts_with (c # s) p \<or> contains_str p s"

definition flag_mangled :: "string \<Rightarrow> sandbox_error \<Rightarrow> sandbox_error" where
  "flag_mangled target err =
     (if contains_str [CHR 0x22] target \<or> contains_str [CHR 0x5C] target then SbMisquotedPath target
      else if contains_str ''${'' target then SbUnsubstitutedPlaceholder target
      else err)"

definition map_err :: "('e \<Rightarrow> 'e) \<Rightarrow> 'e + 'a \<Rightarrow> 'e + 'a" where
  "map_err f r = (case r of Inl e \<Rightarrow> Inl (f e) | Inr x \<Rightarrow> Inr x)"

primrec check_within :: "file_system \<Rightarrow> string list \<Rightarrow> string list \<Rightarrow> string \<Rightarrow> sandbox_error + string list" where
  "check_within fs canonical [] original = Inl (SbPermissionDenied original)"
| "check_within fs canonical (p # ps) original =
     (case canonicalize fs p of
        Inl _ \<Rightarrow> check_within fs canonical ps original
      | Inr q \<Rightarrow> if prefix q canonical then Inr canonical else check_within fs canonical ps original)"

definition canonicalise_existing :: "file_system \<Rightarrow> string \<Rightarrow> sandbox_error + string list" where
  "canonicalise_existing fs target =
     (case canonicalize fs target of
        Inl ENotFound \<Rightarrow> Inl (SbNotFound target)
      | Inl _ \<Rightarrow> Inl (SbIo target)
      | Inr p \<Rightarrow> Inr p)"

definition check_read_impl :: "file_system \<Rightarrow> tool_sandbox \<Rightarrow> string \<Rightarrow> file_shape \<Rightarrow> sandbox_error + string list" where
  "check_read_impl fs sb target shape =
     (if sb_fs_read sb = [] then Inl (SbPermissionDenied target)
      else
        bindR (canonicalise_existing fs target) (\<lambda>canonical.
        bindR (check_within fs canonical (sb_fs_read sb) target) (\<lambda>canonical.
        bindR (shape_check fs shape canonical target) (\<lambda>_. Inr canonical))))"

definition check_read :: "file_system \<Rightarrow> tool_sandbox \<Rightarrow> string \<Rightarrow> sandbox_error + string list" where
  "check_read fs sb target = map_err (flag_mangled target) (check_read_impl fs sb target Regular)"

definition check_read_dir :: "file_system \<Rightarrow> tool_sandbox \<Rightarrow> string \<Rightarrow> sandbox_error + string list" where
  "check_read_dir fs sb target = map_err (flag_mangled target) (check_read_impl fs sb target Directory)"

definition is_dir_path :: "file_system \<Rightarrow> string list \<Rightarrow> bool" where
  "is_dir_path fs p = (case node_at fs (resolve_from fs True True p) of Inr (Dir _) \<Rightarrow> True | _ \<Rightarrow> False)"

definition check_exec_cwd_impl :: "file_system \<Rightarrow> tool_sandbox \<Rightarrow> string \<Rightarrow> sandbox_error + string list" where
  "check_exec_cwd_impl fs sb target =
     (if sb_exec_cwd sb = [] then Inl (SbPermissionDenied target)
      else
        bindR (canonicalise_existing fs target) (\<lambda>canonical.
        if \<not> is_dir_path fs canonical then Inl (SbInvalidPath target)
        else check_within fs canonical (sb_exec_cwd sb) target))"

definition check_exec_cwd :: "file_system \<Rightarrow> tool_sandbox \<Rightarrow> string \<Rightarrow> sandbox_error + string list" where
  "check_exec_cwd fs sb target = map_err (flag_mangled target) (check_exec_cwd_impl fs sb target)"

definition has_dir_suffix :: "string \<Rightarrow> bool" where
  "has_dir_suffix target \<longleftrightarrow> suffix ''/'' target \<or> suffix ''/.'' target"

text \<open>The second half: the final component is absent, the parent is resolved and the name appended.\<close>

definition canonicalise_absent :: "file_system \<Rightarrow> string \<Rightarrow> sandbox_error + string list \<times> bool" where
  "canonicalise_absent fs target =
     (case path_parent target of
        None \<Rightarrow> Inl (SbInvalidPath target)
      | Some parent \<Rightarrow>
          (case path_file_name target of
             None \<Rightarrow> Inl (SbInvalidPath target)
           | Some filename \<Rightarrow>
               (let parent = (if parent = [] then [CurDir] else parent) in
                case canonicalize_components fs parent of
                  Inl ENotFound \<Rightarrow> Inl (SbParentNotFound parent)
                | Inl _ \<Rightarrow> Inl (SbParentIo parent)
                | Inr canonical_parent \<Rightarrow>
                    (let candidate = canonical_parent @ [filename] in
                     case node_at fs (resolve_from fs False True candidate) of
                       Inr (Symlink _) \<Rightarrow> Inl (SbPermissionDenied target)
                     | _ \<Rightarrow> Inr (candidate, False)))))"

definition canonicalise_for_write :: "file_system \<Rightarrow> string \<Rightarrow> sandbox_error + string list \<times> bool" where
  "canonicalise_for_write fs target =
     (case node_at fs (resolve fs False target) of
        Inr (Symlink _) \<Rightarrow>
          (case canonicalize fs target of Inl _ \<Rightarrow> Inl (SbPermissionDenied target) | Inr p \<Rightarrow> Inr (p, True))
      | Inr _ \<Rightarrow> (case canonicalize fs target of Inl _ \<Rightarrow> Inl (SbIo target) | Inr p \<Rightarrow> Inr (p, True))
      | Inl ENotFound \<Rightarrow> canonicalise_absent fs target
      | Inl ENotADirectory \<Rightarrow> if has_dir_suffix target then Inl (SbInvalidPath target) else Inl (SbIo target)
      | Inl ELoop \<Rightarrow> Inl (SbIo target))"

definition check_write_impl :: "file_system \<Rightarrow> tool_sandbox \<Rightarrow> string \<Rightarrow> sandbox_error + string list" where
  "check_write_impl fs sb target =
     (if sb_fs_write sb = [] then Inl (SbPermissionDenied target)
      else
        bindR (canonicalise_for_write fs target) (\<lambda>(canonical, ex).
        bindR (check_within fs canonical (sb_fs_write sb) target) (\<lambda>canonical.
        if ex then bindR (shape_check fs Regular canonical target) (\<lambda>_. Inr canonical)
        else Inr canonical)))"

definition check_write :: "file_system \<Rightarrow> tool_sandbox \<Rightarrow> string \<Rightarrow> sandbox_error + string list" where
  "check_write fs sb target = map_err (flag_mangled target) (check_write_impl fs sb target)"

section \<open>Real paths\<close>

text \<open>\<open>lookup\<close> passes through directories only, so a path it answers for has no link before its last component.\<close>

definition plain_names :: "string list \<Rightarrow> bool" where
  "plain_names p \<longleftrightarrow> (\<forall>c \<in> set p. c \<noteq> [] \<and> c \<noteq> ''.'' \<and> c \<noteq> ''..'')"

definition real_node :: "node \<Rightarrow> string list \<Rightarrow> node \<Rightarrow> bool" where
  "real_node root p n \<longleftrightarrow> plain_names p \<and> lookup root p = Some n \<and> (\<forall>t. n \<noteq> Symlink t)"

definition fs_ok :: "file_system \<Rightarrow> bool" where
  "fs_ok fs \<longleftrightarrow> plain_names (fs_cwd fs) \<and> (\<exists>es. lookup (fs_root fs) (fs_cwd fs) = Some (Dir es))"

lemma lookup_append: "lookup n (p @ q) = Option.bind (lookup n p) (\<lambda>m. lookup m q)"
  by (induction n p rule: lookup.induct) (auto split: option.splits)

lemma lookup_cons_dir: "lookup n (c # cs) = Some m \<Longrightarrow> \<exists>es. n = Dir es"
  by (cases n) auto

lemma lookup_parent_dir: "lookup root (p @ c # q) = Some m \<Longrightarrow> \<exists>es. lookup root p = Some (Dir es)"
  by (auto simp: lookup_append bind_eq_Some_conv dest: lookup_cons_dir)

lemma lookup_root_dir: "lookup root p = Some (Dir es) \<Longrightarrow> \<exists>es. root = Dir es"
  by (cases p) (auto dest: lookup_cons_dir)

lemma lookup_butlast: "lookup root p = Some (Dir es) \<Longrightarrow> \<exists>es. lookup root (butlast p) = Some (Dir es)"
  by (cases p rule: rev_cases) (auto dest: lookup_parent_dir)

lemma plain_names_simps [simp]:
  "plain_names []" "plain_names (p @ q) \<longleftrightarrow> plain_names p \<and> plain_names q"
  "plain_names (c # p) \<longleftrightarrow> c \<noteq> [] \<and> c \<noteq> ''.'' \<and> c \<noteq> ''..'' \<and> plain_names p"
  by (auto simp: plain_names_def)

lemma plain_names_butlast: "plain_names p \<Longrightarrow> plain_names (butlast p)"
  by (auto simp: plain_names_def dest: in_set_butlastD)

text \<open>A walk ends at a real node; when links are kept, possibly at a link.\<close>

lemma walk_real:
  assumes "walk root follow k cur cs = Inr p" "lookup root cur = Some (Dir es)" "plain_names cur"
  shows "plain_names p \<and> (\<exists>n. lookup root p = Some n \<and> (follow \<longrightarrow> (\<forall>t. n \<noteq> Symlink t)))"
  using assms
proof (induction root follow k cur cs arbitrary: es rule: walk.induct)
  case (1 root follow k cur)
  then show ?case by auto
next
  case (2 root follow k cur c cs)
  show ?case
  proof (cases "c = [] \<or> c = ''.'' \<or> c = ''..''")
    case True
    then show ?thesis
      using 2 lookup_butlast [OF "2.prems"(2)] plain_names_butlast [OF "2.prems"(3)] by (auto split: if_splits)
  next
    case False
    then have names: "plain_names (cur @ [c])" using "2.prems"(3) by simp
    show ?thesis
    proof (cases "lookup root (cur @ [c])")
      case None
      with False "2.prems"(1) show ?thesis by simp
    next
      case (Some n)
      show ?thesis
      proof (cases n)
        case (Dir es')
        with 2 False Some names show ?thesis by auto
      next
        case (Symlink t)
        obtain rs where "lookup root [] = Some (Dir rs)" using lookup_root_dir [OF "2.prems"(2)] by auto
        with 2 False Some Symlink names show ?thesis by (auto split: if_splits)
      qed (use False Some names "2.prems"(1) in \<open>auto split: if_splits\<close>)
    qed
  qed
qed

lemma walk_plain:
  assumes "plain_names p" "lookup root (cur @ p) = Some n" "\<And>t. n = Symlink t \<Longrightarrow> \<not> follow" "p \<noteq> []"
  shows "walk root follow k cur p = Inr (cur @ p)"
  using assms
proof (induction p arbitrary: cur)
  case (Cons c cs)
  show ?case
  proof (cases "cs = []")
    case True
    with Cons.prems show ?thesis by (auto split: node.split)
  next
    case False
    then obtain d ds where cs: "cs = d # ds" by (cases cs) auto
    from Cons.prems(2) obtain es where "lookup root (cur @ [c]) = Some (Dir es)"
      using lookup_parent_dir [of root "cur @ [c]" d ds n] by (auto simp: cs)
    moreover have "walk root follow k (cur @ [c]) cs = Inr ((cur @ [c]) @ cs)"
      by (rule Cons.IH) (use Cons.prems False in auto)
    ultimately show ?thesis using Cons.prems(1) by simp
  qed
qed simp

lemma resolve_real_node:
  assumes "fs_ok fs" "real_node (fs_root fs) p n"
  shows "resolve_from fs True True p = Inr p" "node_at fs (resolve_from fs True True p) = Inr n"
proof -
  show r: "resolve_from fs True True p = Inr p"
    using assms(2) walk_plain [of p "fs_root fs" "[]" n True MAXSYMLINKS]
    by (cases "p = []") (auto simp: resolve_from_def real_node_def)
  show "node_at fs (resolve_from fs True True p) = Inr n"
    using assms(2) by (simp add: r node_at_def real_node_def)
qed

lemma resolve_exists:
  assumes "fs_ok fs" "resolve fs follow s = Inr p"
  shows "plain_names p \<and> (\<exists>n. lookup (fs_root fs) p = Some n \<and> (follow \<longrightarrow> (\<forall>t. n \<noteq> Symlink t)))"
proof -
  let ?cur = "if is_absolute s then [] else fs_cwd fs"
  obtain es where "lookup (fs_root fs) ?cur = Some (Dir es)" "plain_names ?cur"
    using assms(1) lookup_root_dir [of "fs_root fs" "fs_cwd fs"] by (cases "is_absolute s") (auto simp: fs_ok_def)
  moreover have "walk (fs_root fs) follow MAXSYMLINKS ?cur (split_slash s) = Inr p"
    using assms(2) by (auto simp: resolve_def resolve_from_def split: if_splits)
  ultimately show ?thesis using walk_real by blast
qed

lemma resolve_real:
  assumes "fs_ok fs" "canonicalize fs s = Inr p"
  obtains n where "real_node (fs_root fs) p n"
  using resolve_exists [OF assms(1) assms(2) [unfolded canonicalize_def]] by (auto simp: real_node_def)

section \<open>Absent targets\<close>

text \<open>Components that a walk skips.\<close>

abbreviation moves :: "string \<Rightarrow> bool" where
  "moves c \<equiv> c \<noteq> [] \<and> c \<noteq> ''.''"

lemma walk_skips: "filter moves cs = [] \<Longrightarrow> walk root follow k cur cs = Inr cur"
  by (induction cs) (auto split: if_splits)

lemma walk_skip_to:
  assumes "filter moves bs = c # ns"
  obtains bs' where "walk root follow k cur bs = walk root follow k cur (c # bs')" "filter moves bs' = ns"
  using assms by (induction bs arbitrary: thesis) (auto split: if_splits)

text \<open>A walk through a prefix that resolves to \<open>p\<close> goes on from \<open>p\<close>, unless \<open>p\<close> is no directory.\<close>

definition goes_on :: "node \<Rightarrow> bool \<Rightarrow> string list \<Rightarrow> string list \<Rightarrow> io_error + string list \<Rightarrow> bool" where
  "goes_on root follow p cs w \<longleftrightarrow> w = Inl ENotADirectory
     \<or> (\<exists>k es. lookup root p = Some (Dir es) \<and> w = walk root follow k p cs)"

lemma walk_prefix:
  assumes "walk root True k cur bs = Inr p" "filter moves as = filter moves bs" "lookup root cur = Some (Dir es)" "cs \<noteq> []"
  shows "goes_on root follow p cs (walk root follow k cur (as @ cs))"
  using assms(1-3)
proof (induction root "True" k cur as arbitrary: bs es rule: walk.induct)
  case (1 root k cur)
  then have "p = cur" using walk_skips [of bs root True k cur] by simp
  with 1(3) show ?case unfolding goes_on_def append_Nil by blast
next
  case (2 root k cur c as)
  show ?case
  proof (cases "moves c")
    case False
    then have "walk root follow k cur ((c # as) @ cs) = walk root follow k cur (as @ cs)" by simp
    moreover have "filter moves as = filter moves bs" using "2.prems"(2) False by simp
    ultimately show ?thesis using 2(1) [OF _ "2.prems"(1) _ "2.prems"(3)] False by simp
  next
    case True
    then have "filter moves bs = c # filter moves as" using "2.prems"(2) by simp
    then obtain bs' where "walk root True k cur bs = walk root True k cur (c # bs')" and bs2: "filter moves bs' = filter moves as"
      by (rule walk_skip_to)
    then have bs: "walk root True k cur (c # bs') = Inr p" "filter moves bs' = filter moves as" using "2.prems"(1) by argo+
    note eq = bs(2) [symmetric]
    have no: "\<not> (c = [] \<or> c = ''.'')" using True by simp
    show ?thesis
    proof (cases "c = ''..''")
      case up: True
      obtain es' where d: "lookup root (butlast cur) = Some (Dir es')" using lookup_butlast [OF "2.prems"(3)] by blast
      have "walk root True k (butlast cur) bs' = Inr p" using bs(1) up by simp
      from 2(2) [OF no up this eq d] up show ?thesis by simp
    next
      case down: False
      show ?thesis
      proof (cases "lookup root (cur @ [c])")
        case None
        with bs(1) no down show ?thesis by simp
      next
        case (Some n)
        show ?thesis
        proof (cases n)
          case (Dir es')
          have "walk root True k (cur @ [c]) bs' = Inr p" using bs(1) no down Some Dir by simp
          from 2(3) [OF no down Some Dir this eq] Some Dir no down show ?thesis by simp
        next
          case (Symlink t)
          have k: "k \<noteq> 0" using bs(1) no down Some Symlink by (auto split: if_splits)
          let ?cur = "if is_absolute t then [] else cur"
          obtain es' where d: "lookup root ?cur = Some (Dir es')"
            using lookup_root_dir [OF "2.prems"(3)] "2.prems"(3) by (cases "is_absolute t") auto
          have w: "walk root True (k - 1) ?cur (split_slash t @ bs') = Inr p" using bs(1) no down Some Symlink k by simp
          have e: "filter moves (split_slash t @ as) = filter moves (split_slash t @ bs')" using eq by simp
          have "goes_on root follow p cs (walk root follow (k - 1) ?cur ((split_slash t @ as) @ cs))"
            by (rule 2(4) [OF no down Some Symlink _ k w e d]) simp
          then show ?thesis using no down Some Symlink k assms(4) by simp
        qed (use no down Some assms(4) in \<open>simp_all add: goes_on_def\<close>)
      qed
    qed
  qed
qed

lemma filter_snoc_split:
  assumes "filter P xs = ys @ [z]"
  obtains us vs where "xs = us @ z # vs" "filter P us = ys" "filter P vs = []" "P z"
proof -
  from assms have "\<exists>us vs. xs = us @ z # vs \<and> filter P us = ys \<and> filter P vs = [] \<and> P z"
  proof (induction xs rule: rev_induct)
    case (snoc x xs)
    show ?case
    proof (cases "P x")
      case True
      with snoc.prems show ?thesis by (intro exI [of _ xs] exI [of _ "[]"]) simp
    next
      case False
      with snoc obtain us vs where "xs = us @ z # vs \<and> filter P us = ys \<and> filter P vs = [] \<and> P z" by auto
      with False show ?thesis by (intro exI [of _ us] exI [of _ "vs @ [x]"]) simp
    qed
  qed simp
  with that show thesis by blast
qed

lemma absent_lookup:
  assumes fs: "fs_ok fs" and t: "target \<noteq> []" "resolve fs False target = Inl ENotFound"
    and parent: "path_parent target = Some parent" "path_file_name target = Some f"
    and p: "canonicalize_components fs (if parent = [] then [CurDir] else parent) = Inr p"
  shows "(\<exists>es. real_node (fs_root fs) p (Dir es)) \<and> plain_names [f]
    \<and> (lookup (fs_root fs) (p @ [f]) = None \<or> (\<exists>l. lookup (fs_root fs) (p @ [f]) = Some (Symlink l)))"
proof -
  let ?root = "fs_root fs" and ?cur = "if is_absolute target then [] else fs_cwd fs"
  let ?pre = "if is_absolute target then [RootDir] else if hd (split_slash target) = ''.'' then [CurDir] else []"
  let ?comp = "\<lambda>c. if c = ''..'' then ParentDir else Normal c"
  have cs: "components target = ?pre @ map ?comp (filter moves (split_slash target))" by (simp add: components_def)
  from parent(2) have last: "components target \<noteq> []" "last (components target) = Normal f"
    by (auto simp: path_file_name_def Let_def split: if_splits path_component.splits)
  then obtain ns where ns: "filter moves (split_slash target) = ns @ [f]" "f \<noteq> ''..''"
    unfolding cs by (cases "filter moves (split_slash target)" rule: rev_cases) (auto split: if_splits)
  have par: "parent = ?pre @ map ?comp ns"
    using parent(1) unfolding path_parent_def Let_def cs ns by (auto simp: butlast_append split: if_splits)
  obtain us vs where sp: "split_slash target = us @ f # vs" "filter moves us = ns" "filter moves vs = []" "moves f"
    using ns(1) by (rule filter_snoc_split)
  let ?par = "if parent = [] then [CurDir] else parent"
  have nm: "filter moves (map component_name (map ?comp ns)) = ns"
  proof -
    have "map component_name (map ?comp ns) = ns" by (induction ns) auto
    moreover have "filter moves ns = ns" unfolding sp(2) [symmetric] by simp
    ultimately show ?thesis by simp
  qed
  have nm': "filter moves (map component_name ?par) = ns" using nm by (auto simp: par)
  have ab: "(?par \<noteq> [] \<and> hd ?par = RootDir) = is_absolute target" by (cases ns) (auto simp: par)
  obtain es where d: "lookup ?root ?cur = Some (Dir es)" "plain_names ?cur"
    using fs lookup_root_dir [of ?root "fs_cwd fs"] by (cases "is_absolute target") (auto simp: fs_ok_def)
  have w: "walk ?root True MAXSYMLINKS ?cur (map component_name ?par) = Inr p"
    using p unfolding canonicalize_components_def resolve_from_def ab by simp
  from walk_real [OF w d] have names: "plain_names p" by blast
  have "goes_on ?root False p (f # vs) (walk ?root False MAXSYMLINKS ?cur (us @ f # vs))"
    by (rule walk_prefix [OF w _ d(1)]) (use nm' sp(2) in simp_all)
  moreover have nf: "walk ?root False MAXSYMLINKS ?cur (us @ f # vs) = Inl ENotFound"
    using t sp(1) by (simp add: resolve_def resolve_from_def)
  ultimately obtain k where w': "walk ?root False k p (f # vs) = Inl ENotFound" and dir: "\<exists>es. lookup ?root p = Some (Dir es)"
    unfolding goes_on_def nf by (auto simp del: walk.simps dest: sym)
  have "lookup ?root (p @ [f]) = None \<or> (\<exists>l. lookup ?root (p @ [f]) = Some (Symlink l))"
  proof (cases "lookup ?root (p @ [f])")
    case (Some n)
    then show ?thesis using w' sp(4) ns(2) walk_skips [OF sp(3), of ?root False k "p @ [f]"]
      by (cases n; cases "vs = []") simp_all
  qed simp
  with names dir sp(4) ns(2) show ?thesis by (simp add: real_node_def)
qed

section \<open>Properties\<close>

lemmas sandbox_check_defs = check_read_def check_read_dir_def check_read_impl_def check_exec_cwd_def check_exec_cwd_impl_def

definition granted :: "file_system \<Rightarrow> string list \<Rightarrow> string list \<Rightarrow> bool" where
  "granted fs grants p \<longleftrightarrow> (\<exists>g \<in> set grants. \<exists>q. canonicalize fs g = Inr q \<and> prefix q p)"

lemma check_within_iff: "check_within fs p ps original = Inr q \<longleftrightarrow> q = p \<and> granted fs ps p"
  by (induction ps) (auto simp: granted_def split: sum.splits)

lemma map_err_Inr [simp]: "map_err f r = Inr x \<longleftrightarrow> r = Inr x"
  by (cases r) (auto simp: map_err_def)

lemma canonicalise_existing_Inr: "canonicalise_existing fs t = Inr p \<longleftrightarrow> canonicalize fs t = Inr p"
  by (auto simp: canonicalise_existing_def split: sum.splits io_error.splits)

lemma shape_check_iff:
  assumes "fs_ok fs" "real_node (fs_root fs) p n"
  shows "shape_check fs Regular p t = Inr u \<longleftrightarrow> n = RegularFile" "shape_check fs Directory p t = Inr u \<longleftrightarrow> (\<exists>es. n = Dir es)"
  by (auto simp: shape_check_def resolve_real_node(2) [OF assms] Let_def split: node.split)

lemma granted_nonempty: "granted fs ps p \<Longrightarrow> ps \<noteq> []"
  by (auto simp: granted_def)

text \<open>
  C32. Reads and working directories are confined. A read check, a check of a directory to search, or the
  check of a command's working directory approves \<open>p\<close> exactly when the request resolves to \<open>p\<close>, the node at \<open>p\<close> is a regular
  file (a directory), and \<open>p\<close> lies below what some granted prefix resolves to. Such a \<open>p\<close> has no link, dot or
  dot-dot in it, so opening it reaches that very node: no request escapes the granted directories.
\<close>

theorem sandbox_read_exact:
  assumes "fs_ok fs"
  shows "(check_read fs sb target = Inr p \<longleftrightarrow>
      canonicalize fs target = Inr p \<and> real_node (fs_root fs) p RegularFile \<and> granted fs (sb_fs_read sb) p)
    \<and> (check_read_dir fs sb target = Inr p \<longleftrightarrow>
      canonicalize fs target = Inr p \<and> (\<exists>es. real_node (fs_root fs) p (Dir es)) \<and> granted fs (sb_fs_read sb) p)
    \<and> (check_exec_cwd fs sb target = Inr p \<longleftrightarrow>
      canonicalize fs target = Inr p \<and> (\<exists>es. real_node (fs_root fs) p (Dir es)) \<and> granted fs (sb_exec_cwd sb) p)"
proof (cases "canonicalize fs target")
  case (Inl e)
  then show ?thesis
    by (auto simp: sandbox_check_defs canonicalise_existing_Inr)
next
  case (Inr q)
  then obtain n where n: "real_node (fs_root fs) q n" by (rule resolve_real [OF assms])
  then have uniq: "real_node (fs_root fs) q m \<longleftrightarrow> m = n" for m by (auto simp: real_node_def)
  have dir: "is_dir_path fs q \<longleftrightarrow> (\<exists>es. n = Dir es)"
    by (auto simp: is_dir_path_def resolve_real_node(2) [OF assms n] split: node.split)
  have ce: "canonicalise_existing fs target = Inr q" by (simp add: canonicalise_existing_Inr Inr)
  have "check_read fs sb target = Inr p \<longleftrightarrow> q = p \<and> n = RegularFile \<and> granted fs (sb_fs_read sb) p"
    "check_read_dir fs sb target = Inr p \<longleftrightarrow> q = p \<and> (\<exists>es. n = Dir es) \<and> granted fs (sb_fs_read sb) p"
    "check_exec_cwd fs sb target = Inr p \<longleftrightarrow> q = p \<and> (\<exists>es. n = Dir es) \<and> granted fs (sb_exec_cwd sb) p"
    by (auto simp: sandbox_check_defs ce check_within_iff
        shape_check_iff [OF assms n] dir dest: granted_nonempty split: if_splits)
  then show ?thesis using uniq Inr by (cases "q = p") auto
qed

lemma check_write_confined:
  assumes "fs_ok fs" "check_write fs sb target = Inr p"
  shows "granted fs (sb_fs_write sb) p \<and> plain_names p
    \<and> (canonicalize fs target = Inr p \<and> real_node (fs_root fs) p RegularFile
       \<or> lookup (fs_root fs) p = None \<and> (\<exists>es. p \<noteq> [] \<and> real_node (fs_root fs) (butlast p) (Dir es)))"
proof -
  from assms(2) obtain ex where cw: "canonicalise_for_write fs target = Inr (p, ex)" and g: "granted fs (sb_fs_write sb) p"
    and sh: "ex \<Longrightarrow> shape_check fs Regular p target = Inr ()"
    by (auto simp: check_write_def check_write_impl_def check_within_iff split: if_splits)
  show ?thesis
  proof (cases ex)
    case True
    with cw have c: "canonicalize fs target = Inr p"
      by (auto simp: canonicalise_for_write_def canonicalise_absent_def Let_def
          split: sum.splits node.splits io_error.splits option.splits if_splits)
    then obtain n where n: "real_node (fs_root fs) p n" by (rule resolve_real [OF assms(1)])
    with sh [OF True] have "n = RegularFile" by (simp add: shape_check_iff [OF assms(1) n])
    with n c g show ?thesis by (auto simp: real_node_def)
  next
    case False
    with cw have nf: "node_at fs (resolve fs False target) = Inl ENotFound" and ab: "canonicalise_absent fs target = Inr (p, False)"
      by (auto simp: canonicalise_for_write_def split: sum.splits node.splits io_error.splits if_splits)
    from ab obtain parent f d where par: "path_parent target = Some parent" "path_file_name target = Some f"
      and d: "canonicalize_components fs (if parent = [] then [CurDir] else parent) = Inr d" and p: "p = d @ [f]"
      and nl: "\<And>l. node_at fs (resolve_from fs False True p) \<noteq> Inr (Symlink l)"
      by (auto simp: canonicalise_absent_def Let_def split: sum.splits node.splits io_error.splits option.splits)
    have ne: "target \<noteq> []" using par(1) by (auto simp: path_parent_def components_def is_absolute_def starts_with_def)
    have "resolve fs False target = Inl ENotFound"
      using nf resolve_exists [OF assms(1), of False target] by (cases "resolve fs False target") (auto simp: node_at_def)
    from absent_lookup [OF assms(1) ne this par d] obtain es where real: "real_node (fs_root fs) d (Dir es)" "plain_names [f]"
      and l: "lookup (fs_root fs) p = None \<or> (\<exists>l. lookup (fs_root fs) p = Some (Symlink l))" by (auto simp: p)
    have names: "plain_names p" using real by (simp add: p real_node_def)
    have "lookup (fs_root fs) p = None"
    proof (rule ccontr)
      assume "lookup (fs_root fs) p \<noteq> None"
      with l obtain t where t: "lookup (fs_root fs) p = Some (Symlink t)" by blast
      have "resolve_from fs False True p = Inr p"
        using walk_plain [OF names, of "fs_root fs" "[]" "Symlink t" False MAXSYMLINKS] t by (simp add: resolve_from_def p)
      with nl [of t] t show False by (simp add: node_at_def)
    qed
    with g names real(1) p show ?thesis by auto
  qed
qed

text \<open>A request that resolves when links are followed also resolves when the last one is kept.\<close>

lemma walk_nofollow: "walk root follow k cur cs = Inr p \<Longrightarrow> \<exists>p'. walk root False k cur cs = Inr p'"
proof (induction root follow k cur cs rule: walk.induct)
  case (2 root follow k cur c cs)
  then show ?case by (auto split: if_splits option.splits node.splits)
qed simp

lemma check_write_existing:
  assumes fs: "fs_ok fs" and c: "canonicalize fs target = Inr p" "real_node (fs_root fs) p RegularFile" "granted fs (sb_fs_write sb) p"
  shows "check_write fs sb target = Inr p"
proof -
  have "target \<noteq> []" using c(1) by (auto simp: canonicalize_def resolve_def)
  with c(1) obtain p' where "resolve fs False target = Inr p'"
    unfolding canonicalize_def resolve_def resolve_from_def if_not_P [OF \<open>target \<noteq> []\<close>] using walk_nofollow by metis
  moreover from resolve_exists [OF fs this] obtain n where "lookup (fs_root fs) p' = Some n" by blast
  ultimately have "node_at fs (resolve fs False target) = Inr n" by (simp add: node_at_def)
  then have "canonicalise_for_write fs target = Inr (p, True)"
    by (simp add: canonicalise_for_write_def c(1) split: node.split)
  moreover have "check_within fs p (sb_fs_write sb) target = Inr p" by (simp add: check_within_iff c(3))
  moreover have "shape_check fs Regular p target = Inr ()" by (simp add: shape_check_iff [OF fs c(2)])
  ultimately show ?thesis using granted_nonempty [OF c(3)] by (simp add: check_write_def check_write_impl_def)
qed

text \<open>
  C33. Writes are confined. An existing node is approved for writing exactly when the request resolves to it, it is
  a regular file, and it lies below what some granted prefix resolves to. A path approved for a new file lies
  below such a prefix too, contains no link, dot or dot-dot, names nothing that exists, and its parent
  is a directory: a write can neither follow a link out of the grant, a dangling one included, nor open a directory, a pipe,
  a socket or a device.
\<close>

theorem sandbox_write_confined:
  assumes "fs_ok fs"
  shows "(check_write fs sb target = Inr p \<and> lookup (fs_root fs) p \<noteq> None \<longleftrightarrow>
      canonicalize fs target = Inr p \<and> real_node (fs_root fs) p RegularFile \<and> granted fs (sb_fs_write sb) p)
    \<and> (check_write fs sb target = Inr p \<and> lookup (fs_root fs) p = None \<longrightarrow>
      granted fs (sb_fs_write sb) p \<and> plain_names p \<and> p \<noteq> [] \<and> (\<exists>es. real_node (fs_root fs) (butlast p) (Dir es)))"
proof -
  have "lookup (fs_root fs) p \<noteq> None" if "real_node (fs_root fs) p RegularFile" using that by (simp add: real_node_def)
  with check_write_confined [OF assms, of sb target p] check_write_existing [OF assms, of target p sb] show ?thesis by metis
qed

text \<open>
  A concrete tree: a granted work directory holding a file, a link to it, a link to the password file, a dangling link
  and a pipe.
\<close>

definition demo_fs :: file_system where
  "demo_fs = \<lparr>fs_root = Dir [
       (''etc'', Dir [(''passwd'', RegularFile)]),
       (''work'', Dir [(''a'', RegularFile), (''good'', Symlink ''./a''), (''evil'', Symlink ''/etc/passwd''),
                     (''hang'', Symlink ''../etc/new''), (''pipe'', Fifo)])],
     fs_cwd = [''work'']\<rparr>"

definition demo_sb :: tool_sandbox where
  "demo_sb = allow_exec_cwd ''/work'' (allow_write ''/work'' (allow_read ''/work/../work'' sb_new))"

lemma demo_fs_ok: "fs_ok demo_fs"
  by (simp add: fs_ok_def demo_fs_def)

theorem sandbox_read_exact_witness:
  "canonicalize demo_fs ''good'' = Inr [''work'', ''a''] \<and> granted demo_fs (sb_fs_read demo_sb) [''work'', ''a'']
   \<and> canonicalize demo_fs ''../work/.'' = Inr [''work''] \<and> granted demo_fs (sb_exec_cwd demo_sb) [''work'']
   \<and> check_read demo_fs demo_sb ''evil'' = Inl (SbPermissionDenied ''evil'')
   \<and> check_read demo_fs demo_sb ''pipe'' = Inl (SbNotRegularFile ''pipe'')"
proof -
  have "check_read demo_fs demo_sb ''good'' = Inr [''work'', ''a'']" by code_simp
  moreover have "check_exec_cwd demo_fs demo_sb ''../work/.'' = Inr [''work'']" by code_simp
  moreover have "check_read demo_fs demo_sb ''evil'' = Inl (SbPermissionDenied ''evil'')" by code_simp
  moreover have "check_read demo_fs demo_sb ''pipe'' = Inl (SbNotRegularFile ''pipe'')" by code_simp
  ultimately show ?thesis
    using sandbox_read_exact [OF demo_fs_ok, of demo_sb "''good''" "[''work'', ''a'']"]
      sandbox_read_exact [OF demo_fs_ok, of demo_sb "''../work/.''" "[''work'']"] by simp
qed

theorem sandbox_write_confined_witness:
  "canonicalize demo_fs ''good'' = Inr [''work'', ''a''] \<and> granted demo_fs (sb_fs_write demo_sb) [''work'', ''a'']
   \<and> granted demo_fs (sb_fs_write demo_sb) [''work'', ''b''] \<and> plain_names [''work'', ''b'']
   \<and> check_write demo_fs demo_sb ''hang/'' = Inl (SbPermissionDenied ''hang/'')
   \<and> check_write demo_fs demo_sb ''evil'' = Inl (SbPermissionDenied ''evil'')"
proof -
  have "check_write demo_fs demo_sb ''good'' = Inr [''work'', ''a'']" by code_simp
  moreover have "lookup (fs_root demo_fs) [''work'', ''a''] \<noteq> None" by code_simp
  moreover have "check_write demo_fs demo_sb ''/etc/../work/./b'' = Inr [''work'', ''b'']" by code_simp
  moreover have "lookup (fs_root demo_fs) [''work'', ''b''] = None" by code_simp
  moreover have "check_write demo_fs demo_sb ''hang/'' = Inl (SbPermissionDenied ''hang/'')" by code_simp
  moreover have "check_write demo_fs demo_sb ''evil'' = Inl (SbPermissionDenied ''evil'')" by code_simp
  ultimately show ?thesis
    using sandbox_write_confined [OF demo_fs_ok, of demo_sb "''good''" "[''work'', ''a'']"]
      sandbox_write_confined [OF demo_fs_ok, of demo_sb "''/etc/../work/./b''" "[''work'', ''b'']"] by simp
qed

end
