(* ===== verification/Spec2Isabelle.thy ===== *)
theory Spec2Isabelle
  imports Grant_Bus Gate Reachability_Audit Harness_Properties Sandbox
begin

text \<open>
  \<^bold>\<open>factor-q in Isabelle/HOL.\<close> factor-q runs LLM agents: a daemon receives triggers, drives each
  invocation of an agent through a pure reducer, and gives agents a content-addressed object
  store guarded by delegable grants. This library models the object store with its authorisation
  (\<^verbatim>\<open>src/services/fq-store\<close>), and the reducer and the tool sandbox of the runtime
  (\<^verbatim>\<open>src/services/fq-runtime\<close>).

  \<^bold>\<open>Conventions.\<close> A struct is a record, an enum a datatype, a fallible function returns
  \<open>error + value\<close> with Rust's \<^verbatim>\<open>?\<close> as \<open>bindR\<close>; a SQLite table is the list of its rows; a stateful
  operation takes and returns the state. Unsigned integers are \<open>nat\<close> with saturation written out where the
  code saturates; reference counts are \<open>int\<close>. Third-party code is a record of functions passed to the
  definitions, with what is relied on as a predicate: the hash, the hex and manifest codecs and the chunker (\<open>env_ok\<close>),
  the verb and scope columns (\<open>codec_ok\<close>), biscuit tokens (\<open>biscuit_ok\<close>), JSON (\<open>serde_ok\<close>). Error texts are
  not modelled.

  \<^bold>\<open>Authorisation.\<close> \<open>Grants\<close> is \<^verbatim>\<open>grants.rs\<close>: principals, verbs, scopes, the grant event log and its
  decision procedure; a decision is true exactly when a chain of live grants leads to the operator (C8, C11), revocation
  always wins (C12), and scope covering is exact on names (C14, C15, C16), and a delegation without support is inert
  (C13). \<open>Grant_Log\<close> is \<^verbatim>\<open>grant_log.rs\<close>: the
  SQLite log and its projection, which agrees with replaying the log after every sequence of commands (C3, C17).
  \<open>Grant_Bus\<close> is the outbox and its delivery with the publishes and marks that fail as parameters: in order, without
  gaps and at least once, exactly once when no mark fails; the bus contract is the locales \<open>grant_bus\<close> and \<open>atomic_grant_bus\<close>
  and the in-memory bus their interpretation (C9, C18). \<open>Tokens\<close> is \<^verbatim>\<open>tokens.rs\<close>: minting, attenuation
  and verification of capability tokens (C19, C20). \<open>Gate\<close> is \<^verbatim>\<open>gate.rs\<close>: every gated operation; complete
  mediation, no escalation or impersonation by colluding agents, effective delegation, revocation by the issuer only (C2, C4, C25, C10).

  \<^bold>\<open>Object store.\<close> \<open>Store_Types\<close>, \<open>Content_Store\<close> and \<open>Content_Properties\<close> are \<^verbatim>\<open>cid.rs\<close>, \<^verbatim>\<open>error.rs\<close>
  and \<^verbatim>\<open>fs.rs\<close>: blocks and manifests on disk, put/get and file-name round trips (C21, C22).
  \<open>Name_Index\<close> is \<^verbatim>\<open>index.rs\<close> and \<open>Index_Accounting\<close> the invariant \<open>counted\<close>: every reference count is the number
  of references plus the outstanding reservations. \<open>Repository\<close> is \<^verbatim>\<open>repository.rs\<close> with the failure of each
  step as the parameter \<open>faults\<close>, \<open>Repository_Invariant\<close> its invariant, \<open>Collector\<close> is \<^verbatim>\<open>collector.rs\<close>.
  \<open>Store_Spec\<close> states what the store promises as a machine over named contents, and the simulation (locale
  \<open>simulation\<close>, interpreted as \<open>store\<close>) that the repository and collector implement it (C1), that failed puts
  are invisible (C23) and collections exact (C24). \<open>Oracle\<close> is \<^verbatim>\<open>verify.rs\<close>, silent after every run (C26);
  \<open>Reachability_Audit\<close> is \<^verbatim>\<open>audit.rs\<close>: it repairs crashed puts (C5), and a crash, a retry and an audit
  together lose a named content (C27).

  \<^bold>\<open>Reducer.\<close> \<open>Conversation\<close> holds the turn types of \<^verbatim>\<open>fq-ops/src/events/llm.rs\<close>; \<open>Harness\<close> is
  \<^verbatim>\<open>worker/reducer/harness.rs\<close> and \<^verbatim>\<open>types.rs\<close>. \<open>Harness_Properties\<close> shows when a step fails (C6), that requests
  are well-formed conversations (C7), that invocations end (C28), what completes them (C29, C30)
  and that the order of parallel tool results does not matter (C31).

  \<^bold>\<open>Tool sandbox.\<close> \<open>Sandbox\<close> is \<^verbatim>\<open>fq-tools/src/sandbox.rs\<close> over a file tree with symbolic links and the kernel's
  path walk: what is approved for reading, searching and running commands is characterised exactly (C32), and
  writes stay below the granted directories whatever links the tree holds (C33).

  \<^bold>\<open>Bounds and fuel.\<close> No definition uses fuel. The two retry loops of the repository are total: with calls
  one after another a refused reservation is followed by a mint that succeeds, and the reservation
  of an object gives up after \<open>MAX_RESERVE_ATTEMPTS\<close>. Contents are shorter than \<open>2 ^ 64\<close> bytes and iteration caps
  below \<open>2 ^ 32\<close>, the widths of their Rust types.

  \<^bold>\<open>Not modelled.\<close> Interleavings inside one repository call, staging files and the fsync order of
  the file store, the NATS transport, the asynchronous runner and its write-ahead log, the dispatcher and the
  projections of the control plane, provider adapters, pricing (floating point), tool execution, the
  daemon, command lines, dashboard and the Go adapters: they are I/O, third-party protocols or presentation.
\<close>

end
